(* ===== verification/L5_Prelude.thy ===== *)
theory L5_Prelude
  imports Main "HOL-Library.Word"
begin

text \<open>
  Shared vocabulary of the development: the kernel's error numbers (\<^verbatim>\<open>sys/errno.h\<close>), the C
  integer and character types the components use, the alignment macros of \<^verbatim>\<open>sys/param.h\<close>,
  byte buffers with checked writes, and the generic lemmas on lists, options and words that
  the component theories import.  Lemmas that components use as rewrite rules are collected
  in \<^verbatim>\<open>buf_simps\<close> (buffers) and \<^verbatim>\<open>align_simps\<close> (alignment).
\<close>

unbundle bit_operations_syntax

named_theorems buf_simps
named_theorems align_simps

type_synonym u8 = "8 word"
type_synonym u16 = "16 word"
type_synonym u32 = "32 word"
type_synonym u64 = "64 word"
type_synonym s8 = "8 word"

section \<open>Error numbers\<close>

text \<open>
  Kernel routines return \<^verbatim>\<open>-E...\<close> on failure.  The model returns the error in the left
  summand.  A literal \<^verbatim>\<open>return -1\<close> of the source is numerically \<^verbatim>\<open>-EPERM\<close>.
\<close>

datatype errno =
    EPERM | ENOENT | ESRCH | EIO | ENXIO | ENOEXEC | EBADF | EAGAIN | ENOMEM | EACCES
  | EFAULT | EEXIST | ENODEV | EINVAL | EMFILE | EPIPE | ENAMETOOLONG | ENOTSUP

primrec errno_code :: "errno \<Rightarrow> int" where
  "errno_code EPERM = 1"
| "errno_code ENOENT = 2"
| "errno_code ESRCH = 3"
| "errno_code EIO = 5"
| "errno_code ENXIO = 6"
| "errno_code ENOEXEC = 8"
| "errno_code EBADF = 9"
| "errno_code EAGAIN = 11"
| "errno_code ENOMEM = 12"
| "errno_code EACCES = 13"
| "errno_code EFAULT = 14"
| "errno_code EEXIST = 17"
| "errno_code ENODEV = 19"
| "errno_code EINVAL = 22"
| "errno_code EMFILE = 24"
| "errno_code EPIPE = 32"
| "errno_code ENAMETOOLONG = 91"
| "errno_code ENOTSUP = 134"

type_synonym 'a res = "errno + 'a"

abbreviation minus_one :: errno where
  "minus_one \<equiv> EPERM"

abbreviation is_ok :: "'a + 'b \<Rightarrow> bool" where
  "is_ok r \<equiv> \<not> isl r"

lemma errno_code_pos: "0 < errno_code e"
  by (cases e) simp_all

lemma errno_code_inj: "errno_code a = errno_code b \<longleftrightarrow> a = b"
  by (cases a; cases b) simp_all

section \<open>Characters\<close>

text \<open>
  A C \<^verbatim>\<open>char\<close> is a HOL \<^typ>\<open>char\<close> (eight bits).  On amd64 it is signed: \<open>schar\<close> is the value
  the usual integer promotion gives, \<open>uchar\<close> the value after a cast to \<^verbatim>\<open>unsigned char\<close>.
\<close>

abbreviation NUL :: char where
  "NUL \<equiv> CHR 0x00"

definition uchar :: "char \<Rightarrow> int" where
  "uchar c = int (of_char c)"

definition schar :: "char \<Rightarrow> int" where
  "schar c = (if uchar c < 128 then uchar c else uchar c - 256)"

lemma uchar_range: "0 \<le> uchar c" "uchar c < 256"
  by (simp_all add: uchar_def)

lemma uchar_inj [simp]: "uchar a = uchar b \<longleftrightarrow> a = b"
  by (simp add: uchar_def)

lemma schar_range: "- 128 \<le> schar c" "schar c < 128"
  using uchar_range [of c] by (auto simp: schar_def)

text \<open>The bytes of a NUL-terminated string that starts at the head of a region.\<close>

definition cstr :: "char list \<Rightarrow> char list" where
  "cstr s = takeWhile (\<lambda>c. c \<noteq> NUL) s"

lemma cstr_simps [simp]:
  "cstr [] = []"
  "cstr (c # s) = (if c = NUL then [] else c # cstr s)"
  by (simp_all add: cstr_def)

lemma NUL_notin_cstr [simp]: "NUL \<notin> set (cstr s)"
  by (auto simp: cstr_def dest: set_takeWhileD)

lemma cstr_append_NUL [simp]: "NUL \<notin> set s \<Longrightarrow> cstr (s @ NUL # t) = s"
  by (induction s) auto

lemma cstr_id: "NUL \<notin> set s \<Longrightarrow> cstr s = s"
  by (induction s) auto

lemma length_cstr_le: "length (cstr s) \<le> length s"
  by (simp add: cstr_def length_takeWhile_le)

lemma cstr_split:
  "NUL \<in> set s \<Longrightarrow> \<exists>t. s = cstr s @ NUL # t"
  by (induction s) auto

section \<open>Buffers\<close>

text \<open>
  A C array is a list.  \<open>buf_put\<close> is the store \<^verbatim>\<open>buf[i] = x\<close>: \<open>None\<close> when the index is outside
  the array, so that an out-of-bounds store is visible in the model.  \<open>buf_blit\<close> is
  \<^verbatim>\<open>memcpy(buf + off, src, len)\<close> with the same check.
\<close>

definition buf_put :: "'a list \<Rightarrow> nat \<Rightarrow> 'a \<Rightarrow> 'a list option" where
  "buf_put buf i x = (if i < length buf then Some (buf[i := x]) else None)"

definition buf_get :: "'a list \<Rightarrow> nat \<Rightarrow> 'a option" where
  "buf_get buf i = (if i < length buf then Some (buf ! i) else None)"

definition buf_blit :: "'a list \<Rightarrow> nat \<Rightarrow> 'a list \<Rightarrow> 'a list option" where
  "buf_blit buf off src =
     (if off + length src \<le> length buf
      then Some (take off buf @ src @ drop (off + length src) buf) else None)"

lemma buf_get_Some [buf_simps]: "i < length buf \<Longrightarrow> buf_get buf i = Some (buf ! i)"
  by (simp add: buf_get_def)

lemma buf_put_Some [buf_simps]: "i < length buf \<Longrightarrow> buf_put buf i x = Some (buf[i := x])"
  by (simp add: buf_put_def)

lemma buf_put_length: "buf_put buf i x = Some buf' \<Longrightarrow> length buf' = length buf"
  by (auto simp: buf_put_def split: if_splits)

lemma buf_blit_length: "buf_blit buf off src = Some buf' \<Longrightarrow> length buf' = length buf"
  by (auto simp: buf_blit_def split: if_splits)

lemma buf_blit_read:
  assumes "buf_blit buf off src = Some buf'"
  shows "take (length src) (drop off buf') = src"
  using assms by (auto simp: buf_blit_def split: if_splits)

lemma buf_blit_frame:
  assumes "buf_blit buf off src = Some buf'" and "i < off \<or> off + length src \<le> i" and "i < length buf"
  shows "buf' ! i = buf ! i"
  using assms by (auto simp: buf_blit_def nth_append min_def split: if_splits)

lemma buf_blit_nth:
  assumes "buf_blit buf off src = Some buf'" and "i < length src"
  shows "buf' ! (off + i) = src ! i"
  using assms by (auto simp: buf_blit_def nth_append min_def split: if_splits)

lemma take_Suc_update: "k < length ys \<Longrightarrow> take (Suc k) (ys[k := b]) = take k ys @ [b]"
  by (simp add: take_Suc_conv_app_nth)

section \<open>Alignment\<close>

text \<open>\<^verbatim>\<open>ALIGN_UP\<close> and \<^verbatim>\<open>ALIGN_DOWN\<close> on 64-bit values, with the wrap-around of the addition.\<close>

definition ALIGN_UP :: "u64 \<Rightarrow> u64 \<Rightarrow> u64" where
  "ALIGN_UP v a = (v + a - 1) AND NOT (a - 1)"

definition ALIGN_DOWN :: "u64 \<Rightarrow> u64 \<Rightarrow> u64" where
  "ALIGN_DOWN v a = v AND NOT (a - 1)"

text \<open>The value they compute for a power of two: round up or down to a multiple.\<close>

lemma unat_pow2:
  assumes "n < LENGTH('a)"
  shows "unat (2 ^ n :: 'a::len word) = 2 ^ n"
proof -
  have "unat (of_nat (2 ^ n) :: 'a word) = 2 ^ n"
    using assms by (simp only: unat_of_nat) simp
  then show ?thesis by (simp only: of_nat_power of_nat_numeral)
qed

lemma and_not_mask_unat:
  fixes v :: "'a::len word"
  assumes "n < LENGTH('a)"
  shows "unat (v AND NOT (2 ^ n - 1)) = unat v div 2 ^ n * 2 ^ n"
proof -
  have "v AND NOT (2 ^ n - 1) = v AND NOT (mask n)"
    by (simp add: mask_eq_decr_exp)
  also have "\<dots> = push_bit n (drop_bit n v)"
    by (rule bit_word_eqI) (auto simp: bit_simps)
  finally have "unat (v AND NOT (2 ^ n - 1)) = unat (push_bit n (drop_bit n v))"
    by simp
  also have "\<dots> = take_bit LENGTH('a) (push_bit n (drop_bit n (unat v)))"
    by (simp only: unsigned_push_bit_eq unsigned_drop_bit_eq) (simp add: take_bit_nat_eq_self)
  also have "drop_bit n (unat v) = unat v div 2 ^ n"
    by (simp add: drop_bit_eq_div)
  also have "take_bit LENGTH('a) (push_bit n (unat v div 2 ^ n)) = unat v div 2 ^ n * 2 ^ n"
  proof -
    have "unat v div 2 ^ n * 2 ^ n \<le> unat v"
      by (rule div_times_less_eq_dividend)
    also have "unat v < 2 ^ LENGTH('a)"
      by (rule unsigned_less)
    finally show ?thesis
      by (simp add: push_bit_eq_mult take_bit_eq_mod)
  qed
  finally show ?thesis .
qed

lemma ALIGN_DOWN_unat [align_simps]:
  assumes "n < 64"
  shows "unat (ALIGN_DOWN v (2 ^ n)) = unat v div 2 ^ n * 2 ^ n"
  using assms by (simp add: ALIGN_DOWN_def and_not_mask_unat)

lemma ALIGN_UP_unat [align_simps]:
  assumes "n < 64" and "unat v + 2 ^ n - 1 < 2 ^ 64"
  shows "unat (ALIGN_UP v (2 ^ n)) = (unat v + 2 ^ n - 1) div 2 ^ n * 2 ^ n"
proof -
  have p: "unat (2 ^ n :: u64) = 2 ^ n"
    using assms(1) by (simp add: unat_pow2)
  have "unat (v + 2 ^ n - 1) = unat v + 2 ^ n - 1"
  proof -
    have eq: "v + 2 ^ n - 1 = v + (2 ^ n - 1)" by (simp only: add_diff_eq)
    have q: "unat (2 ^ n - 1 :: u64) = 2 ^ n - 1"
      using p by (simp add: unat_sub word_le_nat_alt)
    have "unat v + unat (2 ^ n - 1 :: u64) < 2 ^ 64"
      using assms(2) by (simp add: q)
    then have "unat (v + (2 ^ n - 1)) = unat v + unat (2 ^ n - 1 :: u64)"
      by (simp add: unat_word_ariths)
    then show ?thesis by (simp only: eq q) simp
  qed
  then show ?thesis
    using assms(1) by (simp add: ALIGN_UP_def and_not_mask_unat)
qed

text \<open>Rounding up on natural numbers, the meaning of \<^verbatim>\<open>ALIGN_UP\<close> when nothing wraps.\<close>

definition round_up :: "nat \<Rightarrow> nat \<Rightarrow> nat" where
  "round_up v a = (v + a - 1) div a * a"

lemma round_up_ge:
  assumes "0 < a"
  shows "v \<le> round_up v a"
  using dividend_less_div_times [OF assms, of "v + a - 1"] assms
  by (simp add: round_up_def)

lemma round_up_dvd: "a dvd round_up v a"
  by (simp add: round_up_def)

lemma round_up_least:
  assumes "0 < a" and "v \<le> m" and "a dvd m"
  shows "round_up v a \<le> m"
proof -
  from \<open>a dvd m\<close> obtain k where k: "m = a * k" by blast
  have "(v + a - 1) div a \<le> k"
  proof -
    have "v + a - 1 < a * k + a"
      using assms(1,2) k by linarith
    then have "v + a - 1 < (k + 1) * a" by (simp add: algebra_simps)
    then show ?thesis
      using less_mult_imp_div_less [of "v + a - 1" "k + 1" a] by simp
  qed
  then show ?thesis by (simp add: round_up_def k)
qed

lemma round_up_id: "0 < a \<Longrightarrow> a dvd v \<Longrightarrow> round_up v a = v"
  by (rule antisym) (simp_all add: round_up_least round_up_ge)

section \<open>Little-endian integers\<close>

text \<open>The bytes of a \<open>k\<close>-byte integer, least significant first, and the integer of a byte list.\<close>

fun le_enc :: "nat \<Rightarrow> nat \<Rightarrow> char list" where
  "le_enc 0 n = []"
| "le_enc (Suc k) n = char_of n # le_enc k (n div 256)"

fun le_dec :: "char list \<Rightarrow> nat" where
  "le_dec [] = 0"
| "le_dec (c # cs) = of_char c + 256 * le_dec cs"

lemma le_enc_length [simp]: "length (le_enc k n) = k"
  by (induction k arbitrary: n) simp_all

lemma le_dec_enc [simp]: "le_dec (le_enc k n) = n mod 256 ^ k"
proof (induction k arbitrary: n)
  case (Suc k)
  have "n mod 256 ^ Suc k = n mod 256 + 256 * (n div 256 mod 256 ^ k)"
    by (simp add: mod_mult2_eq)
  then show ?case using Suc by (simp add: of_char_of)
qed simp

lemma le_dec_bound: "le_dec cs < 256 ^ length cs"
proof (induction cs)
  case (Cons c cs)
  have "le_dec (c # cs) < 256 * Suc (le_dec cs)" by simp
  also have "\<dots> \<le> 256 * 256 ^ length cs" using Cons by (intro mult_le_mono2) simp
  finally show ?case by simp
qed simp

lemma le_enc_dec: "le_enc (length cs) (le_dec cs) = cs"
proof (induction cs)
  case (Cons c cs)
  have lt: "of_char c < (256 :: nat)" by (rule nat_of_char_less_256)
  then have "char_of (of_char c + 256 * le_dec cs :: nat) = c"
    by (simp add: char_of_eq_iff take_bit_eq_mod)
  with lt Cons show ?case by simp
qed simp

end
