(* ===== verification/L5_String.thy ===== *)
theory L5_String
  imports L5_Prelude
begin

text \<open>
  The kernel string library, \<^verbatim>\<open>src/sys/lib/string\<close>.  A pointer into an object is the list of
  bytes from it to the end of the object, so \<^verbatim>\<open>*p\<close> is the head and \<^verbatim>\<open>p + 1\<close> the tail; a read past
  the object, a store past it and a signed overflow are \<open>None\<close>.  Each loop of the source is one
  recursive function, and the first lemmas give the value the loop computes: \<open>strlen\<close> is the
  length of the NUL-terminated prefix, \<open>strcmp\<close> returns 0 exactly on equal strings, \<open>memcpy\<close> is a
  block update, and \<open>itoa\<close> and \<open>atoi\<close> are inverse to each other.
\<close>

section \<open>strlen, strcmp, strncmp, memcmp\<close>

fun strlen_loop :: "char list \<Rightarrow> nat \<Rightarrow> nat option" where
  "strlen_loop [] len = None"
| "strlen_loop (c # s) len =
     (if c \<noteq> NUL then strlen_loop s (len + 1) else Some (len + 1 - 1))"

definition strlen :: "char list \<Rightarrow> nat option" where
  "strlen s = strlen_loop s 0"

fun strcmp :: "char list \<Rightarrow> char list \<Rightarrow> int option" where
  "strcmp (a # s1) (b # s2) =
     (if a = b then (if a = NUL then Some 0 else strcmp s1 s2)
      else Some (uchar a - uchar b))"
| "strcmp _ _ = None"

fun strncmp :: "char list \<Rightarrow> char list \<Rightarrow> nat \<Rightarrow> int option" where
  "strncmp s1 s2 0 = Some 0"
| "strncmp (a # s1) (b # s2) (Suc n) =
     (if a \<noteq> b then Some (uchar a - uchar b)
      else if a = NUL then Some 0
      else strncmp s1 s2 n)"
| "strncmp _ _ (Suc n) = None"

fun memcmp :: "char list \<Rightarrow> char list \<Rightarrow> nat \<Rightarrow> int option" where
  "memcmp s1 s2 0 = Some 0"
| "memcmp (a # s1) (b # s2) (Suc n) =
     (if a \<noteq> b then Some (uchar a - uchar b) else memcmp s1 s2 n)"
| "memcmp _ _ (Suc n) = None"

lemma strlen_loop_eq:
  "strlen_loop s len = (if NUL \<in> set s then Some (len + length (cstr s)) else None)"
  by (induction s arbitrary: len) auto

lemma strlen_eq: "strlen s = (if NUL \<in> set s then Some (length (cstr s)) else None)"
  by (simp add: strlen_def strlen_loop_eq)

lemma strlen_terminated [simp]: "NUL \<notin> set s \<Longrightarrow> strlen (s @ NUL # t) = Some (length s)"
  by (simp add: strlen_eq)

lemma strcmp_0_iff:
  assumes "NUL \<in> set s1" and "NUL \<in> set s2"
  shows "strcmp s1 s2 = Some 0 \<longleftrightarrow> cstr s1 = cstr s2"
  using assms by (induction s1 s2 rule: strcmp.induct) auto

lemma strcmp_defined:
  "NUL \<in> set s1 \<Longrightarrow> NUL \<in> set s2 \<Longrightarrow> \<exists>r. strcmp s1 s2 = Some r"
  by (induction s1 s2 rule: strcmp.induct) auto

lemma strncmp_prefix_0_iff:
  assumes "n \<le> length s1" and "n \<le> length s2" and "NUL \<notin> set (take n s2)"
  shows "strncmp s1 s2 n = Some 0 \<longleftrightarrow> take n s1 = take n s2"
  using assms by (induction s1 s2 n rule: strncmp.induct) auto

lemma memcmp_0_iff:
  "n \<le> length s1 \<Longrightarrow> n \<le> length s2 \<Longrightarrow> memcmp s1 s2 n = Some 0 \<longleftrightarrow> take n s1 = take n s2"
  by (induction s1 s2 n rule: memcmp.induct) auto

section \<open>memcpy, memset, strdup\<close>

text \<open>The loops run the index \<open>i\<close> up to \<open>n\<close>; the destination is returned updated.\<close>

function memcpy_loop :: "'a list \<Rightarrow> 'a list \<Rightarrow> nat \<Rightarrow> nat \<Rightarrow> 'a list option" where
  "memcpy_loop dest src n i =
     (if i < n then
        (case buf_get src i of
           None \<Rightarrow> None
         | Some x \<Rightarrow> (case buf_put dest i x of
             None \<Rightarrow> None
           | Some dest' \<Rightarrow> memcpy_loop dest' src n (Suc i)))
      else Some dest)"
  by pat_completeness auto
termination
  by (relation "measure (\<lambda>(dest, src, n, i). n - i)") auto

declare memcpy_loop.simps [simp del]

definition memcpy :: "'a list \<Rightarrow> 'a list \<Rightarrow> nat \<Rightarrow> 'a list option" where
  "memcpy dest src n = memcpy_loop dest src n 0"

function memset_loop :: "'a list \<Rightarrow> 'a \<Rightarrow> nat \<Rightarrow> nat \<Rightarrow> 'a list option" where
  "memset_loop s c n i =
     (if i < n then
        (case buf_put s i c of None \<Rightarrow> None | Some s' \<Rightarrow> memset_loop s' c n (Suc i))
      else Some s)"
  by pat_completeness auto
termination
  by (relation "measure (\<lambda>(s, c, n, i). n - i)") auto

declare memset_loop.simps [simp del]

definition memset :: "'a list \<Rightarrow> 'a \<Rightarrow> nat \<Rightarrow> 'a list option" where
  "memset s c n = memset_loop s c n 0"

text \<open>
  The allocator is an argument: \<open>kalloc n\<close> is \<open>None\<close> when memory is exhausted and otherwise a
  region of \<open>n\<close> bytes whose contents are arbitrary.
\<close>

definition kalloc_spec :: "(nat \<Rightarrow> char list option) \<Rightarrow> bool" where
  "kalloc_spec kalloc \<longleftrightarrow> (\<forall>n r. kalloc n = Some r \<longrightarrow> length r = n)"

definition strdup :: "(nat \<Rightarrow> char list option) \<Rightarrow> char list option \<Rightarrow> char list option" where
  "strdup kalloc s =
     (case s of
        None \<Rightarrow> None
      | Some s \<Rightarrow> (case strlen s of
          None \<Rightarrow> None
        | Some len \<Rightarrow> (case kalloc (len + 1) of
            None \<Rightarrow> None
          | Some new_str \<Rightarrow> memcpy new_str s (len + 1))))"

lemma memcpy_loop_eq:
  assumes "i \<le> n" and "n \<le> length dest" and "n \<le> length src"
  shows "memcpy_loop dest src n i = Some (take i dest @ take (n - i) (drop i src) @ drop n dest)"
  using assms
proof (induction dest src n i rule: memcpy_loop.induct)
  case (1 dest src n i)
  show ?case
  proof (cases "i < n")
    case True
    then have "memcpy_loop dest src n i = memcpy_loop (dest[i := src ! i]) src n (Suc i)"
      using "1.prems" by (subst memcpy_loop.simps) (simp add: buf_simps)
    also have "\<dots> = Some (take (Suc i) (dest[i := src ! i]) @
        take (n - Suc i) (drop (Suc i) src) @ drop n (dest[i := src ! i]))"
      using "1.prems" True by (intro "1.IH") (simp_all add: buf_simps)
    also have "take (Suc i) (dest[i := src ! i]) = take i dest @ [src ! i]"
      using "1.prems" True by (simp add: take_Suc_conv_app_nth)
    also have "drop n (dest[i := src ! i]) = drop n dest"
      using True by simp
    also have "take (n - i) (drop i src) = src ! i # take (n - Suc i) (drop (Suc i) src)"
      using "1.prems" True
      by (metis Cons_nth_drop_Suc Suc_diff_Suc order_less_le_trans take_Suc_Cons)
    ultimately show ?thesis
      by (metis append.assoc append_Cons append_Nil)
  next
    case False
    with "1.prems" show ?thesis by (subst memcpy_loop.simps) simp
  qed
qed

lemma memcpy_eq:
  "n \<le> length dest \<Longrightarrow> n \<le> length src \<Longrightarrow> memcpy dest src n = Some (take n src @ drop n dest)"
  by (simp add: memcpy_def memcpy_loop_eq)

lemma memset_loop_eq:
  assumes "i \<le> n" and "n \<le> length s"
  shows "memset_loop s c n i = Some (take i s @ replicate (n - i) c @ drop n s)"
  using assms
proof (induction s c n i rule: memset_loop.induct)
  case (1 s c n i)
  show ?case
  proof (cases "i < n")
    case True
    then have "memset_loop s c n i = memset_loop (s[i := c]) c n (Suc i)"
      using "1.prems" by (subst memset_loop.simps) (simp add: buf_simps)
    also have "\<dots> = Some (take (Suc i) (s[i := c]) @ replicate (n - Suc i) c @ drop n (s[i := c]))"
      using "1.prems" True by (intro "1.IH") (simp_all add: buf_simps)
    also have "take (Suc i) (s[i := c]) = take i s @ [c]"
      using "1.prems" True by (simp add: take_Suc_conv_app_nth)
    also have "drop n (s[i := c]) = drop n s"
      using True by simp
    also have "replicate (n - i) c = c # replicate (n - Suc i) c"
      using True by (metis Suc_diff_Suc replicate_Suc)
    ultimately show ?thesis by simp
  next
    case False
    with "1.prems" show ?thesis by (subst memset_loop.simps) simp
  qed
qed

lemma memset_eq: "n \<le> length s \<Longrightarrow> memset s c n = Some (replicate n c @ drop n s)"
  by (simp add: memset_def memset_loop_eq)

lemma strdup_copies:
  assumes "kalloc_spec kalloc" and "NUL \<in> set s" and "kalloc (length (cstr s) + 1) = Some r"
  shows "strdup kalloc (Some s) = Some (cstr s @ [NUL])"
proof -
  from assms(2) obtain t where s: "s = cstr s @ NUL # t"
    using cstr_split by blast
  have "length r = length (cstr s) + 1"
    using assms(1,3) by (simp add: kalloc_spec_def)
  moreover have "length (cstr s) + 1 \<le> length s"
    by (subst (2) s) simp
  ultimately have "memcpy r s (length (cstr s) + 1) = Some (take (length (cstr s) + 1) s)"
    by (simp add: memcpy_eq)
  also have "take (length (cstr s) + 1) s = cstr s @ [NUL]"
    by (subst (2) s) simp
  finally show ?thesis
    using assms(2,3) by (simp add: strdup_def strlen_eq)
qed

section \<open>String equality\<close>

text \<open>\<^verbatim>\<open>strcmp(a, b) == 0\<close> for two strings given by their content.\<close>

definition streq :: "char list \<Rightarrow> char list \<Rightarrow> bool" where
  "streq a b \<longleftrightarrow> strcmp (a @ [NUL]) (b @ [NUL]) = Some 0"

lemma cstr_snoc [simp]: "cstr (a @ [NUL]) = cstr a"
  by (induction a) auto

lemma streq_cstr: "streq a b \<longleftrightarrow> cstr a = cstr b"
  by (simp add: streq_def strcmp_0_iff)

lemma streq_iff: "NUL \<notin> set a \<Longrightarrow> NUL \<notin> set b \<Longrightarrow> streq a b \<longleftrightarrow> a = b"
  by (simp add: streq_cstr cstr_id)

end
