(* ===== verification/L5_Kalloc.thy ===== *)
theory L5_Kalloc
  imports L5_String
begin

text \<open>
  The kernel heap as its clients see it (\<^verbatim>\<open>os/os_kalloc.c\<close>) and the pointer box built on it
  (\<^verbatim>\<open>lib/ptrbox.c\<close>).  The TLSF allocator below \<^verbatim>\<open>kalloc\<close> decides whether a request can be served and
  at which address; both answers are fields of the heap (\<open>k_oom\<close> and \<open>k_addr\<close>, indexed by the
  number of the call), so every theorem holds for every behaviour of the allocator.  The heap
  keeps the allocations that are live, in order to state what is freed and what leaks.  Freeing an
  allocation that is not live leaves this list as it is; the assertions \<^verbatim>\<open>tlsf_free\<close> makes about such a
  call are in the theory of the allocator.
\<close>

section \<open>kalloc and kfree\<close>

text \<open>An allocation is named by the number of the call that made it.\<close>

record kheap =
  k_init :: bool
  k_oom :: "nat \<Rightarrow> bool"
  k_addr :: "nat \<Rightarrow> u64"
  k_cnt :: nat
  k_live :: "nat list"

definition kalloc :: "nat \<Rightarrow> kheap \<Rightarrow> nat option \<times> kheap" where
  "kalloc sz h =
     (if \<not> k_init h then (None, h)
      else
        (let n = k_cnt h; h = h\<lparr>k_cnt := n + 1\<rparr>
         in if sz = 0 \<or> k_oom h n then (None, h)
            else (Some n, h\<lparr>k_live := n # k_live h\<rparr>)))"

definition kfree :: "nat option \<Rightarrow> kheap \<Rightarrow> kheap" where
  "kfree p h = (case p of None \<Rightarrow> h | Some n \<Rightarrow> h\<lparr>k_live := remove1 n (k_live h)\<rparr>)"

text \<open>
  \<^verbatim>\<open>krealloc\<close> of a live allocation: on success the old allocation is replaced by a new one, on failure it is
  kept; a size of 0 frees it and returns NULL.  A size above \<open>KREALLOC_MAX\<close> is \<open>None\<close>: rounded up it reaches
  \<^verbatim>\<open>block_size_max\<close>, \<^verbatim>\<open>adjust_request_size\<close> turns it into 0, and \<^verbatim>\<open>tlsf_realloc\<close> trims the live block and
  returns it as if it had grown.
\<close>

abbreviation KREALLOC_MAX :: nat where "KREALLOC_MAX \<equiv> 4294967288"

definition krealloc :: "nat \<Rightarrow> nat \<Rightarrow> kheap \<Rightarrow> (nat option \<times> kheap) option" where
  "krealloc p sz h =
     (let n = k_cnt h; h' = h\<lparr>k_cnt := n + 1\<rparr>
      in if sz = 0 then Some (None, kfree (Some p) h')
         else if KREALLOC_MAX < sz then None
         else if k_oom h n then Some (None, h')
         else Some (Some n, h'\<lparr>k_live := n # remove1 p (k_live h)\<rparr>))"

definition heap_wf :: "kheap \<Rightarrow> bool" where
  "heap_wf h \<longleftrightarrow> distinct (k_live h) \<and> (\<forall>n \<in> set (k_live h). n < k_cnt h)"

lemma kalloc_wf: "heap_wf h \<Longrightarrow> kalloc sz h = (p, h') \<Longrightarrow> heap_wf h'"
  by (auto simp: heap_wf_def kalloc_def Let_def less_Suc_eq split: if_splits)

lemma kfree_wf: "heap_wf h \<Longrightarrow> heap_wf (kfree p h)"
  by (auto simp: heap_wf_def kfree_def split: option.splits dest: in_set_remove1 [THEN iffD1]
      set_remove1_subset [THEN subsetD])

lemma kalloc_Some:
  assumes "kalloc sz h = (Some n, h')"
  shows "n = k_cnt h" and "k_live h' = n # k_live h" and "0 < sz" and "k_cnt h' = k_cnt h + 1"
    and "k_init h' = k_init h" and "k_addr h' = k_addr h" and "k_oom h' = k_oom h"
  using assms by (auto simp: kalloc_def Let_def split: if_splits)

lemma kalloc_None: "kalloc sz h = (None, h') \<Longrightarrow> k_live h' = k_live h \<and> k_addr h' = k_addr h"
  by (auto simp: kalloc_def Let_def split: if_splits)

lemma kalloc_fresh:
  "heap_wf h \<Longrightarrow> kalloc sz h = (Some n, h') \<Longrightarrow> n \<notin> set (k_live h)"
  by (auto simp: heap_wf_def kalloc_def Let_def split: if_splits)

lemma kalloc_kfree:
  assumes "heap_wf h" and "kalloc sz h = (Some n, h')"
  shows "k_live (kfree (Some n) h') = k_live h"
  using kalloc_Some [OF assms(2)] by (simp add: kfree_def)

section \<open>Pointer boxes\<close>

text \<open>
  An entry carries the allocation of the entry itself, the data it owns (NULL after the data has
  been reaped) and its length; \<open>pb_id\<close> is the allocation of the box.
\<close>

record ptrbox_entry =
  pe_id :: nat
  pe_data :: "nat option"
  pe_len :: nat

record ptrbox =
  pb_id :: nat
  pb_count :: nat
  pb_q :: "ptrbox_entry list"

definition sizeof_ptrbox :: nat where "sizeof_ptrbox = 24"
definition sizeof_ptrbox_entry :: nat where "sizeof_ptrbox_entry = 32"

definition ptrbox_init :: "kheap \<Rightarrow> ptrbox res \<times> kheap" where
  "ptrbox_init h =
     (case kalloc sizeof_ptrbox h of
        (None, h) \<Rightarrow> (Inl ENOMEM, h)
      | (Some n, h) \<Rightarrow> (Inr \<lparr>pb_id = n, pb_count = 0, pb_q = []\<rparr>, h))"

definition ptrbox_alloc :: "nat \<Rightarrow> ptrbox option \<Rightarrow> kheap \<Rightarrow> nat option \<times> ptrbox option \<times> kheap" where
  "ptrbox_alloc len box h =
     (case box of
        None \<Rightarrow> (None, None, h)
      | Some b \<Rightarrow>
          if len = 0 then (None, box, h)
          else
            (case kalloc sizeof_ptrbox_entry h of
               (None, h) \<Rightarrow> (None, box, h)
             | (Some e, h) \<Rightarrow>
                 (case kalloc len h of
                    (None, h) \<Rightarrow> (None, box, kfree (Some e) h)
                  | (Some d, h) \<Rightarrow>
                      (Some d,
                       Some (b\<lparr>pb_q := pb_q b @ [\<lparr>pe_id = e, pe_data = Some d, pe_len = len\<rparr>]\<rparr>), h))))"

text \<open>
  \<^verbatim>\<open>ptrbox_terminate\<close> frees the data of every entry.  The loop variable is NULL when
  \<^verbatim>\<open>TAILQ_FOREACH\<close> ends, so the final \<^verbatim>\<open>kfree(ent)\<close> frees nothing.
\<close>

fun reap :: "ptrbox_entry list \<Rightarrow> kheap \<Rightarrow> ptrbox_entry list \<times> kheap" where
  "reap [] h = ([], h)"
| "reap (e # es) h =
     (let h = kfree (pe_data e) h; e = e\<lparr>pe_data := None\<rparr>; (es, h) = reap es h in (e # es, h))"

definition ptrbox_terminate :: "ptrbox option \<Rightarrow> kheap \<Rightarrow> unit res \<times> ptrbox option \<times> kheap" where
  "ptrbox_terminate box h =
     (case box of
        None \<Rightarrow> (Inl EINVAL, None, h)
      | Some b \<Rightarrow>
          (let (q, h) = reap (pb_q b) h; ent = None
           in (Inr (), Some (b\<lparr>pb_q := q\<rparr>), kfree ent h)))"

text \<open>
  A string on the heap is the address of its first byte and its content (without the NUL).
\<close>

type_synonym heapstr = "u64 \<times> char list"

definition ptrbox_strdup ::
  "char list option \<Rightarrow> ptrbox option \<Rightarrow> kheap \<Rightarrow> heapstr option \<times> ptrbox option \<times> kheap" where
  "ptrbox_strdup s box h =
     (case (s, box) of
        (Some s, Some b) \<Rightarrow>
          (let len = length s in
           case ptrbox_alloc (len + 1) box h of
             (None, box, h) \<Rightarrow> (None, box, h)
           | (Some d, box, h) \<Rightarrow> (Some (k_addr h d, s), box, h))
      | _ \<Rightarrow> (None, box, h))"

text \<open>The allocations a box owns.\<close>

definition box_data :: "ptrbox \<Rightarrow> nat list" where
  "box_data b = List.map_filter pe_data (pb_q b)"

definition box_wf :: "ptrbox \<Rightarrow> kheap \<Rightarrow> bool" where
  "box_wf b h \<longleftrightarrow> heap_wf h \<and> distinct (box_data b @ map pe_id (pb_q b) @ [pb_id b]) \<and>
     set (box_data b) \<union> pe_id ` set (pb_q b) \<union> {pb_id b} \<subseteq> set (k_live h)"

section \<open>What a box owns and what termination frees\<close>

lemma map_filter_snoc [simp]:
  "List.map_filter f (xs @ [x]) = List.map_filter f xs @ (case f x of None \<Rightarrow> [] | Some y \<Rightarrow> [y])"
  by (induction xs) (auto simp: List.map_filter_simps split: option.splits)

lemma box_data_append [simp]:
  "box_data (b\<lparr>pb_q := pb_q b @ [\<lparr>pe_id = e, pe_data = Some d, pe_len = len\<rparr>]\<rparr>) = box_data b @ [d]"
  by (simp add: box_data_def)

lemma ptrbox_init_wf:
  assumes "heap_wf h" and "ptrbox_init h = (Inr b, h')"
  shows "box_wf b h' \<and> box_data b = []"
proof -
  from assms(2) obtain n where n: "kalloc sizeof_ptrbox h = (Some n, h')"
    and b: "b = \<lparr>pb_id = n, pb_count = 0, pb_q = []\<rparr>"
    by (auto simp: ptrbox_init_def split: prod.splits option.splits)
  then show ?thesis
    using kalloc_wf [OF assms(1) n] kalloc_Some(2) [OF n]
    by (simp add: box_wf_def box_data_def List.map_filter_simps)
qed

lemma ptrbox_alloc_wf:
  assumes "box_wf b h" and "ptrbox_alloc len (Some b) h = (Some d, box', h')"
  shows "\<exists>b'. box' = Some b' \<and> box_wf b' h' \<and> box_data b' = box_data b @ [d] \<and>
    pb_id b' = pb_id b \<and> d \<notin> set (k_live h) \<and> set (k_live h) \<subseteq> set (k_live h')"
proof -
  from assms(2) obtain e h1 where e: "kalloc sizeof_ptrbox_entry h = (Some e, h1)"
    and d: "kalloc len h1 = (Some d, h')"
    and box': "box' = Some (b\<lparr>pb_q := pb_q b @ [\<lparr>pe_id = e, pe_data = Some d, pe_len = len\<rparr>]\<rparr>)"
    by (auto simp: ptrbox_alloc_def split: if_splits prod.splits option.splits)
  have wf: "heap_wf h" using assms(1) by (simp add: box_wf_def)
  note wf1 = kalloc_wf [OF wf e] and le = kalloc_Some [OF e] and ld = kalloc_Some [OF d]
  have fe: "e \<notin> set (k_live h)" by (rule kalloc_fresh [OF wf e])
  have fd: "d \<notin> set (k_live h1)" by (rule kalloc_fresh [OF wf1 d])
  show ?thesis
    using assms(1) kalloc_wf [OF wf1 d] fe fd le(2) ld(2) box'
    by (auto simp: box_wf_def)
qed

lemma reap_live:
  "heap_wf h \<Longrightarrow> reap es h = (es', h') \<Longrightarrow>
   heap_wf h' \<and> set (k_live h') = set (k_live h) - set (List.map_filter pe_data es) \<and>
   map pe_id es' = map pe_id es \<and> List.map_filter pe_data es' = []"
proof (induction es arbitrary: h es' h')
  case Nil
  then show ?case by (simp add: List.map_filter_simps)
next
  case (Cons e es)
  let ?h1 = "kfree (pe_data e) h"
  obtain es1 where r: "reap es ?h1 = (es1, h')" and es': "es' = e\<lparr>pe_data := None\<rparr> # es1"
    using Cons.prems(2) by (auto simp: Let_def split: prod.splits)
  have "set (k_live ?h1) = set (k_live h) - set_option (pe_data e)"
    using Cons.prems(1) by (cases "pe_data e") (auto simp: kfree_def heap_wf_def)
  then show ?case
    using Cons.IH [OF kfree_wf [OF Cons.prems(1)] r] es'
    by (cases "pe_data e") (auto simp: List.map_filter_simps)
qed

text \<open>
  C35 (what terminating a box frees).  Terminating a well-formed box returns 0 and frees exactly
  the data it handed out: nothing else leaves the heap, the entries and the box itself stay
  allocated, no entry points at the freed data any more, and terminating the box again frees nothing.
\<close>

theorem ptrbox_terminate_frees:
  assumes "box_wf b h"
  shows "\<exists>b' h'. ptrbox_terminate (Some b) h = (Inr (), Some b', h') \<and> box_data b' = [] \<and>
    set (k_live h') = set (k_live h) - set (box_data b) \<and>
    insert (pb_id b) (pe_id ` set (pb_q b)) \<subseteq> set (k_live h') \<and>
    set (k_live (snd (snd (ptrbox_terminate (Some b') h')))) = set (k_live h')"
proof -
  obtain q h' where r: "reap (pb_q b) h = (q, h')" by fastforce
  have wf: "heap_wf h" using assms by (simp add: box_wf_def)
  note live = reap_live [OF wf r]
  obtain q2 h2 where r2: "reap q h' = (q2, h2)" by fastforce
  from live have "heap_wf h'" by simp
  from reap_live [OF this r2] live have "set (k_live h2) = set (k_live h')" by simp
  with r r2 live assms show ?thesis
    by (auto simp: ptrbox_terminate_def kfree_def box_wf_def box_data_def)
qed

definition heap_demo :: kheap where
  "heap_demo = \<lparr>k_init = True, k_oom = (\<lambda>_. False), k_addr = (\<lambda>n. word_of_nat (4096 + 64 * n)),
     k_cnt = 3, k_live = [2, 1, 0]\<rparr>"

definition box_demo :: ptrbox where
  "box_demo = \<lparr>pb_id = 0, pb_count = 0, pb_q = [\<lparr>pe_id = 1, pe_data = Some 2, pe_len = 8\<rparr>]\<rparr>"

theorem ptrbox_terminate_frees_witness:
  "box_wf box_demo heap_demo \<and>
   (\<exists>b' h'. ptrbox_terminate (Some box_demo) heap_demo = (Inr (), Some b', h') \<and>
     set (k_live h') = set (k_live heap_demo) - set (box_data box_demo) \<and>
     insert (pb_id box_demo) (pe_id ` set (pb_q box_demo)) \<subseteq> set (k_live h') \<and>
     set (k_live (snd (snd (ptrbox_terminate (Some b') h')))) = set (k_live h'))"
proof -
  have wf: "box_wf box_demo heap_demo"
    by (auto simp: box_wf_def heap_wf_def box_data_def box_demo_def heap_demo_def List.map_filter_simps)
  then show ?thesis using ptrbox_terminate_frees [OF wf] by blast
qed

end
