(* ===== verification/L5_Number.thy ===== *)
theory L5_Number
  imports L5_String
begin

text \<open>
  Number conversion of the kernel string library: \<^verbatim>\<open>lib/string/atoi.c\<close> and \<^verbatim>\<open>lib/string/itoa.c\<close>.
  \<open>itoa\<close> writes digits in reverse into the caller's array and then reverses the array in place;
  the lemmas show that the result is the decimal (or hexadecimal) numeral, NUL-terminated, and
  that \<open>atoi\<close> reads it back.
\<close>

section \<open>atoi\<close>

definition is_digit :: "char \<Rightarrow> bool" where
  "is_digit c \<longleftrightarrow> schar (CHR ''0'') \<le> schar c \<and> schar c \<le> schar (CHR ''9'')"

fun skip_blanks :: "char list \<Rightarrow> char list option" where
  "skip_blanks [] = None"
| "skip_blanks (c # s) = (if c = CHR '' '' then skip_blanks s else Some (c # s))"

text \<open>An \<^verbatim>\<open>int\<close> that leaves its 32-bit range is undefined behaviour, modelled as \<open>None\<close>.\<close>

definition int32 :: "int \<Rightarrow> int option" where
  "int32 n = (if - (2 ^ 31) \<le> n \<and> n < 2 ^ 31 then Some n else None)"

fun atoi_digits :: "char list \<Rightarrow> int \<Rightarrow> int option" where
  "atoi_digits [] n = None"
| "atoi_digits (c # s) n =
     (if is_digit c then
        (case int32 (10 * n + (schar c - schar (CHR ''0''))) of
           None \<Rightarrow> None
         | Some n' \<Rightarrow> atoi_digits s n')
      else Some n)"

definition atoi :: "char list \<Rightarrow> int option" where
  "atoi s =
     (case skip_blanks s of
        None \<Rightarrow> None
      | Some s \<Rightarrow> (case s of
          [] \<Rightarrow> None
        | c # s' \<Rightarrow>
            (let sign = (if c = CHR ''-'' then - 1 else 1);
                 s2 = (if c = CHR ''+'' \<or> c = CHR ''-'' then s' else s)
             in case atoi_digits s2 0 of None \<Rightarrow> None | Some n \<Rightarrow> Some (sign * n))))"

section \<open>itoa\<close>

definition digit_char :: "nat \<Rightarrow> char" where
  "digit_char d = char_of (48 + d)"

function itoa10_digits :: "int \<Rightarrow> char list \<Rightarrow> nat \<Rightarrow> (char list \<times> nat) option" where
  "itoa10_digits value buf i =
     (if value > 0 then
        (case buf_put buf i (digit_char (nat (value mod 10))) of
           None \<Rightarrow> None
         | Some buf' \<Rightarrow> itoa10_digits (value div 10) buf' (i + 1))
      else Some (buf, i))"
  by pat_completeness auto
termination
  by (relation "measure (\<lambda>(value, buf, i). nat value)") auto

declare itoa10_digits.simps [simp del]

function itoa_rev :: "char list \<Rightarrow> nat \<Rightarrow> nat \<Rightarrow> char list option" where
  "itoa_rev buf j i =
     (if j < i then
        (case (buf_get buf j, buf_get buf i) of
           (Some a, Some b) \<Rightarrow> itoa_rev (buf[j := b, i := a]) (j + 1) (i - 1)
         | _ \<Rightarrow> None)
      else Some buf)"
  by pat_completeness auto
termination
  by (relation "measure (\<lambda>(buf, j, i). i)") auto

declare itoa_rev.simps [simp del]

definition itoa_base10_convert :: "int \<Rightarrow> char list \<Rightarrow> char list option" where
  "itoa_base10_convert value buf =
     (if value = 0 then
        (case buf_put buf 0 (CHR ''0'') of None \<Rightarrow> None | Some buf \<Rightarrow> buf_put buf 1 NUL)
      else if value = - (2 ^ 63) then None
      else
        (let is_negative = value < 0;
             value = (if value < 0 then value * - 1 else value)
         in case itoa10_digits value buf 0 of
              None \<Rightarrow> None
            | Some (buf, i) \<Rightarrow>
                (case (if is_negative
                       then map_option (\<lambda>b. (b, i + 1)) (buf_put buf i (CHR ''-''))
                       else Some (buf, i)) of
                   None \<Rightarrow> None
                 | Some (buf, i) \<Rightarrow>
                     (case buf_put buf i NUL of
                        None \<Rightarrow> None
                      | Some buf \<Rightarrow> itoa_rev buf 0 (i - 1)))))"

definition ascii_nums :: string where
  "ascii_nums = ''0123456789ABCDEF''"

function itoa16_digits :: "nat \<Rightarrow> char list \<Rightarrow> nat \<Rightarrow> (char list \<times> nat) option" where
  "itoa16_digits n buf i =
     (if n > 0 then
        (case buf_put buf i (ascii_nums ! (n mod 16)) of
           None \<Rightarrow> None
         | Some buf' \<Rightarrow> itoa16_digits (n div 16) buf' (i + 1))
      else Some (buf, i))"
  by pat_completeness auto
termination
  by (relation "measure (\<lambda>(n, buf, i). n)") auto

declare itoa16_digits.simps [simp del]

definition itoa_convert_base16 :: "nat \<Rightarrow> char list \<Rightarrow> char list option" where
  "itoa_convert_base16 n buf =
     (if n = 0 then memcpy buf (''0x00'' @ [NUL]) 5
      else
        (let pad = n < 0x10 in
         case itoa16_digits n buf 0 of
           None \<Rightarrow> None
         | Some (buf, i) \<Rightarrow>
             (case (if pad then map_option (\<lambda>b. (b, i + 1)) (buf_put buf i (CHR ''0''))
                    else Some (buf, i)) of
                None \<Rightarrow> None
              | Some (buf, i) \<Rightarrow>
                  (case buf_put buf i (CHR ''x'') of None \<Rightarrow> None | Some buf \<Rightarrow>
                  (case buf_put buf (i + 1) (CHR ''0'') of None \<Rightarrow> None | Some buf \<Rightarrow>
                  (case buf_put buf (i + 2) NUL of None \<Rightarrow> None | Some buf \<Rightarrow>
                     itoa_rev buf 0 (i + 1)))))))"

text \<open>
  \<^verbatim>\<open>itoa\<close> dispatches on the base; for base 16 the signed argument is converted to 64-bit
  unsigned.  The outer option is undefined behaviour, the inner one the returned
  pointer (NULL for another base).
\<close>

definition itoa :: "int \<Rightarrow> char list \<Rightarrow> nat \<Rightarrow> char list option option" where
  "itoa value buf base =
     (if base = 10 then map_option Some (itoa_base10_convert value buf)
      else if base = 16 then map_option Some (itoa_convert_base16 (nat (value mod 2 ^ 64)) buf)
      else Some None)"

section \<open>Numerals\<close>

text \<open>
  The reference: \<open>rdigits b f n\<close> are the base-\<open>b\<close> digits of \<open>n\<close>, least significant first, and
  \<open>numeral_str\<close> the numeral as it is written.
\<close>

fun rdigits :: "nat \<Rightarrow> (nat \<Rightarrow> char) \<Rightarrow> nat \<Rightarrow> char list" where
  "rdigits b f n = (if n = 0 \<or> b < 2 then [] else f (n mod b) # rdigits b f (n div b))"

declare rdigits.simps [simp del]

definition numeral_str :: "nat \<Rightarrow> (nat \<Rightarrow> char) \<Rightarrow> nat \<Rightarrow> char list" where
  "numeral_str b f n = (if n = 0 then [f 0] else rev (rdigits b f n))"

definition dec_int :: "int \<Rightarrow> char list" where
  "dec_int v = (if v < 0 then CHR ''-'' # numeral_str 10 digit_char (nat (- v))
                else numeral_str 10 digit_char (nat v))"

definition hex_nat :: "nat \<Rightarrow> char list" where
  "hex_nat n = ''0x'' @ (if n < 0x10 then ''0'' else []) @ numeral_str 16 ((!) ascii_nums) n"

lemma rdigits_0 [simp]: "rdigits b f 0 = []"
  by (simp add: rdigits.simps)

lemma rdigits_step: "0 < n \<Longrightarrow> 2 \<le> b \<Longrightarrow> rdigits b f n = f (n mod b) # rdigits b f (n div b)"
  by (subst rdigits.simps) simp

lemma rdigits_length:
  assumes "2 \<le> b"
  shows "n < b ^ k \<Longrightarrow> length (rdigits b f n) \<le> k"
proof (induction k arbitrary: n)
  case 0
  then show ?case by simp
next
  case (Suc k)
  show ?case
  proof (cases "n = 0")
    case False
    have "n div b < b ^ k"
      using Suc.prems by (simp add: less_mult_imp_div_less mult.commute)
    then have "length (rdigits b f (n div b)) \<le> k" by (rule Suc.IH)
    with False assms show ?thesis by (simp add: rdigits_step)
  qed simp
qed

lemma rdigits_set: "2 \<le> b \<Longrightarrow> c \<in> set (rdigits b f n) \<Longrightarrow> \<exists>d<b. c = f d"
proof (induction b f n rule: rdigits.induct)
  case (1 b f n)
  show ?case
  proof (cases "n = 0")
    case False
    with "1.prems" have "c = f (n mod b) \<or> c \<in> set (rdigits b f (n div b))"
      by (simp add: rdigits_step)
    then show ?thesis
    proof
      assume "c = f (n mod b)"
      moreover have "n mod b < b" using "1.prems" by simp
      ultimately show ?thesis by blast
    next
      assume "c \<in> set (rdigits b f (n div b))"
      then show ?thesis using "1.IH" "1.prems"(1) False by simp
    qed
  qed (use "1.prems" in simp)
qed

lemma itoa10_digits_eq:
  assumes "i + length (rdigits 10 digit_char n) \<le> length buf"
  shows "itoa10_digits (int n) buf i =
    Some (take i buf @ rdigits 10 digit_char n @ drop (i + length (rdigits 10 digit_char n)) buf,
          i + length (rdigits 10 digit_char n))"
  using assms
proof (induction n arbitrary: buf i rule: less_induct)
  case (less n)
  show ?case
  proof (cases "n = 0")
    case True
    then show ?thesis by (subst itoa10_digits.simps) simp
  next
    case False
    let ?c = "digit_char (n mod 10)" and ?ds = "rdigits 10 digit_char (n div 10)"
    have rd: "rdigits 10 digit_char n = ?c # ?ds"
      using False by (simp add: rdigits_step)
    have mn: "nat (int n mod 10) = n mod 10"
      by (metis nat_int of_nat_mod of_nat_numeral)
    have dn: "int n div 10 = int (n div 10)"
      by (simp add: zdiv_int)
    have i: "i < length buf" using less.prems rd by simp
    have "itoa10_digits (int n) buf i = itoa10_digits (int (n div 10)) (buf[i := ?c]) (i + 1)"
      using False i by (subst itoa10_digits.simps) (simp add: buf_simps mn dn)
    also have "\<dots> = Some (take (i + 1) (buf[i := ?c]) @ ?ds @
        drop (i + 1 + length ?ds) (buf[i := ?c]), i + 1 + length ?ds)"
      using False less.prems rd by (intro less.IH) simp_all
    finally show ?thesis
      using i by (simp add: rd take_Suc_conv_app_nth)
  qed
qed

lemma itoa16_digits_eq:
  assumes "i + length (rdigits 16 ((!) ascii_nums) n) \<le> length buf"
  shows "itoa16_digits n buf i =
    Some (take i buf @ rdigits 16 ((!) ascii_nums) n @
            drop (i + length (rdigits 16 ((!) ascii_nums) n)) buf,
          i + length (rdigits 16 ((!) ascii_nums) n))"
  using assms
proof (induction n arbitrary: buf i rule: less_induct)
  case (less n)
  show ?case
  proof (cases "n = 0")
    case True
    then show ?thesis by (subst itoa16_digits.simps) simp
  next
    case False
    let ?c = "ascii_nums ! (n mod 16)" and ?ds = "rdigits 16 ((!) ascii_nums) (n div 16)"
    have rd: "rdigits 16 ((!) ascii_nums) n = ?c # ?ds"
      using False by (simp add: rdigits_step)
    have i: "i < length buf" using less.prems rd by simp
    have "itoa16_digits n buf i = itoa16_digits (n div 16) (buf[i := ?c]) (i + 1)"
      using False i by (subst itoa16_digits.simps) (simp add: buf_simps)
    also have "\<dots> = Some (take (i + 1) (buf[i := ?c]) @ ?ds @
        drop (i + 1 + length ?ds) (buf[i := ?c]), i + 1 + length ?ds)"
      using False less.prems rd by (intro less.IH) simp_all
    finally show ?thesis
      using i by (simp add: rd take_Suc_conv_app_nth)
  qed
qed

section \<open>The in-place reversal\<close>

lemma itoa_rev_eq:
  "i < length buf \<Longrightarrow> j \<le> i + 1 \<Longrightarrow>
   itoa_rev buf j i = Some (take j buf @ rev (take (i + 1 - j) (drop j buf)) @ drop (i + 1) buf)"
proof (induction buf j i rule: itoa_rev.induct)
  case (1 buf j i)
  show ?case
  proof (cases "j < i")
    case False
    then have "i + 1 - j = 0 \<or> (j = i \<and> i + 1 - j = 1)"
      using "1.prems" by linarith
    moreover have "j = i \<Longrightarrow> take 1 (drop j buf) = [buf ! j]"
      using "1.prems" by (simp add: take_Suc_conv_app_nth)
    ultimately show ?thesis
      using False "1.prems"
      by (subst itoa_rev.simps) (auto simp: take_Suc_conv_app_nth [symmetric] Cons_nth_drop_Suc)
  next
    case True
    let ?buf = "buf[j := buf ! i, i := buf ! j]"
    have step: "itoa_rev buf j i = itoa_rev ?buf (j + 1) (i - 1)"
      using True "1.prems" by (subst itoa_rev.simps) (simp add: buf_simps)
    have "itoa_rev ?buf (j + 1) (i - 1) = Some (take (j + 1) ?buf @
        rev (take (i - 1 + 1 - (j + 1)) (drop (j + 1) ?buf)) @ drop (i - 1 + 1) ?buf)"
      using True "1.prems" by (intro "1.IH" [OF True refl]) (auto simp: buf_simps)
    then have eq: "itoa_rev buf j i = Some (take (j + 1) ?buf @
        rev (take (i - (j + 1)) (drop (j + 1) ?buf)) @ drop i ?buf)"
      using step True by simp
    have t: "take (j + 1) ?buf = take j buf @ [buf ! i]"
      using True "1.prems" by (simp add: take_Suc_conv_app_nth)
    have d: "drop i ?buf = buf ! j # drop (i + 1) buf"
      using True "1.prems" by (simp add: drop_update_swap Cons_nth_drop_Suc [symmetric])
    have m: "take (i - (j + 1)) (drop (j + 1) ?buf) = take (i - (j + 1)) (drop (j + 1) buf)"
      using True by (simp add: drop_update_swap)
    have "take (i + 1 - j) (drop j buf) = buf ! j # take (i - (j + 1)) (drop (j + 1) buf) @ [buf ! i]"
    proof (rule nth_equalityI)
      show "length (take (i + 1 - j) (drop j buf)) =
        length (buf ! j # take (i - (j + 1)) (drop (j + 1) buf) @ [buf ! i])"
        using True "1.prems" by auto
    next
      fix k assume "k < length (take (i + 1 - j) (drop j buf))"
      then have k: "k < i + 1 - j" by simp
      show "take (i + 1 - j) (drop j buf) ! k =
        (buf ! j # take (i - (j + 1)) (drop (j + 1) buf) @ [buf ! i]) ! k"
        using k True "1.prems"
        by (cases k) (auto simp: nth_append min_def intro: arg_cong [of _ _ "\<lambda>x. buf ! x"])
    qed
    then show ?thesis
      unfolding eq t d m by simp
  qed
qed

lemma itoa_rev_prefix:
  assumes "xs \<noteq> []"
  shows "itoa_rev (xs @ ys) 0 (length xs - 1) = Some (rev xs @ ys)"
proof -
  have "length xs - 1 + 1 = length xs" using assms by (cases xs) auto
  moreover have "length xs - 1 < length (xs @ ys)" using assms by (cases xs) auto
  ultimately show ?thesis by (simp add: itoa_rev_eq)
qed

section \<open>itoa writes the numeral\<close>

lemma rdigits_ne: "0 < n \<Longrightarrow> 2 \<le> b \<Longrightarrow> rdigits b f n \<noteq> []"
  by (simp add: rdigits_step)

lemma itoa_base10_convert_eq:
  assumes "- (2 ^ 63) < v" and "length (dec_int v) < length buf"
  shows "itoa_base10_convert v buf = Some (dec_int v @ NUL # drop (length (dec_int v) + 1) buf)"
proof (cases "v = 0")
  case True
  with assms(2) have len: "1 < length buf"
    by (simp add: dec_int_def numeral_str_def)
  then obtain a b t where "buf = a # b # t"
    by (cases buf; cases "tl buf") auto
  with True show ?thesis
    by (simp add: itoa_base10_convert_def dec_int_def numeral_str_def buf_put_def digit_char_def
      char_of_def bit_simps)
next
  case False
  let ?n = "nat \<bar>v\<bar>" and ?ds = "rdigits 10 digit_char (nat \<bar>v\<bar>)"
  let ?neg = "if v < 0 then [CHR ''-''] else []"
  have n: "0 < ?n" using False by simp
  have dec: "dec_int v = rev (?ds @ ?neg)"
    using False by (simp add: dec_int_def numeral_str_def)
  have len: "length ?ds + length ?neg < length buf"
    using assms(2) dec by simp
  have v: "(if v < 0 then v * - 1 else v) = int ?n" by simp
  have dig: "itoa10_digits (int ?n) buf 0 = Some (?ds @ drop (length ?ds) buf, length ?ds)"
    using len by (subst itoa10_digits_eq) auto
  obtain c rest where c: "drop (length ?ds) buf = c # rest"
    using len by (cases "drop (length ?ds) buf") auto
  show ?thesis
  proof (cases "v < 0")
    case True
    obtain d rest' where d: "rest = d # rest'"
      using len c True by (cases rest) (auto dest: arg_cong [of _ _ length])
    have r: "drop (length ?ds + 2) buf = rest'"
      using c d by (metis add.commute drop_drop drop_Suc_Cons drop0 numeral_2_eq_2)
    have "itoa_base10_convert v buf = itoa_rev ((?ds @ [CHR ''-'']) @ NUL # rest') 0
        (length (?ds @ [CHR ''-'']) - 1)"
      using True assms(1) v dig c d
      by (simp add: itoa_base10_convert_def buf_put_def list_update_append)
    also have "\<dots> = Some (rev (?ds @ [CHR ''-'']) @ NUL # rest')"
      by (rule itoa_rev_prefix) simp
    finally show ?thesis using True dec r by simp
  next
    case nonneg: False
    have r: "drop (length ?ds + 1) buf = rest"
      using c by (metis Suc_eq_plus1 drop_Suc drop_drop list.sel(3) plus_1_eq_Suc tl_drop)
    have "itoa_base10_convert v buf = itoa_rev (?ds @ NUL # rest) 0 (length ?ds - 1)"
      using nonneg False assms(1) v dig c
      by (simp add: itoa_base10_convert_def buf_put_def list_update_append)
    also have "\<dots> = Some (rev ?ds @ NUL # rest)"
      using n by (intro itoa_rev_prefix rdigits_ne) simp_all
    finally show ?thesis using nonneg dec r by simp
  qed
qed

lemma itoa_convert_base16_eq:
  assumes "length (hex_nat n) < length buf"
  shows "itoa_convert_base16 n buf = Some (hex_nat n @ NUL # drop (length (hex_nat n) + 1) buf)"
proof (cases "n = 0")
  case True
  then have hex: "hex_nat n = ''0x00''"
    by (simp add: hex_nat_def numeral_str_def ascii_nums_def)
  with True assms show ?thesis
    by (simp add: itoa_convert_base16_def memcpy_eq numeral_eq_Suc)
next
  case False
  let ?ds = "rdigits 16 ((!) ascii_nums) n"
  let ?xs = "?ds @ (if n < 16 then ''0'' else []) @ ''x0''"
  have hex: "hex_nat n = rev ?xs"
    using False by (simp add: hex_nat_def numeral_str_def)
  have len: "length ?xs < length buf" using assms hex by simp
  have dig: "itoa16_digits n buf 0 = Some (?ds @ drop (length ?ds) buf, length ?ds)"
    using len by (subst itoa16_digits_eq) auto
  obtain zs rest where zs: "drop (length ?ds) buf = zs @ rest"
      and lz: "length zs = length ?xs - length ?ds + 1"
  proof
    show "drop (length ?ds) buf = take (length ?xs - length ?ds + 1) (drop (length ?ds) buf)
        @ drop (length ?xs - length ?ds + 1) (drop (length ?ds) buf)"
      by (rule append_take_drop_id [symmetric])
    show "length (take (length ?xs - length ?ds + 1) (drop (length ?ds) buf))
        = length ?xs - length ?ds + 1" using len by simp
  qed
  have rest: "rest = drop (length ?xs + 1) buf"
  proof -
    have "drop (length zs) (drop (length ?ds) buf) = rest" using zs by simp
    then show ?thesis using lz by (simp add: add.commute)
  qed
  have "itoa_convert_base16 n buf = itoa_rev (?xs @ NUL # rest) 0 (length ?xs - 1)"
  proof (cases "n < 16")
    case True
    with lz obtain a b c d where "zs = [a, b, c, d]"
      by (auto simp: length_Suc_conv numeral_eq_Suc)
    with True False dig zs show ?thesis
      by (simp add: itoa_convert_base16_def buf_put_def list_update_append Let_def)
  next
    case big: False
    with lz obtain a b c where "zs = [a, b, c]"
      by (auto simp: length_Suc_conv numeral_eq_Suc)
    with big False dig zs show ?thesis
      by (simp add: itoa_convert_base16_def buf_put_def list_update_append Let_def)
  qed
  also have "\<dots> = Some (rev ?xs @ NUL # rest)"
    by (rule itoa_rev_prefix) simp
  finally show ?thesis using hex rest by simp
qed

section \<open>atoi reads the numeral back\<close>

lemma digit_char_props:
  assumes "d < 10"
  shows "is_digit (digit_char d)" "schar (digit_char d) - schar (CHR ''0'') = int d"
    "digit_char d \<noteq> CHR '' ''" "digit_char d \<noteq> CHR ''-''" "digit_char d \<noteq> CHR ''+''"
    "digit_char d \<noteq> NUL"
proof -
  have oc: "of_char (digit_char d) = 48 + d"
    using assms by (simp add: digit_char_def)
  then show "is_digit (digit_char d)" "schar (digit_char d) - schar (CHR ''0'') = int d"
    using assms by (simp_all add: is_digit_def schar_def uchar_def)
  show "digit_char d \<noteq> CHR '' ''" "digit_char d \<noteq> CHR ''-''" "digit_char d \<noteq> CHR ''+''"
    "digit_char d \<noteq> NUL"
    using oc by (auto dest!: arg_cong [of _ _ "of_char :: char \<Rightarrow> nat"])
qed

text \<open>The value of a digit string, most significant digit first.\<close>

lemma atoi_digits_numeral:
  "n < 2 ^ 31 \<Longrightarrow> atoi_digits (rev (rdigits 10 digit_char n) @ s) 0 = atoi_digits s (int n)"
proof (induction n arbitrary: s rule: less_induct)
  case (less n)
  show ?case
  proof (cases "n = 0")
    case False
    let ?d = "n mod 10"
    have "rev (rdigits 10 digit_char n) @ s = rev (rdigits 10 digit_char (n div 10)) @ digit_char ?d # s"
      using False by (simp add: rdigits_step)
    then have "atoi_digits (rev (rdigits 10 digit_char n) @ s) 0 =
        atoi_digits (digit_char ?d # s) (int (n div 10))"
      using less False by simp
    also have "\<dots> = atoi_digits s (10 * int (n div 10) + int ?d)"
    proof -
      have "10 * int (n div 10) + int ?d = int n" by presburger
      then have "int32 (10 * int (n div 10) + int ?d) = Some (int n)"
        using less.prems by (simp add: int32_def)
      then show ?thesis
        using digit_char_props [of ?d] \<open>10 * int (n div 10) + int ?d = int n\<close> by simp
    qed
    also have "10 * int (n div 10) + int ?d = int n" by presburger
    finally show ?thesis .
  qed simp
qed

lemma numeral_str_10_hd:
  "\<exists>d ds. numeral_str 10 digit_char n = digit_char d # ds \<and> d < 10"
proof (cases "n = 0")
  case False
  then obtain c ds where c: "rev (rdigits 10 digit_char n) = c # ds"
    by (cases "rev (rdigits 10 digit_char n)") (auto simp: rdigits_step)
  then have "c \<in> set (rdigits 10 digit_char n)"
    by (metis list.set_intros(1) set_rev)
  then obtain d where "d < 10" "c = digit_char d"
    using rdigits_set [of 10 c digit_char n] by auto
  with c False show ?thesis by (auto simp: numeral_str_def)
qed (auto simp: numeral_str_def)

lemma numeral_str_10_NUL: "NUL \<notin> set (numeral_str 10 digit_char n)"
  using rdigits_set [of 10 NUL digit_char n] digit_char_props(6) [symmetric]
  by (auto simp: numeral_str_def)

lemma dec_int_NUL: "NUL \<notin> set (dec_int v)"
  using numeral_str_10_NUL by (simp add: dec_int_def)

lemma atoi_digits_dec:
  assumes "n < 2 ^ 31" and "\<not> is_digit c"
  shows "atoi_digits (numeral_str 10 digit_char n @ c # t) 0 = Some (int n)"
proof (cases "n = 0")
  case True
  then show ?thesis
    using assms digit_char_props [of 0] by (simp add: numeral_str_def int32_def)
next
  case False
  then show ?thesis
    using atoi_digits_numeral [OF assms(1), of "c # t"] assms(2) by (simp add: numeral_str_def)
qed

lemma atoi_dec_int:
  assumes "\<bar>v\<bar> < 2 ^ 31"
  shows "atoi (dec_int v @ NUL # t) = Some v"
proof -
  let ?n = "nat \<bar>v\<bar>"
  obtain d ds where d: "numeral_str 10 digit_char ?n = digit_char d # ds" "d < 10"
    using numeral_str_10_hd by blast
  have "\<not> is_digit NUL" by (simp add: is_digit_def schar_def uchar_def)
  then have "atoi_digits (digit_char d # ds @ NUL # t) 0 = Some (int ?n)"
    using atoi_digits_dec [of ?n NUL t] assms d by simp
  then show ?thesis
    using d digit_char_props [OF d(2)]
    by (cases "v < 0") (simp_all add: atoi_def dec_int_def)
qed

lemma dec_int_length:
  assumes "\<bar>v\<bar> < 10 ^ k" and "0 < k"
  shows "length (dec_int v) \<le> k + 1"
proof -
  have "nat \<bar>v\<bar> < 10 ^ k"
    using assms(1) by (simp add: nat_less_iff)
  then have "length (rdigits 10 digit_char (nat \<bar>v\<bar>)) \<le> k"
    by (intro rdigits_length) simp_all
  then show ?thesis
    using assms(2) by (auto simp: dec_int_def numeral_str_def)
qed

section \<open>Printing and parsing\<close>

text \<open>
  C33 (round trip).  \<^verbatim>\<open>atoi\<close> reads back every number \<^verbatim>\<open>itoa\<close> prints in base 10 into an array of at
  least 12 bytes, for every magnitude below \<open>2 ^ 31\<close>; neither leaves its arrays.
\<close>

theorem itoa_atoi:
  assumes "\<bar>v\<bar> < 2 ^ 31" and "12 \<le> length buf"
  shows "\<exists>s. itoa v buf 10 = Some (Some s) \<and> length s = length buf \<and> atoi s = Some v"
proof -
  have "length (dec_int v) \<le> 11" using assms(1) dec_int_length [of v 10] by simp
  then have "itoa v buf 10 = Some (Some (dec_int v @ NUL # drop (length (dec_int v) + 1) buf))"
    using assms by (simp add: itoa_def itoa_base10_convert_eq)
  then show ?thesis
    using atoi_dec_int [OF assms(1)] assms(2) \<open>length (dec_int v) \<le> 11\<close> by simp
qed

theorem itoa_atoi_witness:
  "\<bar>- 907 :: int\<bar> < 2 ^ 31 \<and> 12 \<le> length (replicate 16 NUL) \<and>
   (\<exists>s. itoa (- 907) (replicate 16 NUL) 10 = Some (Some s) \<and>
     length s = length (replicate 16 NUL) \<and> atoi s = Some (- 907))"
  using itoa_atoi [of "- 907" "replicate 16 NUL"] by simp

end
