(* ===== verification/L5_Printf.thy ===== *)
theory L5_Printf
  imports L5_Number
begin

text \<open>
  Formatted output, \<^verbatim>\<open>lib/string/vsnprintf.c\<close>.  The output array and its offset are the state, the
  variadic arguments a list; \<open>None\<close> is undefined behaviour (an argument of the wrong type, a format
  read past its terminator, a store outside the array).  The reference \<open>pf_text\<close> renders a format
  without any size limit, and the main lemma says that \<open>vsnprintf\<close> writes exactly its first
  \<open>size - 1\<close> characters and touches nothing beyond the given size.
\<close>

section \<open>The formatter\<close>

datatype va = VInt int | VU64 u64 | VStr "char list"

record pf =
  pf_s :: "char list"
  pf_off :: nat
  pf_pad :: nat
  pf_num :: "char list"

text \<open>\<^verbatim>\<open>size - 1\<close> is computed in \<^verbatim>\<open>size_t\<close>.\<close>

definition size_m1 :: "nat \<Rightarrow> nat" where
  "size_m1 sz = (if sz = 0 then 2 ^ 64 - 1 else sz - 1)"

definition printc :: "char list \<Rightarrow> nat \<Rightarrow> nat \<Rightarrow> char \<Rightarrow> (char list \<times> nat) option" where
  "printc buf sz off c =
     (if off < size_m1 sz then
        (case buf_put buf off c of
           None \<Rightarrow> None
         | Some buf \<Rightarrow> map_option (\<lambda>b. (b, off + 1)) (buf_put buf (off + 1) NUL))
      else map_option (\<lambda>b. (b, off)) (buf_put buf off NUL))"

fun printstr_loop :: "char list \<Rightarrow> nat \<Rightarrow> nat \<Rightarrow> char list \<Rightarrow> (char list \<times> nat) option" where
  "printstr_loop buf sz off [] = (if off < size_m1 sz then None else Some (buf, off))"
| "printstr_loop buf sz off (c # s) =
     (if off < size_m1 sz \<and> c \<noteq> NUL then
        (case buf_put buf off c of
           None \<Rightarrow> None
         | Some buf \<Rightarrow> printstr_loop buf sz (off + 1) s)
      else Some (buf, off))"

definition printstr :: "char list \<Rightarrow> nat \<Rightarrow> nat \<Rightarrow> char list \<Rightarrow> (char list \<times> nat) option" where
  "printstr buf sz off s =
     (case printstr_loop buf sz off s of
        None \<Rightarrow> None
      | Some (buf, off) \<Rightarrow> map_option (\<lambda>b. (b, off)) (buf_put buf off NUL))"

definition pf_printc :: "nat \<Rightarrow> char \<Rightarrow> pf \<Rightarrow> pf option" where
  "pf_printc sz c st =
     map_option (\<lambda>(b, off). st\<lparr>pf_s := b, pf_off := off\<rparr>) (printc (pf_s st) sz (pf_off st) c)"

definition pf_printstr :: "nat \<Rightarrow> char list \<Rightarrow> pf \<Rightarrow> pf option" where
  "pf_printstr sz s st =
     map_option (\<lambda>(b, off). st\<lparr>pf_s := b, pf_off := off\<rparr>) (printstr (pf_s st) sz (pf_off st) s)"

text \<open>The loop that prints \<open>k\<close> zeroes.\<close>

fun pf_zeroes :: "nat \<Rightarrow> nat \<Rightarrow> pf \<Rightarrow> pf option" where
  "pf_zeroes sz 0 st = Some st"
| "pf_zeroes sz (Suc k) st =
     (case pf_printc sz (CHR ''0'') st of None \<Rightarrow> None | Some st \<Rightarrow> pf_zeroes sz k st)"

text \<open>Copy the literal text up to the next \<^verbatim>\<open>%\<close> or the terminator.\<close>

fun lit_loop :: "nat \<Rightarrow> char list \<Rightarrow> pf \<Rightarrow> (pf \<times> char list) option" where
  "lit_loop sz [] st = None"
| "lit_loop sz (c # fmt) st =
     (if c \<noteq> NUL \<and> c \<noteq> CHR ''%'' then
        (case pf_printc sz c st of None \<Rightarrow> None | Some st \<Rightarrow> lit_loop sz fmt st)
      else Some (st, c # fmt))"

text \<open>The pad width of \<^verbatim>\<open>%0N\<close>, an 8-bit counter.\<close>

fun pad_digits :: "char list \<Rightarrow> nat \<Rightarrow> (nat \<times> char list) option" where
  "pad_digits [] pad = None"
| "pad_digits (c # fmt) pad =
     (if is_digit c then
        pad_digits fmt (nat ((int pad * 10 + (schar c - schar (CHR ''0''))) mod 256))
      else Some (pad, c # fmt))"

definition pad_parse :: "char list \<Rightarrow> nat \<Rightarrow> (nat \<times> char list) option" where
  "pad_parse fmt pad =
     (case fmt of
        [] \<Rightarrow> None
      | c # fmt' \<Rightarrow> if c = CHR ''0'' then pad_digits fmt' pad else Some (pad, fmt))"

definition conv :: "nat \<Rightarrow> char \<Rightarrow> va list \<Rightarrow> pf \<Rightarrow> (pf \<times> va list) option" where
  "conv sz c ap st =
     (if c = CHR ''c'' then
        (case ap of
           VInt n # ap \<Rightarrow> map_option (\<lambda>st. (st, ap)) (pf_printc sz (char_of (nat (n mod 256))) st)
         | _ \<Rightarrow> None)
      else if c = CHR ''%'' then map_option (\<lambda>st. (st, ap)) (pf_printc sz c st)
      else if c = CHR ''d'' then
        (case ap of
           VInt n # ap \<Rightarrow>
             (case itoa_base10_convert n (pf_num st) of
                None \<Rightarrow> None
              | Some num \<Rightarrow> (case strlen num of
                  None \<Rightarrow> None
                | Some num_len \<Rightarrow>
                    (case (if pf_pad st > 0
                           then map_option (\<lambda>st. st\<lparr>pf_pad := 0\<rparr>)
                                  (pf_zeroes sz (pf_pad st - num_len) (st\<lparr>pf_num := num\<rparr>))
                           else Some (st\<lparr>pf_num := num\<rparr>)) of
                       None \<Rightarrow> None
                     | Some st \<Rightarrow> map_option (\<lambda>st. (st, ap)) (pf_printstr sz num st))))
         | _ \<Rightarrow> None)
      else if c = CHR ''p'' then
        (case ap of
           VU64 w # ap \<Rightarrow>
             (case itoa_convert_base16 (unat w) (pf_num st) of
                None \<Rightarrow> None
              | Some num \<Rightarrow> (case strlen num of
                  None \<Rightarrow> None
                | Some tmp_len \<Rightarrow>
                    (case pf_printc sz (CHR ''0'') (st\<lparr>pf_num := num\<rparr>) of None \<Rightarrow> None | Some st \<Rightarrow>
                    (case pf_printc sz (CHR ''x'') st of None \<Rightarrow> None | Some st \<Rightarrow>
                    (case pf_zeroes sz (18 - tmp_len) st of None \<Rightarrow> None | Some st \<Rightarrow>
                       map_option (\<lambda>st. (st, ap)) (pf_printstr sz (drop 2 num) st))))))
         | _ \<Rightarrow> None)
      else if c = CHR ''x'' then
        (case ap of
           VU64 w # ap \<Rightarrow>
             (case itoa_convert_base16 (unat w) (pf_num st) of
                None \<Rightarrow> None
              | Some num \<Rightarrow>
                  map_option (\<lambda>st. (st, ap)) (pf_printstr sz (drop 2 num) (st\<lparr>pf_num := num\<rparr>)))
         | _ \<Rightarrow> None)
      else if c = CHR ''s'' then
        (case ap of
           VStr t # ap \<Rightarrow> map_option (\<lambda>st. (st, ap)) (pf_printstr sz t st)
         | _ \<Rightarrow> None)
      else Some (st, ap))"

lemma lit_loop_length: "lit_loop sz fmt st = Some (st', fmt') \<Longrightarrow> length fmt' \<le> length fmt"
  by (induction sz fmt st rule: lit_loop.induct) (fastforce split: if_splits option.splits)+

lemma pad_digits_length: "pad_digits fmt pad = Some (pad', fmt') \<Longrightarrow> length fmt' \<le> length fmt"
  by (induction fmt pad rule: pad_digits.induct) (fastforce split: if_splits)+

lemma pad_parse_length: "pad_parse fmt pad = Some (pad', fmt') \<Longrightarrow> length fmt' \<le> length fmt"
  by (auto simp: pad_parse_def dest: pad_digits_length split: list.splits if_splits)

function vsnprintf_loop :: "nat \<Rightarrow> char list \<Rightarrow> va list \<Rightarrow> pf \<Rightarrow> (int \<times> char list) option" where
  "vsnprintf_loop sz fmt ap st =
     (if pf_off st < size_m1 sz then
        (case lit_loop sz fmt st of
           None \<Rightarrow> None
         | Some (st, fmt) \<Rightarrow>
             (case fmt of
                [] \<Rightarrow> None
              | c # fmt \<Rightarrow>
                  if c = NUL \<or> pf_off st = size_m1 sz then Some (int (pf_off st), pf_s st)
                  else
                    (case pad_parse fmt (pf_pad st) of
                       None \<Rightarrow> None
                     | Some (pad, fmt) \<Rightarrow>
                         (case fmt of
                            [] \<Rightarrow> None
                          | c # fmt \<Rightarrow>
                              (case conv sz c ap (st\<lparr>pf_pad := pad\<rparr>) of
                                 None \<Rightarrow> None
                               | Some (st, ap) \<Rightarrow> vsnprintf_loop sz fmt ap st)))))
      else Some (0, pf_s st))"
  by pat_completeness auto
termination
  by (relation "measure (\<lambda>(sz, fmt, ap, st). length fmt)")
    (auto dest!: lit_loop_length pad_parse_length)

declare vsnprintf_loop.simps [simp del]

definition vsnprintf :: "char list \<Rightarrow> nat \<Rightarrow> char list \<Rightarrow> va list \<Rightarrow> (int \<times> char list) option" where
  "vsnprintf s sz fmt ap =
     vsnprintf_loop sz fmt ap
       \<lparr>pf_s = s, pf_off = 0, pf_pad = 0, pf_num = replicate 256 NUL\<rparr>"

definition snprintf :: "char list \<Rightarrow> nat \<Rightarrow> char list \<Rightarrow> va list \<Rightarrow> (int \<times> char list) option" where
  "snprintf s sz fmt ap = vsnprintf s sz fmt ap"

section \<open>Reference rendering\<close>

definition conv_text :: "char \<Rightarrow> va list \<Rightarrow> nat \<Rightarrow> (char list \<times> va list \<times> nat) option" where
  "conv_text c ap pad =
     (if c = CHR ''c'' then
        (case ap of VInt n # ap \<Rightarrow> Some ([char_of (nat (n mod 256))], ap, pad) | _ \<Rightarrow> None)
      else if c = CHR ''%'' then Some ([c], ap, pad)
      else if c = CHR ''d'' then
        (case ap of
           VInt n # ap \<Rightarrow>
             if \<bar>n\<bar> < 2 ^ 63
             then Some (replicate (pad - length (dec_int n)) (CHR ''0'') @ dec_int n, ap, 0) else None
         | _ \<Rightarrow> None)
      else if c = CHR ''p'' then
        (case ap of
           VU64 w # ap \<Rightarrow>
             Some (''0x'' @ replicate (18 - length (hex_nat (unat w))) (CHR ''0'') @
                   drop 2 (hex_nat (unat w)), ap, pad)
         | _ \<Rightarrow> None)
      else if c = CHR ''x'' then
        (case ap of VU64 w # ap \<Rightarrow> Some (drop 2 (hex_nat (unat w)), ap, pad) | _ \<Rightarrow> None)
      else if c = CHR ''s'' then
        (case ap of
           VStr t # ap \<Rightarrow> if NUL \<in> set t then Some (cstr t, ap, pad) else None
         | _ \<Rightarrow> None)
      else Some ([], ap, pad))"

definition lit_char :: "char \<Rightarrow> bool" where
  "lit_char c \<longleftrightarrow> c \<noteq> NUL \<and> c \<noteq> CHR ''%''"

lemma dropWhile_cons_length: "dropWhile P xs = y # ys \<Longrightarrow> length ys < length xs"
  using length_dropWhile_le [of P xs] by simp

function pf_text :: "char list \<Rightarrow> va list \<Rightarrow> nat \<Rightarrow> char list option" where
  "pf_text fmt ap pad =
     (case dropWhile lit_char fmt of
        [] \<Rightarrow> None
      | c # fmt' \<Rightarrow>
          if c = NUL then Some (takeWhile lit_char fmt)
          else
            (case pad_parse fmt' pad of
               None \<Rightarrow> None
             | Some (pad, fmt'') \<Rightarrow>
                 (case fmt'' of
                    [] \<Rightarrow> None
                  | c # fmt'' \<Rightarrow>
                      (case conv_text c ap pad of
                         None \<Rightarrow> None
                       | Some (t, ap, pad) \<Rightarrow>
                           map_option (\<lambda>r. takeWhile lit_char fmt @ t @ r) (pf_text fmt'' ap pad)))))"
  by pat_completeness auto
termination
  by (relation "measure (\<lambda>(fmt, ap, pad). length fmt)")
    (auto dest!: pad_parse_length dropWhile_cons_length)

declare pf_text.simps [simp del]

lemma pf_text_elim:
  assumes "pf_text fmt ap pad = Some rest"
  obtains (stop) fmt' where "dropWhile lit_char fmt = NUL # fmt'" and "rest = takeWhile lit_char fmt"
  | (conv) c fmt' pad' d fmt'' t ap' pad'' r where
      "dropWhile lit_char fmt = c # fmt'" and "c \<noteq> NUL"
      and "pad_parse fmt' pad = Some (pad', d # fmt'')"
      and "conv_text d ap pad' = Some (t, ap', pad'')"
      and "pf_text fmt'' ap' pad'' = Some r"
      and "rest = takeWhile lit_char fmt @ t @ r"
  using assms
  by (subst (asm) pf_text.simps) (auto split: list.splits if_splits option.splits)

section \<open>What has been written\<close>

text \<open>
  \<open>wrote sz s0 out x st\<close>: of the original array \<open>s0\<close>, the first \<open>sz - 1\<close> characters of \<open>out\<close> have
  been stored, \<open>x\<close> is the byte at the current offset, and everything behind it is as it was.
  \<open>emitted\<close> adds that this byte is the terminator once anything has been printed (an array of
  size 1 is never written, so its only byte is not terminated).
\<close>

definition wrote :: "nat \<Rightarrow> char list \<Rightarrow> char list \<Rightarrow> char \<Rightarrow> pf \<Rightarrow> bool" where
  "wrote sz s0 out x st \<longleftrightarrow>
     0 < sz \<and> sz \<le> length s0 \<and> length (pf_num st) = 256 \<and>
     pf_off st = min (sz - 1) (length out) \<and>
     pf_s st = take (sz - 1) out @ x # drop (pf_off st + 1) s0"

definition emitted :: "nat \<Rightarrow> char list \<Rightarrow> char list \<Rightarrow> pf \<Rightarrow> bool" where
  "emitted sz s0 out st \<longleftrightarrow> (\<exists>x. wrote sz s0 out x st \<and> (out \<noteq> [] \<and> 1 < sz \<longrightarrow> x = NUL))"

lemma emitted_init:
  assumes "0 < sz" and "sz \<le> length s" and "length (pf_num st) = 256" and "pf_s st = s" and "pf_off st = 0"
  shows "emitted sz s [] st"
  using assms by (cases s) (simp_all add: emitted_def wrote_def)

lemma emittedI [intro]: "wrote sz s0 out NUL st \<Longrightarrow> emitted sz s0 out st"
  by (auto simp: emitted_def)

lemma pf_upd_commute [simp]:
  fixes st :: pf
  shows "st\<lparr>pf_off := a, pf_s := b\<rparr> = st\<lparr>pf_s := b, pf_off := a\<rparr>"
  by (cases st) simp

lemma wrote_cong:
  "wrote sz s0 out x st \<Longrightarrow> pf_s st' = pf_s st \<Longrightarrow> pf_off st' = pf_off st \<Longrightarrow>
   length (pf_num st') = 256 \<Longrightarrow> wrote sz s0 out x st'"
  by (simp add: wrote_def)

lemma emitted_cong:
  "emitted sz s0 out st \<Longrightarrow> pf_s st' = pf_s st \<Longrightarrow> pf_off st' = pf_off st \<Longrightarrow>
   length (pf_num st') = 256 \<Longrightarrow> emitted sz s0 out st'"
  unfolding emitted_def using wrote_cong by blast

lemma wrote_sz: "wrote sz s0 out x st \<Longrightarrow> 0 < sz \<and> sz \<le> length s0 \<and> length (pf_num st) = 256"
  by (simp add: wrote_def)

lemma wrote_put:
  assumes "wrote sz s0 out x st" and "pf_off st < sz - 1"
  shows "buf_put (pf_s st) (pf_off st) c = Some (out @ c # drop (length out + 1) s0)"
    and "pf_off st = length out"
  using assms by (auto simp: wrote_def buf_put_def min_def list_update_append split: if_splits)

lemma wrote_full:
  assumes "wrote sz s0 out x st" and "\<not> pf_off st < sz - 1"
  shows "pf_off st = sz - 1"
    and "\<And>rest. take (sz - 1) (out @ rest) = take (sz - 1) out"
    and "wrote sz s0 (out @ rest) x st"
  using assms by (auto simp: wrote_def)

lemma emitted_more:
  assumes "emitted sz s0 out st" and "\<not> pf_off st < sz - 1"
  shows "emitted sz s0 (out @ rest) st"
proof -
  from assms(1) obtain x where w: "wrote sz s0 out x st" and x: "out \<noteq> [] \<and> 1 < sz \<longrightarrow> x = NUL"
    by (auto simp: emitted_def)
  have "1 < sz \<Longrightarrow> out \<noteq> []"
    using w assms(2) by (auto simp: wrote_def)
  then show ?thesis
    using wrote_full(3) [OF w assms(2), of rest] x by (auto simp: emitted_def)
qed

lemma wrote_terminate:
  assumes "wrote sz s0 out x st"
  shows "\<exists>b. buf_put (pf_s st) (pf_off st) NUL = Some b \<and> wrote sz s0 out NUL (st\<lparr>pf_s := b\<rparr>)"
  using assms by (auto simp: wrote_def buf_put_def min_def list_update_append split: if_splits)

lemma wrote_char:
  assumes "wrote sz s0 out x st" and "pf_off st < sz - 1"
  shows "\<exists>b y. buf_put (pf_s st) (pf_off st) c = Some b \<and>
    wrote sz s0 (out @ [c]) y (st\<lparr>pf_s := b, pf_off := pf_off st + 1\<rparr>)"
proof -
  note put = wrote_put [OF assms] and sz = wrote_sz [OF assms(1)]
  have "length out + 1 < length s0"
    using assms(2) sz put(2) by linarith
  then have "drop (length out + 1) s0 = s0 ! (length out + 1) # drop (length out + 2) s0"
    by (simp add: Cons_nth_drop_Suc)
  then have "wrote sz s0 (out @ [c]) (s0 ! (length out + 1))
      (st\<lparr>pf_s := out @ c # drop (length out + 1) s0, pf_off := pf_off st + 1\<rparr>)"
    using assms(2) sz put(2) by (simp add: wrote_def)
  then show ?thesis using put(1) [of c] by blast
qed

lemma pf_printc_emits:
  assumes "wrote sz s0 out x st"
  shows "\<exists>st'. pf_printc sz c st = Some st' \<and> wrote sz s0 (out @ [c]) NUL st' \<and>
    pf_pad st' = pf_pad st \<and> pf_num st' = pf_num st"
proof (cases "pf_off st < sz - 1")
  case True
  from wrote_char [OF assms True, of c] obtain b y where
    b: "buf_put (pf_s st) (pf_off st) c = Some b"
    and w: "wrote sz s0 (out @ [c]) y (st\<lparr>pf_s := b, pf_off := pf_off st + 1\<rparr>)" by blast
  from wrote_terminate [OF w] show ?thesis
    using True b wrote_sz [OF assms] by (auto simp: pf_printc_def printc_def size_m1_def)
next
  case False
  from wrote_terminate [OF wrote_full(3) [OF assms False, of "[c]"]] show ?thesis
    using False wrote_sz [OF assms] by (auto simp: pf_printc_def printc_def size_m1_def)
qed

lemma printstr_loop_emits:
  assumes "wrote sz s0 out x st" and "NUL \<in> set s"
  shows "\<exists>b off y. printstr_loop (pf_s st) sz (pf_off st) s = Some (b, off) \<and>
    wrote sz s0 (out @ cstr s) y (st\<lparr>pf_s := b, pf_off := off\<rparr>)"
  using assms
proof (induction s arbitrary: out x st)
  case Nil
  then show ?case by simp
next
  case (Cons c s)
  have szm: "size_m1 sz = sz - 1"
    using wrote_sz [OF Cons.prems(1)] by (simp add: size_m1_def)
  show ?case
  proof (cases "pf_off st < sz - 1 \<and> c \<noteq> NUL")
    case True
    then obtain b y where b: "buf_put (pf_s st) (pf_off st) c = Some b"
      and w: "wrote sz s0 (out @ [c]) y (st\<lparr>pf_s := b, pf_off := pf_off st + 1\<rparr>)"
      using wrote_char [OF Cons.prems(1)] by blast
    from True Cons.prems(2) have "NUL \<in> set s" by auto
    from Cons.IH [OF w this] True b show ?thesis by (simp add: szm)
  next
    case False
    have "wrote sz s0 (out @ cstr (c # s)) x (st\<lparr>pf_s := pf_s st, pf_off := pf_off st\<rparr>)"
      using False wrote_full(3) [OF Cons.prems(1), of "cstr (c # s)"] Cons.prems(1)
      by (cases "c = NUL") auto
    then show ?thesis using False by (auto simp: szm)
  qed
qed

lemma pf_printstr_emits:
  assumes "wrote sz s0 out x st" and "NUL \<in> set s"
  shows "\<exists>st'. pf_printstr sz s st = Some st' \<and> wrote sz s0 (out @ cstr s) NUL st' \<and>
    pf_pad st' = pf_pad st \<and> pf_num st' = pf_num st"
proof -
  from printstr_loop_emits [OF assms] obtain b off y where
    loop: "printstr_loop (pf_s st) sz (pf_off st) s = Some (b, off)"
    and w: "wrote sz s0 (out @ cstr s) y (st\<lparr>pf_s := b, pf_off := off\<rparr>)" by blast
  from wrote_terminate [OF w] loop show ?thesis
    by (auto simp: pf_printstr_def printstr_def)
qed

lemma pf_zeroes_emits:
  "wrote sz s0 out x st \<Longrightarrow>
   \<exists>st' y. pf_zeroes sz k st = Some st' \<and> wrote sz s0 (out @ replicate k (CHR ''0'')) y st' \<and>
     pf_pad st' = pf_pad st \<and> pf_num st' = pf_num st"
proof (induction k arbitrary: out x st)
  case 0
  then show ?case by auto
next
  case (Suc k)
  from pf_printc_emits [OF Suc.prems, of "CHR ''0''"] obtain st1 where
    st1: "pf_printc sz (CHR ''0'') st = Some st1" "wrote sz s0 (out @ ''0'') NUL st1"
      "pf_pad st1 = pf_pad st" "pf_num st1 = pf_num st" by auto
  from Suc.IH [OF st1(2)] st1 show ?case by (auto simp: replicate_app_Cons_same)
qed

section \<open>Conversions and the whole format\<close>

lemma rdigits_16_NUL: "NUL \<notin> set (rdigits 16 ((!) ascii_nums) n)"
proof
  assume "NUL \<in> set (rdigits 16 ((!) ascii_nums) n)"
  then obtain d where "d < 16" "NUL = ascii_nums ! d"
    using rdigits_set [of 16 NUL "(!) ascii_nums" n] by auto
  then have "NUL \<in> set ascii_nums"
    using nth_mem [of d ascii_nums] by (simp add: ascii_nums_def)
  then show False by (simp add: ascii_nums_def)
qed

lemma hex_nat_NUL: "NUL \<notin> set (hex_nat n)"
  using rdigits_16_NUL [of n] by (auto simp: hex_nat_def numeral_str_def ascii_nums_def)

lemma hex_nat_length:
  fixes w :: u64
  shows "length (hex_nat (unat w)) \<le> 18"
proof -
  have "unat w < 16 ^ 16" using unsigned_less [of w] by simp
  then have "length (rdigits 16 ((!) ascii_nums) (unat w)) \<le> 16"
    by (intro rdigits_length) simp_all
  moreover have "unat w < 16 ^ 1 \<Longrightarrow> length (rdigits 16 ((!) ascii_nums) (unat w)) \<le> 1"
    by (intro rdigits_length) simp_all
  ultimately show ?thesis by (auto simp: hex_nat_def numeral_str_def)
qed

lemma hex_nat_split: "\<exists>t. hex_nat n = CHR ''0'' # CHR ''x'' # t \<and> NUL \<notin> set t"
  using hex_nat_NUL [of n] by (auto simp: hex_nat_def)

lemma dec_int_length64: "\<bar>v\<bar> < 2 ^ 63 \<Longrightarrow> length (dec_int v) \<le> 20"
  using dec_int_length [of v 19] by simp

lemma itoa10_num:
  assumes "\<bar>n\<bar> < 2 ^ 63" and "length num = 256"
  shows "itoa_base10_convert n num = Some (dec_int n @ NUL # drop (length (dec_int n) + 1) num)"
  using assms dec_int_length64 [of n] by (intro itoa_base10_convert_eq) auto

lemma itoa16_num:
  fixes w :: u64
  assumes "length num = 256"
  shows "itoa_convert_base16 (unat w) num =
    Some (hex_nat (unat w) @ NUL # drop (length (hex_nat (unat w)) + 1) num)"
  using assms hex_nat_length [of w] by (intro itoa_convert_base16_eq) simp

lemma conv_d_emits:
  assumes "wrote sz s0 out x st" and "\<bar>n\<bar> < 2 ^ 63"
  shows "\<exists>st'. conv sz (CHR ''d'') (VInt n # ap) st = Some (st', ap) \<and>
    wrote sz s0 (out @ replicate (pf_pad st - length (dec_int n)) (CHR ''0'') @ dec_int n) NUL st' \<and>
    pf_pad st' = 0"
proof -
  let ?num = "dec_int n @ NUL # drop (length (dec_int n) + 1) (pf_num st)"
  have len: "length (pf_num st) = 256" using wrote_sz [OF assms(1)] by simp
  have lnum: "length ?num = 256" using len dec_int_length64 [OF assms(2)] by simp
  let ?st = "st\<lparr>pf_num := ?num\<rparr>"
  let ?z = "replicate (pf_pad st - length (dec_int n)) (CHR ''0'')"
  have w: "wrote sz s0 out x ?st" using assms(1) lnum by (auto elim: wrote_cong)
  obtain st1 y where
    z: "(if pf_pad st > 0 then map_option (\<lambda>st. st\<lparr>pf_pad := 0\<rparr>)
            (pf_zeroes sz (pf_pad st - length (dec_int n)) ?st) else Some ?st) = Some st1"
    and w1: "wrote sz s0 (out @ ?z) y st1" and p1: "pf_pad st1 = 0"
  proof (cases "pf_pad st > 0")
    case True
    from pf_zeroes_emits [OF w, of "pf_pad st - length (dec_int n)"] obtain st2 y where
      "pf_zeroes sz (pf_pad st - length (dec_int n)) ?st = Some st2"
      "wrote sz s0 (out @ ?z) y st2" by blast
    moreover from this(2) have "wrote sz s0 (out @ ?z) y (st2\<lparr>pf_pad := 0\<rparr>)"
      by (auto elim: wrote_cong simp: wrote_def)
    ultimately show thesis using that True by simp
  next
    case False
    then show thesis using that w by simp
  qed
  have "NUL \<in> set ?num" by simp
  moreover have "cstr ?num = dec_int n" by (simp add: dec_int_NUL)
  ultimately show ?thesis
    using pf_printstr_emits [OF w1, of ?num] itoa10_num [OF assms(2) len] z p1
    by (auto simp: conv_def dec_int_NUL)
qed

lemma conv_p_emits:
  assumes "wrote sz s0 out x st"
  shows "\<exists>st'. conv sz (CHR ''p'') (VU64 w # ap) st = Some (st', ap) \<and>
    wrote sz s0 (out @ ''0x'' @ replicate (18 - length (hex_nat (unat w))) (CHR ''0'') @
      drop 2 (hex_nat (unat w))) NUL st' \<and> pf_pad st' = pf_pad st"
proof -
  obtain t where t: "hex_nat (unat w) = CHR ''0'' # CHR ''x'' # t" "NUL \<notin> set t"
    using hex_nat_split by blast
  have len: "length (pf_num st) = 256" using wrote_sz [OF assms] by simp
  obtain num where num: "num = hex_nat (unat w) @ NUL # drop (length (hex_nat (unat w)) + 1) (pf_num st)"
    by blast
  have lnum: "length num = 256" using num len hex_nat_length [of w] by simp
  have w0: "wrote sz s0 out x (st\<lparr>pf_num := num\<rparr>)" using assms lnum by (auto elim: wrote_cong)
  obtain st1 where 1: "pf_printc sz (CHR ''0'') (st\<lparr>pf_num := num\<rparr>) = Some st1"
    "wrote sz s0 (out @ ''0'') NUL st1" "pf_pad st1 = pf_pad st"
    using pf_printc_emits [OF w0, of "CHR ''0''"] by auto
  obtain st2 where 2: "pf_printc sz (CHR ''x'') st1 = Some st2"
    "wrote sz s0 (out @ ''0x'') NUL st2" "pf_pad st2 = pf_pad st"
    using pf_printc_emits [OF 1(2), of "CHR ''x''"] 1(3) by auto
  obtain st3 y where 3: "pf_zeroes sz (18 - length (hex_nat (unat w))) st2 = Some st3"
    "wrote sz s0 (out @ ''0x'' @ replicate (18 - length (hex_nat (unat w))) (CHR ''0'')) y st3"
    "pf_pad st3 = pf_pad st"
    using pf_zeroes_emits [OF 2(2), of "18 - length (hex_nat (unat w))"] 2(3) by auto
  have d: "drop 2 num = t @ NUL # drop (length (hex_nat (unat w)) + 1) (pf_num st)"
    using t num by simp
  then have n: "NUL \<in> set (drop 2 num)" "cstr (drop 2 num) = t" using t by simp_all
  obtain st4 where 4: "pf_printstr sz (drop 2 num) st3 = Some st4" "pf_pad st4 = pf_pad st"
    "wrote sz s0 (out @ ''0x'' @ replicate (18 - length (hex_nat (unat w))) (CHR ''0'') @ t) NUL st4"
    using pf_printstr_emits [OF 3(2) n(1)] n(2) 3(3) by auto
  have "itoa_convert_base16 (unat w) (pf_num st) = Some num" "strlen num = Some (length (hex_nat (unat w)))"
    using itoa16_num [OF len, of w] num hex_nat_NUL by simp_all
  then have "conv sz (CHR ''p'') (VU64 w # ap) st = Some (st4, ap)"
    using 1(1) 2(1) 3(1) 4(1) by (simp add: conv_def)
  then show ?thesis using 4 t by simp
qed

lemma conv_x_emits:
  assumes "wrote sz s0 out x st"
  shows "\<exists>st'. conv sz (CHR ''x'') (VU64 w # ap) st = Some (st', ap) \<and>
    wrote sz s0 (out @ drop 2 (hex_nat (unat w))) NUL st' \<and> pf_pad st' = pf_pad st"
proof -
  obtain t where t: "hex_nat (unat w) = CHR ''0'' # CHR ''x'' # t" "NUL \<notin> set t"
    using hex_nat_split by blast
  have len: "length (pf_num st) = 256" using wrote_sz [OF assms] by simp
  obtain num where num: "num = hex_nat (unat w) @ NUL # drop (length (hex_nat (unat w)) + 1) (pf_num st)"
    by blast
  have lnum: "length num = 256" using num len hex_nat_length [of w] by simp
  have w0: "wrote sz s0 out x (st\<lparr>pf_num := num\<rparr>)" using assms lnum by (auto elim: wrote_cong)
  have "NUL \<in> set (drop 2 num)" "cstr (drop 2 num) = t" using t num by simp_all
  then show ?thesis
    using pf_printstr_emits [OF w0, of "drop 2 num"] itoa16_num [OF len, of w] num t
    by (auto simp: conv_def)
qed

text \<open>Every conversion prints its reference text.\<close>

lemma conv_emits:
  assumes "emitted sz s0 out st" and "conv_text c ap (pf_pad st) = Some (t, ap', pad')"
  shows "\<exists>st'. conv sz c ap st = Some (st', ap') \<and> emitted sz s0 (out @ t) st' \<and> pf_pad st' = pad'"
proof -
  from assms(1) obtain x where w: "wrote sz s0 out x st" by (auto simp: emitted_def)
  consider (d) "c = CHR ''d''" | (p) "c = CHR ''p''" | (x) "c = CHR ''x''" | (s) "c = CHR ''s''"
    | (c) "c = CHR ''c'' \<or> c = CHR ''%''" | (other) "c \<notin> set ''dpxsc%''" by auto
  then show ?thesis
  proof cases
    case d
    with assms(2) obtain n where "ap = VInt n # ap'" "\<bar>n\<bar> < 2 ^ 63" "pad' = 0"
      "t = replicate (pf_pad st - length (dec_int n)) (CHR ''0'') @ dec_int n"
      by (auto simp: conv_text_def split: list.splits va.splits if_splits)
    with conv_d_emits [OF w, of n ap'] d show ?thesis by auto
  next
    case p
    with assms(2) obtain v where "ap = VU64 v # ap'" "pad' = pf_pad st"
      "t = ''0x'' @ replicate (18 - length (hex_nat (unat v))) (CHR ''0'') @ drop 2 (hex_nat (unat v))"
      by (auto simp: conv_text_def split: list.splits va.splits if_splits)
    with conv_p_emits [OF w, of v ap'] p show ?thesis by auto
  next
    case x
    with assms(2) obtain v where "ap = VU64 v # ap'" "pad' = pf_pad st" "t = drop 2 (hex_nat (unat v))"
      by (auto simp: conv_text_def split: list.splits va.splits if_splits)
    with conv_x_emits [OF w, of v ap'] x show ?thesis by auto
  next
    case s
    with assms(2) obtain v where "ap = VStr v # ap'" "pad' = pf_pad st" "t = cstr v" "NUL \<in> set v"
      by (auto simp: conv_text_def split: list.splits va.splits if_splits)
    with pf_printstr_emits [OF w, of v] s show ?thesis by (auto simp: conv_def)
  next
    case c
    with assms(2) obtain v where "t = [v]" "pad' = pf_pad st"
      "conv sz c ap st = map_option (\<lambda>st. (st, ap')) (pf_printc sz v st)"
      by (auto simp: conv_text_def conv_def split: list.splits va.splits if_splits)
    with pf_printc_emits [OF w, of v] show ?thesis by auto
  next
    case other
    with assms show ?thesis by (auto simp: conv_text_def conv_def)
  qed
qed

lemma lit_loop_emits:
  assumes "emitted sz s0 out st" and "dropWhile lit_char fmt \<noteq> []"
  shows "\<exists>st'. lit_loop sz fmt st = Some (st', dropWhile lit_char fmt) \<and>
    emitted sz s0 (out @ takeWhile lit_char fmt) st' \<and> pf_pad st' = pf_pad st"
  using assms
proof (induction fmt arbitrary: out st)
  case Nil
  then show ?case by simp
next
  case (Cons c fmt)
  show ?case
  proof (cases "lit_char c")
    case True
    from Cons.prems(1) obtain x where "wrote sz s0 out x st" by (auto simp: emitted_def)
    from pf_printc_emits [OF this, of c] obtain st1 where
      st1: "pf_printc sz c st = Some st1" "emitted sz s0 (out @ [c]) st1" "pf_pad st1 = pf_pad st"
      by auto
    from Cons.IH [OF st1(2)] Cons.prems(2) True st1 show ?thesis by (auto simp: lit_char_def)
  next
    case False
    with Cons.prems show ?thesis by (auto simp: lit_char_def)
  qed
qed

text \<open>
  The main lemma: the array holds the first \<open>sz - 1\<close> characters of the rendering, terminated;
  the return value is the length when the rendering is shorter than that.
\<close>

lemma vsnprintf_loop_correct:
  assumes "emitted sz s0 out st" and "pf_text fmt ap (pf_pad st) = Some rest"
  shows "\<exists>r s'. vsnprintf_loop sz fmt ap st = Some (r, s') \<and>
    (\<exists>st'. emitted sz s0 (out @ rest) st' \<and> pf_s st' = s') \<and>
    (length (out @ rest) < sz - 1 \<longrightarrow> r = int (length (out @ rest))) \<and>
    (sz - 1 \<le> length (out @ rest) \<longrightarrow> r = 0 \<or> r = int (sz - 1))"
  using assms
proof (induction sz fmt ap st arbitrary: out rest rule: vsnprintf_loop.induct)
  case (1 sz fmt ap st)
  from "1.prems"(1) obtain x where w: "wrote sz s0 out x st" by (auto simp: emitted_def)
  have szm: "size_m1 sz = sz - 1" using wrote_sz [OF w] by (simp add: size_m1_def)
  show ?case
  proof (cases "pf_off st < sz - 1")
    case False
    then have "sz - 1 \<le> length out" using w by (auto simp: wrote_def)
    moreover have "emitted sz s0 (out @ rest) st"
      using "1.prems"(1) False by (rule emitted_more)
    ultimately show ?thesis
      using False by (subst vsnprintf_loop.simps) (auto simp: szm)
  next
    case True
    let ?lit = "takeWhile lit_char fmt"
    from "1.prems"(2) obtain c fmt1 where dw: "dropWhile lit_char fmt = c # fmt1"
      and pre: "\<exists>r. rest = ?lit @ r" and stop_rest: "c = NUL \<longrightarrow> rest = ?lit"
      by (cases rule: pf_text_elim) auto
    from lit_loop_emits [OF "1.prems"(1), of fmt] dw obtain st1 where
      lit: "lit_loop sz fmt st = Some (st1, c # fmt1)" "emitted sz s0 (out @ ?lit) st1"
        "pf_pad st1 = pf_pad st" by auto
    from lit(2) obtain y where w1: "wrote sz s0 (out @ ?lit) y st1" by (auto simp: emitted_def)
    show ?thesis
    proof (cases "c = NUL \<or> pf_off st1 = sz - 1")
      case stop: True
      have "\<exists>st'. emitted sz s0 (out @ rest) st' \<and> pf_s st' = pf_s st1"
      proof (cases "c = NUL")
        case True
        with lit(2) stop_rest show ?thesis by blast
      next
        case False
        with stop have full: "\<not> pf_off st1 < sz - 1" by simp
        from pre obtain r where "rest = ?lit @ r" by blast
        then have "emitted sz s0 (out @ rest) st1"
          using emitted_more [OF lit(2) full, of r] by simp
        then show ?thesis by blast
      qed
      moreover have "length (out @ rest) < sz - 1 \<Longrightarrow> pf_off st1 = length (out @ rest)"
      proof -
        assume short: "length (out @ rest) < sz - 1"
        with stop pre w1 have "c = NUL" by (auto simp: wrote_def)
        with stop_rest w1 short show ?thesis by (simp add: wrote_def)
      qed
      moreover have "sz - 1 \<le> length (out @ rest) \<Longrightarrow> pf_off st1 = sz - 1"
        using stop stop_rest w1 by (auto simp: wrote_def)
      ultimately show ?thesis
        using True lit(1) stop by (subst vsnprintf_loop.simps) (auto simp: szm)
    next
      case go: False
      from "1.prems"(2) dw go obtain pad d fmt3 t ap' pad' r where
        pp: "pad_parse fmt1 (pf_pad st) = Some (pad, d # fmt3)" and
        ct: "conv_text d ap pad = Some (t, ap', pad')" and
        pr: "pf_text fmt3 ap' pad' = Some r" and rest: "rest = ?lit @ t @ r"
        by (cases rule: pf_text_elim) auto
      have "emitted sz s0 (out @ ?lit) (st1\<lparr>pf_pad := pad\<rparr>)"
        using lit(2) wrote_sz [OF w1] by (auto elim: emitted_cong)
      from conv_emits [OF this, of d ap t ap' pad'] ct obtain st2 where
        cv: "conv sz d ap (st1\<lparr>pf_pad := pad\<rparr>) = Some (st2, ap')"
        and e2: "emitted sz s0 ((out @ ?lit) @ t) st2" and p2: "pf_pad st2 = pad'" by auto
      have eq: "vsnprintf_loop sz fmt ap st = vsnprintf_loop sz fmt3 ap' st2"
        using True go lit pp cv by (subst vsnprintf_loop.simps) (simp add: szm)
      show ?thesis
        using "1.IH" [OF _ lit(1) refl refl _ _ refl refl cv refl e2] True go pp lit(3) pr p2 eq rest
        by (simp add: szm)
    qed
  qed
qed

section \<open>The formatted string\<close>

text \<open>
  C19 (formatted output).  For a format and arguments with a reference rendering \<open>out\<close> and an array of at least
  \<open>sz > 1\<close> bytes, \<^verbatim>\<open>snprintf\<close> leaves exactly the first \<open>sz - 1\<close> characters of \<open>out\<close> in the array and changes
  only the byte behind them, which is the terminating NUL whenever \<open>out\<close> is not empty.  It returns the length of \<open>out\<close>
  when that is below \<open>sz - 1\<close>, also for an empty \<open>out\<close>; when the rendering fills the array, exactly or truncated, it
  returns \<open>sz - 1\<close> or 0.
\<close>

theorem snprintf_renders:
  assumes "1 < sz" and "sz \<le> length s" and "pf_text fmt ap 0 = Some out"
  shows "\<exists>r x. snprintf s sz fmt ap =
      Some (r, take (sz - 1) out @ x # drop (min (sz - 1) (length out) + 1) s) \<and>
    (out \<noteq> [] \<longrightarrow> x = NUL) \<and>
    (length out < sz - 1 \<longrightarrow> r = int (length out)) \<and>
    (sz - 1 \<le> length out \<longrightarrow> r = 0 \<or> r = int (sz - 1))"
proof -
  let ?st = "\<lparr>pf_s = s, pf_off = 0, pf_pad = 0, pf_num = replicate 256 NUL\<rparr>"
  have "emitted sz s [] ?st" using assms(1,2) by (intro emitted_init) simp_all
  from vsnprintf_loop_correct [OF this, of fmt ap out] assms(3) obtain r s' st' where
    l: "vsnprintf_loop sz fmt ap ?st = Some (r, s')" and e: "emitted sz s out st'" "pf_s st' = s'"
    and r: "length out < sz - 1 \<longrightarrow> r = int (length out)" "sz - 1 \<le> length out \<longrightarrow> r = 0 \<or> r = int (sz - 1)" by auto
  from e assms(1) obtain x where
    "s' = take (sz - 1) out @ x # drop (min (sz - 1) (length out) + 1) s" "out \<noteq> [] \<longrightarrow> x = NUL"
    by (auto simp: emitted_def wrote_def)
  then show ?thesis using l r by (intro exI [of _ r] exI [of _ x]) (simp add: snprintf_def vsnprintf_def)
qed

lemma pf_text_lits:
  assumes "list_all lit_char l"
  shows "pf_text (l @ NUL # t) ap pad = Some l"
    and "pf_text (l @ CHR ''%'' # fmt) ap pad =
      (case pad_parse fmt pad of
         Some (pad, c # fmt) \<Rightarrow>
           (case conv_text c ap pad of
              None \<Rightarrow> None
            | Some (t, ap, pad) \<Rightarrow> map_option (\<lambda>r. l @ t @ r) (pf_text fmt ap pad))
       | _ \<Rightarrow> None)"
proof -
  have P: "\<forall>x \<in> set l. lit_char x" using assms by (simp add: list_all_iff)
  have "dropWhile lit_char (l @ NUL # t) = NUL # t" "takeWhile lit_char (l @ NUL # t) = l"
    using P by (simp_all add: lit_char_def)
  then show "pf_text (l @ NUL # t) ap pad = Some l" by (subst pf_text.simps) simp
  have "dropWhile lit_char (l @ CHR ''%'' # fmt) = CHR ''%'' # fmt"
    "takeWhile lit_char (l @ CHR ''%'' # fmt) = l"
    using P by (simp_all add: lit_char_def)
  then show "pf_text (l @ CHR ''%'' # fmt) ap pad =
      (case pad_parse fmt pad of
         Some (pad, c # fmt) \<Rightarrow>
           (case conv_text c ap pad of
              None \<Rightarrow> None
            | Some (t, ap, pad) \<Rightarrow> map_option (\<lambda>r. l @ t @ r) (pf_text fmt ap pad))
       | _ \<Rightarrow> None)"
    by (subst pf_text.simps) (auto split: option.splits list.splits)
qed

theorem snprintf_renders_witness:
  "1 < (8 :: nat) \<and> 8 \<le> length ''##########'' \<and>
   pf_text (''n=%03d %s'' @ [NUL]) [VInt 7, VStr (''ab'' @ [NUL])] 0 = Some ''n=007 ab'' \<and>
   (\<exists>r. snprintf ''##########'' 8 (''n=%03d %s'' @ [NUL]) [VInt 7, VStr (''ab'' @ [NUL])] =
      Some (r, ''n=007 a'' @ NUL # ''##''))"
proof -
  have t: "pf_text (''n=%03d %s'' @ [NUL]) [VInt 7, VStr (''ab'' @ [NUL])] 0 = Some ''n=007 ab''"
    by code_simp
  show ?thesis
    using snprintf_renders [OF _ _ t, of 8 "''##########''"] t by auto
qed

end
