(* ===== verification/Np_Symbol.thy ===== *)
theory Np_Symbol
  imports L5_Kalloc L5_Printf
begin

text \<open>
  The symbol table of the Pirho compiler, \<^verbatim>\<open>np/core/np_symbol.c\<close>: a queue of symbols and a small
  cache in front of it.  The lemmas show that a lookup by identifier through the cache gives the
  symbol a plain search of the queue gives, and what the table does with names.
\<close>

section \<open>Data\<close>

text \<open>
  Symbols are never changed after they are allocated, so a pointer to one is its value.  The name
  is a heap string or NULL.  Cache slots at or above \<open>cache_i\<close> are never read.
\<close>

record symbol =
  sym_name :: "char list option"
  sym_addr :: u64
  sym_id :: nat

abbreviation SYMCACHE_LEN :: nat where
  "SYMCACHE_LEN \<equiv> 32"

record symlist =
  symq :: "symbol list"
  cache :: "symbol option list"
  nsym :: nat
  cache_i :: nat

definition symlist_init :: "symlist \<Rightarrow> symlist" where
  "symlist_init sl = sl\<lparr>symq := [], nsym := 0, cache_i := 0\<rparr>"

section \<open>Lookup\<close>

definition symbol_cache :: "symlist \<Rightarrow> symbol \<Rightarrow> symlist" where
  "symbol_cache sl s =
     (let sl = (if cache_i sl \<ge> SYMCACHE_LEN then sl\<lparr>cache_i := 0\<rparr> else sl)
      in sl\<lparr>cache := (cache sl)[cache_i sl := Some s], cache_i := cache_i sl + 1\<rparr>)"

text \<open>
  The result is \<open>None\<close> where the code would dereference NULL: \<^verbatim>\<open>symbol_lookup\<close> compares the name
  of every cached symbol without checking that it has one.
\<close>

fun cache_find_name :: "symbol option list \<Rightarrow> char list \<Rightarrow> symbol option option" where
  "cache_find_name [] name = Some None"
| "cache_find_name (None # es) name = None"
| "cache_find_name (Some s # es) name =
     (case sym_name s of
        None \<Rightarrow> None
      | Some nm \<Rightarrow> if streq nm name then Some (Some s) else cache_find_name es name)"

fun symq_find_name :: "symbol list \<Rightarrow> char list \<Rightarrow> symbol option" where
  "symq_find_name [] name = None"
| "symq_find_name (s # ss) name =
     (case sym_name s of
        None \<Rightarrow> symq_find_name ss name
      | Some nm \<Rightarrow> if streq nm name then Some s else symq_find_name ss name)"

definition symbol_lookup :: "symlist \<Rightarrow> char list option \<Rightarrow> (symbol res \<times> symlist) option" where
  "symbol_lookup sl name =
     (case name of
        None \<Rightarrow> Some (Inl EINVAL, sl)
      | Some name \<Rightarrow>
          (case cache_find_name (take (cache_i sl) (cache sl)) name of
             None \<Rightarrow> None
           | Some (Some s) \<Rightarrow> Some (Inr s, sl)
           | Some None \<Rightarrow>
               (case symq_find_name (symq sl) name of
                  Some s \<Rightarrow> Some (Inr s, symbol_cache sl s)
                | None \<Rightarrow> Some (Inl minus_one, sl))))"

fun cache_find_id :: "symbol option list \<Rightarrow> nat \<Rightarrow> symbol option option" where
  "cache_find_id [] i = Some None"
| "cache_find_id (None # es) i = None"
| "cache_find_id (Some s # es) i =
     (if sym_id s = i then Some (Some s) else cache_find_id es i)"

fun symq_find_id :: "symbol list \<Rightarrow> nat \<Rightarrow> symbol option" where
  "symq_find_id [] i = None"
| "symq_find_id (s # ss) i = (if sym_id s = i then Some s else symq_find_id ss i)"

definition symbol_lookup_id :: "symlist \<Rightarrow> nat \<Rightarrow> (symbol res \<times> symlist) option" where
  "symbol_lookup_id sl i =
     (case cache_find_id (take (cache_i sl) (cache sl)) i of
        None \<Rightarrow> None
      | Some (Some s) \<Rightarrow> Some (Inr s, sl)
      | Some None \<Rightarrow>
          (case symq_find_id (symq sl) i of
             Some s \<Rightarrow> Some (Inr s, symbol_cache sl s)
           | None \<Rightarrow> Some (Inl minus_one, sl)))"

section \<open>Allocation\<close>

definition sizeof_symbol :: nat where "sizeof_symbol = 40"

text \<open>
  \<^verbatim>\<open>snprintf(namebuf, sizeof(namebuf), "__internal.%d", sym->id)\<close>.  What \<^verbatim>\<open>namebuf\<close> holds before the
  call does not matter, since the output is terminated.
\<close>

definition internal_name :: "nat \<Rightarrow> char list" where
  "internal_name i =
     (case snprintf (replicate 64 NUL) 64 (''__internal.%d'' @ [NUL])
             [VInt (sint (word_of_nat i :: u32))] of
        Some (_, b) \<Rightarrow> cstr b
      | None \<Rightarrow> [])"

text \<open>The test on \<^verbatim>\<open>name\<close> is as in the source: a NULL name is duplicated, any other is replaced.\<close>

definition symbol_alloc ::
  "symlist \<Rightarrow> char list option \<Rightarrow> heapstr option \<Rightarrow> ptrbox option \<Rightarrow> kheap \<Rightarrow>
   symbol option \<times> symlist \<times> ptrbox option \<times> kheap" where
  "symbol_alloc sl name addr work_mem h =
     (case addr of
        None \<Rightarrow> (None, sl, work_mem, h)
      | Some (a, _) \<Rightarrow>
          (case ptrbox_alloc sizeof_symbol work_mem h of
             (None, box, h) \<Rightarrow> (None, sl, box, h)
           | (Some _, box, h) \<Rightarrow>
               (let i = nsym sl;
                    (nm, box, h) =
                      (case name of
                         None \<Rightarrow> ptrbox_strdup name box h
                       | Some _ \<Rightarrow> ptrbox_strdup (Some (internal_name i)) box h);
                    sym = \<lparr>sym_name = map_option snd nm, sym_addr = a, sym_id = i\<rparr>
                in (Some sym, sl\<lparr>symq := symq sl @ [sym], nsym := nsym sl + 1\<rparr>, box, h))))"

section \<open>Invariant\<close>

definition sym_inv :: "symlist \<Rightarrow> bool" where
  "sym_inv sl \<longleftrightarrow>
     length (cache sl) = SYMCACHE_LEN \<and> cache_i sl \<le> SYMCACHE_LEN \<and>
     map sym_id (symq sl) = [0..<nsym sl] \<and>
     (\<forall>e \<in> set (take (cache_i sl) (cache sl)). \<exists>s \<in> set (symq sl). e = Some s)"

lemma symlist_init_inv: "length (cache sl) = SYMCACHE_LEN \<Longrightarrow> sym_inv (symlist_init sl)"
  by (simp add: sym_inv_def symlist_init_def)

lemma sym_inv_nth:
  assumes "sym_inv sl" and "i < nsym sl"
  shows "i < length (symq sl)" and "sym_id (symq sl ! i) = i"
proof -
  have eq: "map sym_id (symq sl) = [0..<nsym sl]" using assms(1) by (simp add: sym_inv_def)
  from arg_cong [OF eq, of length] have len: "length (symq sl) = nsym sl" by simp
  then show "i < length (symq sl)" using assms(2) by simp
  from arg_cong [OF eq, of "\<lambda>xs. xs ! i"] show "sym_id (symq sl ! i) = i"
    using assms(2) len by simp
qed

lemma sym_inv_in_symq:
  assumes "sym_inv sl" and "s \<in> set (symq sl)"
  shows "sym_id s < nsym sl" and "s = symq sl ! sym_id s"
proof -
  have eq: "map sym_id (symq sl) = [0..<nsym sl]" using assms(1) by (simp add: sym_inv_def)
  from arg_cong [OF eq, of length] have len: "length (symq sl) = nsym sl" by simp
  from assms(2) obtain k where k: "k < length (symq sl)" "s = symq sl ! k"
    by (auto simp: in_set_conv_nth)
  from arg_cong [OF eq, of "\<lambda>xs. xs ! k"] k len have "sym_id s = k" by simp
  with k len show "sym_id s < nsym sl" "s = symq sl ! sym_id s" by simp_all
qed

lemma symbol_cache_inv:
  assumes "sym_inv sl" and "s \<in> set (symq sl)"
  shows "sym_inv (symbol_cache sl s)"
proof -
  let ?c = "if cache_i sl \<ge> SYMCACHE_LEN then 0 else cache_i sl"
  have len: "length (cache sl) = SYMCACHE_LEN" and lt: "?c < length (cache sl)"
    using assms(1) by (auto simp: sym_inv_def)
  have "take (Suc ?c) ((cache sl)[?c := Some s]) = take ?c (cache sl) @ [Some s]"
    using lt by (rule take_Suc_update)
  moreover have "set (take ?c (cache sl)) \<subseteq> set (take (cache_i sl) (cache sl))"
    by (auto simp: set_take_subset_set_take)
  moreover have "symbol_cache sl s = sl\<lparr>cache := (cache sl)[?c := Some s], cache_i := Suc ?c\<rparr>"
    by (simp add: symbol_cache_def Let_def)
  ultimately show ?thesis
    using assms len lt by (auto simp: sym_inv_def)
qed

lemma symbol_cache_symq [simp]:
  "symq (symbol_cache sl s) = symq sl" "nsym (symbol_cache sl s) = nsym sl"
  by (simp_all add: symbol_cache_def Let_def)

lemma cache_find_id_sound:
  assumes "\<forall>e \<in> set es. \<exists>s \<in> A. e = Some s"
  shows "\<exists>r. cache_find_id es i = Some r \<and> (\<forall>s. r = Some s \<longrightarrow> s \<in> A \<and> sym_id s = i)"
  using assms by (induction es i rule: cache_find_id.induct) auto

lemma symq_find_id_Some: "symq_find_id ss i = Some s \<Longrightarrow> s \<in> set ss \<and> sym_id s = i"
  by (induction ss i rule: symq_find_id.induct) (auto split: if_splits)

lemma symq_find_id_None: "symq_find_id ss i = None \<longleftrightarrow> (\<forall>s \<in> set ss. sym_id s \<noteq> i)"
  by (induction ss i rule: symq_find_id.induct) auto

text \<open>Through the cache, a lookup by identifier is an index into the queue.\<close>

lemma symbol_lookup_id_eq:
  assumes "sym_inv sl"
  shows "\<exists>sl'. symbol_lookup_id sl i =
      Some (if i < nsym sl then Inr (symq sl ! i) else Inl minus_one, sl') \<and>
    sym_inv sl' \<and> symq sl' = symq sl \<and> nsym sl' = nsym sl"
proof -
  have "\<forall>e \<in> set (take (cache_i sl) (cache sl)). \<exists>s \<in> set (symq sl). e = Some s"
    using assms by (simp add: sym_inv_def)
  from cache_find_id_sound [OF this, of i] obtain r where
    r: "cache_find_id (take (cache_i sl) (cache sl)) i = Some r"
    "\<forall>s. r = Some s \<longrightarrow> s \<in> set (symq sl) \<and> sym_id s = i" by blast
  show ?thesis
  proof (cases r)
    case (Some s)
    with r(2) sym_inv_in_symq [OF assms, of s] have "i < nsym sl" "s = symq sl ! i" by auto
    with Some r(1) assms show ?thesis by (simp add: symbol_lookup_id_def)
  next
    case None
    show ?thesis
    proof (cases "symq_find_id (symq sl) i")
      case (Some s)
      with symq_find_id_Some [OF Some] sym_inv_in_symq [OF assms, of s]
      have "i < nsym sl" "s = symq sl ! i" "s \<in> set (symq sl)" by auto
      with Some None r(1) symbol_cache_inv [OF assms, of s] show ?thesis
        by (simp add: symbol_lookup_id_def)
    next
      case notin: None
      then have "\<not> i < nsym sl"
        using sym_inv_nth [OF assms, of i] by (auto simp: symq_find_id_None)
      with notin None r(1) assms show ?thesis by (simp add: symbol_lookup_id_def)
    qed
  qed
qed

lemma symbol_alloc_cases:
  assumes "symbol_alloc sl name addr box h = (r, sl', box', h')"
  obtains (fail) "r = None" and "sl' = sl"
  | (ok) sym where "r = Some sym" and "sl' = sl\<lparr>symq := symq sl @ [sym], nsym := nsym sl + 1\<rparr>"
      and "sym_id sym = nsym sl" and "\<forall>nm. sym_name sym = Some nm \<longrightarrow> nm = internal_name (nsym sl)"
      and "name = None \<longrightarrow> sym_name sym = None"
proof (cases "r = None")
  case True
  then show thesis
    using assms fail by (auto simp: symbol_alloc_def Let_def split: option.splits prod.splits)
next
  case False
  have dup: "ptrbox_strdup (Some t) bx g = (Some (a, u), bx', g') \<Longrightarrow> u = t" for t bx g a u bx' g'
    by (auto simp: ptrbox_strdup_def Let_def split: option.splits prod.splits)
  have dup0: "ptrbox_strdup None bx g = (p, bx', g') \<Longrightarrow> p = None" for bx g p bx' g'
    by (auto simp: ptrbox_strdup_def)
  from False obtain sym where r: "r = Some sym" by blast
  from assms r have "sl' = sl\<lparr>symq := symq sl @ [sym], nsym := nsym sl + 1\<rparr>" "sym_id sym = nsym sl"
    "\<forall>nm. sym_name sym = Some nm \<longrightarrow> nm = internal_name (nsym sl)"
    "name = None \<longrightarrow> sym_name sym = None"
    by (auto simp: symbol_alloc_def Let_def dest: dup dup0 split: option.splits prod.splits)
  with r ok show thesis by blast
qed

lemma symbol_alloc_inv:
  assumes "sym_inv sl" and "symbol_alloc sl name addr box h = (r, sl', box', h')"
  shows "sym_inv sl'"
  using assms(2)
proof (cases rule: symbol_alloc_cases)
  case fail
  then show ?thesis using assms(1) by simp
next
  case (ok sym)
  then show ?thesis using assms(1) by (auto simp: sym_inv_def)
qed

text \<open>
  C20 (the cache is transparent).  On every symbol table built by allocations and lookups, looking
  an identifier up through the cache returns the symbol at that position of the queue, or -1 when
  no symbol has it; the lookup never reads an unused cache slot, leaves the queue as it was and
  keeps the table well-formed.
\<close>

theorem symbol_lookup_id_transparent:
  assumes "sym_inv sl"
  shows "\<exists>sl'. symbol_lookup_id sl i =
      Some (if i < nsym sl then Inr (symq sl ! i) else Inl minus_one, sl') \<and>
    sym_inv sl' \<and> symq sl' = symq sl \<and>
    (\<forall>j. map_option fst (symbol_lookup_id sl' j) = map_option fst (symbol_lookup_id sl j))"
proof -
  from symbol_lookup_id_eq [OF assms, of i] obtain sl' where
    sl': "symbol_lookup_id sl i = Some (if i < nsym sl then Inr (symq sl ! i) else Inl minus_one, sl')"
    "sym_inv sl'" "symq sl' = symq sl" "nsym sl' = nsym sl" by blast
  have "map_option fst (symbol_lookup_id sl' j) = map_option fst (symbol_lookup_id sl j)" for j
    using symbol_lookup_id_eq [OF sl'(2), of j] symbol_lookup_id_eq [OF assms, of j] sl'(3,4) by auto
  with sl' show ?thesis by blast
qed

definition symlist_demo :: symlist where
  "symlist_demo =
     symbol_cache
       \<lparr>symq = [\<lparr>sym_name = None, sym_addr = 16, sym_id = 0\<rparr>,
                \<lparr>sym_name = Some ''__internal.1'', sym_addr = 32, sym_id = 1\<rparr>],
        cache = replicate SYMCACHE_LEN None, nsym = 2, cache_i = 0\<rparr>
       \<lparr>sym_name = None, sym_addr = 16, sym_id = 0\<rparr>"

lemma symlist_demo_inv: "sym_inv symlist_demo"
  unfolding symlist_demo_def
  by (rule symbol_cache_inv) (simp_all add: sym_inv_def upt_rec)

theorem symbol_lookup_id_transparent_witness:
  "sym_inv symlist_demo \<and>
   (\<exists>sl'. symbol_lookup_id symlist_demo 1 =
       Some (Inr \<lparr>sym_name = Some ''__internal.1'', sym_addr = 32, sym_id = 1\<rparr>, sl') \<and>
     sym_inv sl' \<and> symq sl' = symq symlist_demo \<and>
     (\<forall>j. map_option fst (symbol_lookup_id sl' j) = map_option fst (symbol_lookup_id symlist_demo j)))"
proof -
  have "nsym symlist_demo = 2" "symq symlist_demo ! 1 =
      \<lparr>sym_name = Some ''__internal.1'', sym_addr = 32, sym_id = 1\<rparr>"
    by (simp_all add: symlist_demo_def)
  with symbol_lookup_id_transparent [OF symlist_demo_inv, of 1] symlist_demo_inv show ?thesis by simp
qed

text \<open>
  When a symbol without a name is in the first
  cache slot, every lookup by name dereferences a NULL name, whatever name is asked for.
\<close>

theorem symbol_lookup_nameless_cached:
  assumes "sym_inv sl" and "0 < cache_i sl" and "cache sl ! 0 = Some s" and "sym_name s = None"
  shows "symbol_lookup sl (Some name) = None"
proof -
  have "0 < length (cache sl)" using assms(1) by (simp add: sym_inv_def)
  then have "take (cache_i sl) (cache sl) = cache sl ! 0 # take (cache_i sl - 1) (tl (cache sl))"
    using assms(2) by (cases "cache sl"; cases "cache_i sl") auto
  then show ?thesis using assms(3,4) by (simp add: symbol_lookup_def)
qed

theorem symbol_lookup_nameless_cached_witness:
  "symbol_lookup symlist_demo (Some ''main'') = None"
proof (rule symbol_lookup_nameless_cached [OF symlist_demo_inv])
  show "0 < cache_i symlist_demo" "sym_name \<lparr>sym_name = None, sym_addr = 16, sym_id = 0\<rparr> = None"
    "cache symlist_demo ! 0 = Some \<lparr>sym_name = None, sym_addr = 16, sym_id = 0\<rparr>"
    by (simp_all add: symlist_demo_def symbol_cache_def)
qed

end
