(* ===== verification/Np_Piir.thy ===== *)
theory Np_Piir
  imports L5_Kalloc
begin

text \<open>
  The bytecode queue between the Pirho parser and its code generator
  (\<^verbatim>\<open>np/codegen/gen_piir.c\<close>, \<^verbatim>\<open>include/np/piir.h\<close>).  The source calls it a stack, but bytes leave it in
  the order they came in: \<open>bounded_queue\<close> states that contract, the interpretation \<open>piirq\<close> shows
  that the array with its head and tail indices implements it.
\<close>

section \<open>A bounded queue\<close>

text \<open>A run of pushes, and a run of pops that stops when one fails.\<close>

fun pushes :: "('a \<Rightarrow> 'q \<Rightarrow> 'q option) \<Rightarrow> 'a list \<Rightarrow> 'q \<Rightarrow> 'q option" where
  "pushes push [] q = Some q"
| "pushes push (x # xs) q = (case push x q of None \<Rightarrow> None | Some q \<Rightarrow> pushes push xs q)"

fun pops :: "('q \<Rightarrow> ('a \<times> 'q) option) \<Rightarrow> nat \<Rightarrow> 'q \<Rightarrow> 'a list \<times> 'q" where
  "pops pop 0 q = ([], q)"
| "pops pop (Suc n) q =
     (case pop q of
        None \<Rightarrow> ([], q)
      | Some (x, q) \<Rightarrow> (case pops pop n q of (xs, q) \<Rightarrow> (x # xs, q)))"

locale bounded_queue =
  fixes qpush :: "'a \<Rightarrow> 'q \<Rightarrow> 'q option"
    and qpop :: "'q \<Rightarrow> ('a \<times> 'q) option"
    and qlist :: "'q \<Rightarrow> 'a list"
    and qroom :: "'q \<Rightarrow> nat"
    and qinv :: "'q \<Rightarrow> bool"
  assumes push_room: "qinv q \<Longrightarrow> 0 < qroom q \<Longrightarrow>
      \<exists>q'. qpush x q = Some q' \<and> qinv q' \<and> qlist q' = qlist q @ [x] \<and> qroom q' = qroom q - 1"
    and push_full: "qinv q \<Longrightarrow> qroom q = 0 \<Longrightarrow> qpush x q = None"
    and pop_empty: "qinv q \<Longrightarrow> qlist q = [] \<Longrightarrow> qpop q = None"
    and pop_cons: "qinv q \<Longrightarrow> qlist q = x # xs \<Longrightarrow>
      \<exists>q'. qpop q = Some (x, q') \<and> qinv q' \<and> qlist q' = xs"
begin

lemma pushes_list:
  "qinv q \<Longrightarrow> length xs \<le> qroom q \<Longrightarrow>
   \<exists>q'. pushes qpush xs q = Some q' \<and> qinv q' \<and> qlist q' = qlist q @ xs \<and> qroom q' = qroom q - length xs"
proof (induction xs arbitrary: q)
  case Nil
  then show ?case by simp
next
  case (Cons x xs)
  from push_room [OF Cons.prems(1), of x] Cons.prems(2) obtain q1 where
    q1: "qpush x q = Some q1" "qinv q1" "qlist q1 = qlist q @ [x]" "qroom q1 = qroom q - 1" by auto
  from Cons.IH [OF q1(2)] q1 Cons.prems(2) show ?case by simp
qed

lemma pushes_overflow:
  "qinv q \<Longrightarrow> qroom q < length xs \<Longrightarrow> pushes qpush xs q = None"
proof (induction xs arbitrary: q)
  case Nil
  then show ?case by simp
next
  case (Cons x xs)
  show ?case
  proof (cases "qroom q = 0")
    case True
    then show ?thesis using push_full [OF Cons.prems(1)] by simp
  next
    case False
    from push_room [OF Cons.prems(1), of x] False obtain q1 where
      q1: "qpush x q = Some q1" "qinv q1" "qroom q1 = qroom q - 1" by auto
    from Cons.IH [OF q1(2)] q1 Cons.prems(2) False show ?thesis by simp
  qed
qed

lemma pops_list:
  "qinv q \<Longrightarrow> fst (pops qpop n q) = take n (qlist q) \<and> qinv (snd (pops qpop n q)) \<and>
   qlist (snd (pops qpop n q)) = drop n (qlist q)"
proof (induction n arbitrary: q)
  case 0
  then show ?case by simp
next
  case (Suc n)
  show ?case
  proof (cases "qlist q")
    case Nil
    then show ?thesis using pop_empty [OF Suc.prems] Suc.prems by simp
  next
    case (Cons x xs)
    from pop_cons [OF Suc.prems Cons] obtain q1 where
      q1: "qpop q = Some (x, q1)" "qinv q1" "qlist q1 = xs" by blast
    from Suc.IH [OF q1(2)] q1 Cons show ?thesis by (auto split: prod.splits)
  qed
qed

lemma fifo:
  assumes "qinv q" and "qlist q = []" and "length xs \<le> qroom q"
  shows "\<exists>q'. pushes qpush xs q = Some q' \<and> fst (pops qpop (length xs) q') = xs \<and>
    qlist (snd (pops qpop (length xs) q')) = []"
proof -
  from pushes_list [OF assms(1,3)] assms(2) obtain q' where
    "pushes qpush xs q = Some q'" "qinv q'" "qlist q' = xs" by auto
  with pops_list [of q' "length xs"] show ?thesis by auto
qed

end

section \<open>The bytecode queue\<close>

abbreviation PIIR_STACK_SIZE :: nat where
  "PIIR_STACK_SIZE \<equiv> 4096"

record piir_stack =
  opstore :: "s8 list"
  op_head :: nat
  op_tail :: nat

definition piir_stack_zero :: piir_stack where
  "piir_stack_zero = \<lparr>opstore = replicate PIIR_STACK_SIZE 0, op_head = 0, op_tail = 0\<rparr>"

text \<open>\<^verbatim>\<open>sizeof(struct piir_stack)\<close>: the array, two 16-bit indices, the lock.\<close>

definition sizeof_piir_stack :: nat where "sizeof_piir_stack = 4104"

definition piir_stack_new ::
  "ptrbox option \<Rightarrow> kheap \<Rightarrow> piir_stack res \<times> ptrbox option \<times> kheap" where
  "piir_stack_new work_mem h =
     (case ptrbox_alloc sizeof_piir_stack work_mem h of
        (None, box, h) \<Rightarrow> (Inl ENOMEM, box, h)
      | (Some _, box, h) \<Rightarrow> (Inr piir_stack_zero, box, h))"

text \<open>\<open>None\<close> is an access outside \<^verbatim>\<open>opstore\<close>.\<close>

definition piir_push :: "piir_stack option \<Rightarrow> s8 \<Rightarrow> (unit res \<times> piir_stack option) option" where
  "piir_push stack byte =
     (case stack of
        None \<Rightarrow> Some (Inl EINVAL, None)
      | Some st \<Rightarrow>
          if op_head st \<ge> PIIR_STACK_SIZE - 1 then Some (Inl minus_one, Some st)
          else
            (case buf_put (opstore st) (op_head st) byte of
               None \<Rightarrow> None
             | Some ops \<Rightarrow> Some (Inr (), Some (st\<lparr>opstore := ops, op_head := op_head st + 1\<rparr>))))"

text \<open>
  \<^verbatim>\<open>piir_pop\<close> returns an \<^verbatim>\<open>int\<close>: the byte, sign-extended, or a negative error code.
\<close>

definition piir_pop :: "piir_stack option \<Rightarrow> (int \<times> piir_stack option) option" where
  "piir_pop stack =
     (case stack of
        None \<Rightarrow> Some (- errno_code EINVAL, None)
      | Some st \<Rightarrow>
          if op_tail st = op_head st
          then Some (- 1, Some (st\<lparr>op_tail := 0, op_head := 0\<rparr>))
          else
            (case buf_get (opstore st) (op_tail st) of
               None \<Rightarrow> None
             | Some byte \<Rightarrow>
                 (let st = st\<lparr>op_tail := op_tail st + 1\<rparr>;
                      st = (if op_tail st = op_head st then st\<lparr>op_tail := 0, op_head := 0\<rparr> else st)
                  in Some (sint byte, Some st))))"

section \<open>The queue contract\<close>

definition piir_inv :: "piir_stack \<Rightarrow> bool" where
  "piir_inv st \<longleftrightarrow> length (opstore st) = PIIR_STACK_SIZE \<and> op_tail st \<le> op_head st \<and>
     op_head st \<le> PIIR_STACK_SIZE - 1"

definition piir_list :: "piir_stack \<Rightarrow> s8 list" where
  "piir_list st = take (op_head st - op_tail st) (drop (op_tail st) (opstore st))"

definition piir_room :: "piir_stack \<Rightarrow> nat" where
  "piir_room st = PIIR_STACK_SIZE - 1 - op_head st"

text \<open>The two operations in the shape of the contract: success and failure as an option.\<close>

definition piir_qpush :: "s8 \<Rightarrow> piir_stack \<Rightarrow> piir_stack option" where
  "piir_qpush b st = (case piir_push (Some st) b of Some (Inr _, st') \<Rightarrow> st' | _ \<Rightarrow> None)"

definition piir_qpop :: "piir_stack \<Rightarrow> (s8 \<times> piir_stack) option" where
  "piir_qpop st =
     (if op_tail st = op_head st then None
      else (case piir_pop (Some st) of
              Some (r, Some st') \<Rightarrow> Some (word_of_int r, st') | _ \<Rightarrow> None))"

lemma piir_list_nonempty:
  assumes "piir_inv st" and "op_tail st < op_head st"
  shows "piir_list st = opstore st ! op_tail st #
    take (op_head st - Suc (op_tail st)) (drop (Suc (op_tail st)) (opstore st))"
proof -
  have "op_tail st < length (opstore st)" using assms by (simp add: piir_inv_def)
  then have "drop (op_tail st) (opstore st) = opstore st ! op_tail st # drop (Suc (op_tail st)) (opstore st)"
    by (simp add: Cons_nth_drop_Suc)
  moreover have "op_head st - op_tail st = Suc (op_head st - Suc (op_tail st))"
    using assms(2) by simp
  ultimately show ?thesis by (simp add: piir_list_def)
qed

lemma piir_list_empty_iff: "piir_inv st \<Longrightarrow> piir_list st = [] \<longleftrightarrow> op_tail st = op_head st"
  by (auto simp: piir_list_def piir_inv_def)

lemma piir_push_ok:
  assumes "piir_inv st" and "0 < piir_room st"
  shows "\<exists>st'. piir_push (Some st) b = Some (Inr (), Some st') \<and> piir_inv st' \<and>
    piir_list st' = piir_list st @ [b] \<and> piir_room st' = piir_room st - 1"
proof -
  have h: "op_head st < 4095" "op_tail st \<le> op_head st" "length (opstore st) = 4096"
    using assms by (auto simp: piir_inv_def piir_room_def)
  let ?st = "st\<lparr>opstore := (opstore st)[op_head st := b], op_head := op_head st + 1\<rparr>"
  let ?k = "op_head st - op_tail st" and ?ys = "drop (op_tail st) (opstore st)"
  have "drop (op_tail st) ((opstore st)[op_head st := b]) = ?ys[?k := b]"
    using h by (simp only: drop_update_swap)
  moreover have "op_head st + 1 - op_tail st = Suc ?k" using h by linarith
  moreover have "take (Suc ?k) (?ys[?k := b]) = take ?k ?ys @ [b]"
  proof (rule take_Suc_update)
    show "?k < length ?ys" using h by simp
  qed
  ultimately have "take (op_head st + 1 - op_tail st) (drop (op_tail st) ((opstore st)[op_head st := b])) =
      take ?k ?ys @ [b]"
    by (simp only:)
  then have "piir_list ?st = piir_list st @ [b]"
    by (simp add: piir_list_def)
  with h show ?thesis
    by (auto simp: piir_push_def buf_put_def piir_inv_def piir_room_def)
qed

lemma piir_pop_ok:
  assumes "piir_inv st" and "piir_list st = x # xs"
  shows "\<exists>st'. piir_pop (Some st) = Some (sint x, Some st') \<and> piir_inv st' \<and> piir_list st' = xs"
proof -
  have lt: "op_tail st < op_head st"
    using assms piir_list_empty_iff [OF assms(1)] by (auto simp: piir_inv_def le_less)
  have x: "x = opstore st ! op_tail st"
    and xs: "xs = take (op_head st - Suc (op_tail st)) (drop (Suc (op_tail st)) (opstore st))"
    using piir_list_nonempty [OF assms(1) lt] assms(2) by simp_all
  show ?thesis
    using assms(1) lt x xs by (auto simp: piir_pop_def buf_get_def piir_inv_def piir_list_def Let_def)
qed

interpretation piirq: bounded_queue piir_qpush piir_qpop piir_list piir_room piir_inv
proof unfold_locales
  fix q x assume "piir_inv q" "0 < piir_room q"
  from piir_push_ok [OF this, of x] obtain q' where "piir_push (Some q) x = Some (Inr (), Some q')"
    and q': "piir_inv q'" "piir_list q' = piir_list q @ [x]" "piir_room q' = piir_room q - 1" by blast
  then have "piir_qpush x q = Some q'" by (simp add: piir_qpush_def)
  with q' show "\<exists>q'. piir_qpush x q = Some q' \<and> piir_inv q' \<and>
      piir_list q' = piir_list q @ [x] \<and> piir_room q' = piir_room q - 1" by blast
next
  fix q x assume "piir_inv q" "piir_room q = 0"
  then show "piir_qpush x q = None"
    by (simp add: piir_qpush_def piir_push_def piir_inv_def piir_room_def)
next
  fix q assume "piir_inv q" "piir_list q = []"
  then show "piir_qpop q = None"
    by (simp add: piir_qpop_def piir_list_empty_iff)
next
  fix q x xs assume inv: "piir_inv q" and l: "piir_list q = x # xs"
  then have "op_tail q \<noteq> op_head q" using piir_list_empty_iff [OF inv] by simp
  with piir_pop_ok [OF inv l] show "\<exists>q'. piir_qpop q = Some (x, q') \<and> piir_inv q' \<and> piir_list q' = xs"
    by (auto simp: piir_qpop_def)
qed

text \<open>
  Bytes pushed on a new bytecode queue come back in the order of the
  pushes and leave it empty, for every sequence of up to 4095 bytes.
\<close>

theorem piir_fifo:
  assumes "length bs \<le> PIIR_STACK_SIZE - 1"
  shows "\<exists>st. pushes piir_qpush bs piir_stack_zero = Some st \<and>
    fst (pops piir_qpop (length bs) st) = bs \<and>
    piir_list (snd (pops piir_qpop (length bs) st)) = []"
proof (rule piirq.fifo)
  show "piir_inv piir_stack_zero" "piir_list piir_stack_zero = []"
    by (simp_all add: piir_inv_def piir_list_def piir_stack_zero_def)
  show "length bs \<le> piir_room piir_stack_zero"
    using assms by (simp add: piir_room_def piir_stack_zero_def)
qed

theorem piir_fifo_witness:
  "length [4, 2, - 7 :: s8] \<le> PIIR_STACK_SIZE - 1 \<and>
   (\<exists>st. pushes piir_qpush [4, 2, - 7] piir_stack_zero = Some st \<and>
     fst (pops piir_qpop (length [4, 2, - 7 :: s8]) st) = [4, 2, - 7] \<and>
     piir_list (snd (pops piir_qpop (length [4, 2, - 7 :: s8]) st)) = [])"
  using piir_fifo [of "[4, 2, - 7]"] by simp

end
