(* ===== verification/Np_Lex.thy ===== *)
theory Np_Lex
  imports Np_Symbol Np_Piir "HOL-Library.Monad_Syntax"
begin

text \<open>
  The lexer of the Pirho compiler, \<^verbatim>\<open>np/core/np_lex.c\<close>, with the compiler's unit of work
  (\<^verbatim>\<open>struct np_work\<close> of \<^verbatim>\<open>include/os/np.h\<close>).  Functions return \<open>None\<close> where the code would read
  outside the source buffer.  The characters a unit of work still has to deliver, \<open>input\<close>, abstract
  from the source index and the one-character cache; the lexer refines \<open>scan_spec\<close>, a function of
  that list.
\<close>

section \<open>Data\<close>

datatype tt =
    TT_NONE | TT_LPAREN | TT_RPAREN | TT_IDENT | TT_COMMA | TT_STAR | TT_MINUS | TT_PLUS
  | TT_SLASH | TT_EQUALS | TT_GT | TT_LT | TT_LBRACK | TT_RBRACK | TT_COLON
  | TT_U8 | TT_U16 | TT_U32 | TT_U64 | TT_I8 | TT_I16 | TT_I32 | TT_I64 | TT_STR
  | TT_NUMBER | TT_BEGIN | TT_PROC | TT_END | TT_RETURN

text \<open>The union of \<^verbatim>\<open>struct lex_token\<close>: an integer or a string pointer.\<close>

datatype tokval = TVal u64 | TStr "heapstr option"

record lex_token =
  token :: tt
  tokval :: tokval

record np_work =
  source :: "char list"
  source_size :: nat
  line_no :: nat
  piir_stk :: "piir_stack option"
  source_idx :: nat
  lex_tok :: lex_token
  symlist :: symlist
  work_mem :: "ptrbox option"
  ccache :: char
  in_func :: bool
  begin_depth :: u8
  heap :: kheap

abbreviation LEX_EOF :: int where "LEX_EOF \<equiv> - 2"
abbreviation MAX_ID_LEN :: nat where "MAX_ID_LEN \<equiv> 32"
abbreviation LEX_MAX_STRLEN :: nat where "LEX_MAX_STRLEN \<equiv> 4096"

section \<open>Character classes\<close>

definition to_lower :: "char \<Rightarrow> int" where
  "to_lower c = schar c OR 0x20"

definition is_alpha :: "char \<Rightarrow> bool" where
  "is_alpha c \<longleftrightarrow> to_lower c \<ge> schar (CHR ''a'') \<and> to_lower c \<le> schar (CHR ''z'')"

definition is_num_c :: "char \<Rightarrow> bool" where
  "is_num_c c \<longleftrightarrow> schar c \<ge> schar (CHR ''0'') \<and> schar c \<le> schar (CHR ''9'')"

definition is_space :: "char \<Rightarrow> bool" where
  "is_space c \<longleftrightarrow> c = CHR '' '' \<or> c = CHR 0x09 \<or> c = CHR 0x0C \<or> c = CHR 0x0A"

section \<open>Reading characters\<close>

definition lex_pop :: "np_work \<Rightarrow> (char \<times> np_work) option" where
  "lex_pop w =
     (if ccache w \<noteq> NUL then Some (ccache w, w\<lparr>ccache := NUL\<rparr>)
      else if source_idx w \<ge> source_size w then Some (NUL, w)
      else
        (case buf_get (source w) (source_idx w) of
           None \<Rightarrow> None
         | Some c \<Rightarrow> Some (c, w\<lparr>source_idx := source_idx w + 1\<rparr>)))"

definition unread :: "np_work \<Rightarrow> nat" where
  "unread w = (if ccache w \<noteq> NUL then 1 else 0) + (source_size w - source_idx w)"

lemma lex_pop_unread:
  "lex_pop w = Some (c, w') \<Longrightarrow> unread w' \<le> unread w \<and> (c \<noteq> NUL \<longrightarrow> unread w' < unread w)"
  by (auto simp: lex_pop_def unread_def split: if_splits option.splits)

section \<open>Keywords and identifiers\<close>

text \<open>\<^verbatim>\<open>lex_cmp_itype\<close> leaves the token as it was when no type name matches.\<close>

definition lex_cmp_itype :: "char list \<Rightarrow> lex_token \<Rightarrow> lex_token" where
  "lex_cmp_itype tokstr res =
     (if take 1 tokstr = ''u'' then
        (if streq tokstr ''u8'' then res\<lparr>token := TT_U8\<rparr>
         else if streq tokstr ''u16'' then res\<lparr>token := TT_U16\<rparr>
         else if streq tokstr ''u32'' then res\<lparr>token := TT_U32\<rparr>
         else if streq tokstr ''u64'' then res\<lparr>token := TT_U64\<rparr>
         else res)
      else if take 1 tokstr = ''i'' then
        (if streq tokstr ''i8'' then res\<lparr>token := TT_I8\<rparr>
         else if streq tokstr ''i16'' then res\<lparr>token := TT_I16\<rparr>
         else if streq tokstr ''i32'' then res\<lparr>token := TT_I32\<rparr>
         else if streq tokstr ''i64'' then res\<lparr>token := TT_I64\<rparr>
         else res)
      else res)"

definition lex_cmptok :: "char list \<Rightarrow> lex_token \<Rightarrow> int \<times> lex_token" where
  "lex_cmptok tokstr res =
     (if take 1 tokstr = ''r'' then
        (0, if streq tokstr ''return'' then res\<lparr>token := TT_RETURN\<rparr> else res)
      else if take 1 tokstr = ''b'' then
        (0, if streq tokstr ''begin'' then res\<lparr>token := TT_BEGIN\<rparr> else res)
      else if take 1 tokstr = ''e'' then
        (0, if streq tokstr ''end'' then res\<lparr>token := TT_END\<rparr> else res)
      else if take 1 tokstr = ''p'' then
        (0, if streq tokstr ''proc'' then res\<lparr>token := TT_PROC\<rparr> else res)
      else if take 1 tokstr = ''u'' \<or> take 1 tokstr = ''i'' then (0, lex_cmp_itype tokstr res)
      else (0, res\<lparr>token := TT_IDENT\<rparr>))"

text \<open>The \<^verbatim>\<open>do\<close> loop of \<^verbatim>\<open>lex_matchstr\<close>; \<open>None\<close> in the result is the identifier that is too long.\<close>

function matchstr_loop :: "np_work \<Rightarrow> char \<Rightarrow> char list \<Rightarrow> (char list option \<times> np_work) option" where
  "matchstr_loop w c idb =
     (if length idb \<ge> MAX_ID_LEN then Some (None, w)
      else if \<not> is_alpha c \<and> \<not> is_num_c c then Some (Some idb, w\<lparr>ccache := c\<rparr>)
      else
        (case lex_pop w of
           None \<Rightarrow> None
         | Some (c', w) \<Rightarrow>
             if c' = NUL then Some (Some (idb @ [c]), w) else matchstr_loop w c' (idb @ [c])))"
  by pat_completeness auto
termination
  by (relation "measure (\<lambda>(w, c, idb). MAX_ID_LEN - length idb)") auto

declare matchstr_loop.simps [simp del]

definition work_strdup :: "char list \<Rightarrow> np_work \<Rightarrow> heapstr option \<times> np_work" where
  "work_strdup s w =
     (case ptrbox_strdup (Some s) (work_mem w) (heap w) of
        (p, box, h) \<Rightarrow> (p, w\<lparr>work_mem := box, heap := h\<rparr>))"

definition lex_matchstr :: "np_work \<Rightarrow> char \<Rightarrow> lex_token \<Rightarrow> (int \<times> lex_token \<times> np_work) option" where
  "lex_matchstr w c res =
     do {
       (r, w) \<leftarrow> matchstr_loop w c [];
       case r of
         None \<Rightarrow> Some (- 1, res, w)
       | Some idb \<Rightarrow>
           let (p, w) = work_strdup idb w;
               (error, res) = lex_cmptok idb (res\<lparr>tokval := TStr p\<rparr>)
           in Some (error, res, w)
     }"

section \<open>Operators, numbers and strings\<close>

text \<open>\<open>None\<close> is the return value -1; otherwise the token type is returned and stored.\<close>

definition lex_arithop :: "char \<Rightarrow> tt option" where
  "lex_arithop c =
     (if c = CHR ''*'' then Some TT_STAR
      else if c = CHR ''-'' then Some TT_MINUS
      else if c = CHR ''+'' then Some TT_PLUS
      else if c = CHR ''/'' then Some TT_SLASH
      else None)"

definition lex_cmpop :: "char \<Rightarrow> tt option" where
  "lex_cmpop c =
     (if c = CHR ''>'' then Some TT_GT
      else if c = CHR ''<'' then Some TT_LT
      else None)"

lemma is_num_c_NUL [simp]: "\<not> is_num_c NUL"
  by (simp add: is_num_c_def schar_def uchar_def)

function nomnum_loop :: "np_work \<Rightarrow> char \<Rightarrow> u64 \<Rightarrow> (u64 \<times> np_work) option" where
  "nomnum_loop w c num =
     (if is_num_c c then
        (case lex_pop w of
           None \<Rightarrow> None
         | Some (c', w) \<Rightarrow>
             nomnum_loop w c' (num * 10 + word_of_int (schar c - schar (CHR ''0''))))
      else Some (num, w))"
  by pat_completeness auto
termination
  by (relation "measure (\<lambda>(w, c, num). (if c = NUL then 0 else 1) + unread w)")
    (auto dest!: lex_pop_unread)

declare nomnum_loop.simps [simp del]

definition lex_nomnum :: "np_work \<Rightarrow> char \<Rightarrow> lex_token \<Rightarrow> (int \<times> lex_token \<times> np_work) option" where
  "lex_nomnum w c res =
     do {
       (num, w) \<leftarrow> nomnum_loop w c 0;
       Some (0, res\<lparr>token := TT_NUMBER, tokval := TVal num\<rparr>, w)
     }"

text \<open>The scan of \<^verbatim>\<open>lex_nomstr\<close>; \<open>None\<close> in the result: too long, or the input ended.\<close>

function nomstr_loop :: "np_work \<Rightarrow> char list \<Rightarrow> (char list option \<times> np_work) option" where
  "nomstr_loop w buf =
     (case lex_pop w of
        None \<Rightarrow> None
      | Some (c, w) \<Rightarrow>
          if c = NUL then Some (None, w)
          else if length buf \<ge> LEX_MAX_STRLEN - 1 then Some (None, w)
          else if c = CHR ''\"'' then Some (Some buf, w)
          else nomstr_loop w (buf @ [c]))"
  by pat_completeness auto
termination
  by (relation "measure (\<lambda>(w, buf). LEX_MAX_STRLEN - length buf)") auto

declare nomstr_loop.simps [simp del]

definition lex_nomstr :: "np_work \<Rightarrow> lex_token \<Rightarrow> (int \<times> lex_token \<times> np_work) option" where
  "lex_nomstr w res =
     (case kalloc LEX_MAX_STRLEN (heap w) of
        (None, h) \<Rightarrow> Some (- 1, res, w\<lparr>heap := h\<rparr>)
      | (Some strbuf, h) \<Rightarrow>
          do {
            (r, w) \<leftarrow> nomstr_loop (w\<lparr>heap := h\<rparr>) [];
            let (retval, res, w) =
              (case r of
                 Some s \<Rightarrow> let (p, w) = work_strdup s w in (0, res\<lparr>tokval := TStr p\<rparr>, w)
               | None \<Rightarrow> (- 1, res, w));
            Some (retval, res\<lparr>token := TT_STR\<rparr>, w\<lparr>heap := kfree (Some strbuf) (heap w)\<rparr>)
          })"

section \<open>Tokens\<close>

function skip_space :: "np_work \<Rightarrow> (char \<times> np_work) option" where
  "skip_space w =
     (case lex_pop w of
        None \<Rightarrow> None
      | Some (c, w) \<Rightarrow>
          if c = NUL then Some (c, w)
          else
            (let w = (if c = CHR 0x0A then w\<lparr>line_no := line_no w + 1\<rparr> else w)
             in if is_space c then skip_space w else Some (c, w)))"
  by pat_completeness auto
termination
  by (relation "measure unread") (auto dest!: lex_pop_unread simp: unread_def split: if_splits)

declare skip_space.simps [simp del]

definition lex_nom :: "np_work \<Rightarrow> lex_token \<Rightarrow> (int \<times> lex_token \<times> np_work) option" where
  "lex_nom w res =
     do {
       let res = res\<lparr>token := TT_NONE\<rparr>;
       (c, w) \<leftarrow> skip_space w;
       if c = NUL then Some (LEX_EOF, res, w)
       else if c = CHR ''('' then Some (0, res\<lparr>token := TT_LPAREN\<rparr>, w)
       else if c = CHR '')'' then Some (0, res\<lparr>token := TT_RPAREN\<rparr>, w)
       else if c = CHR '','' then Some (0, res\<lparr>token := TT_COMMA\<rparr>, w)
       else if c = CHR ''='' then Some (0, res\<lparr>token := TT_EQUALS\<rparr>, w)
       else if c = CHR ''['' then Some (0, res\<lparr>token := TT_LBRACK\<rparr>, w)
       else if c = CHR '']'' then Some (0, res\<lparr>token := TT_RBRACK\<rparr>, w)
       else if c = CHR '':'' then Some (0, res\<lparr>token := TT_COLON\<rparr>, w)
       else if c = CHR ''\"'' then lex_nomstr w res
       else if is_num_c c then map_option (\<lambda>(_, res, w). (0, res, w)) (lex_nomnum w c res)
       else
         case lex_arithop c of
           Some t \<Rightarrow> Some (0, res\<lparr>token := t\<rparr>, w)
         | None \<Rightarrow>
             (case lex_cmpop c of
                Some t \<Rightarrow> Some (0, res\<lparr>token := t\<rparr>, w)
              | None \<Rightarrow>
                  if \<not> is_alpha c then Some (- 1, res, w)
                  else
                    do {
                      (error, res, w) \<leftarrow> lex_matchstr w c res;
                      Some (if error = 0 then 0 else - 1, res, w)
                    })
     }"

text \<open>\<^verbatim>\<open>lex_init\<close> zeroes the lexer state.\<close>

definition lex_init :: "np_work \<Rightarrow> np_work" where
  "lex_init w = w\<lparr>source_idx := 0, lex_tok := \<lparr>token = TT_NONE, tokval = TVal 0\<rparr>\<rparr>"

section \<open>The remaining input\<close>

definition src_ok :: "np_work \<Rightarrow> bool" where
  "src_ok w \<longleftrightarrow> source_size w \<le> length (source w)"

definition input :: "np_work \<Rightarrow> char list" where
  "input w = (if ccache w = NUL then [] else [ccache w]) @
     drop (source_idx w) (take (source_size w) (source w))"

text \<open>A read changes the source index, the cached character and the line number only.\<close>

definition reads :: "np_work \<Rightarrow> np_work \<Rightarrow> bool" where
  "reads w w' \<longleftrightarrow> src_ok w' \<and>
     w' = w\<lparr>ccache := ccache w', source_idx := source_idx w', line_no := line_no w'\<rparr>"

lemma reads_refl: "src_ok w \<Longrightarrow> reads w w"
  by (simp add: reads_def)

lemma reads_fields:
  assumes "reads w w'"
  shows "source w' = source w" "source_size w' = source_size w" "piir_stk w' = piir_stk w"
    "lex_tok w' = lex_tok w" "symlist w' = symlist w" "work_mem w' = work_mem w"
    "in_func w' = in_func w" "begin_depth w' = begin_depth w" "heap w' = heap w" "src_ok w'"
proof -
  have "src_ok w'" and w': "w' = w\<lparr>ccache := ccache w', source_idx := source_idx w', line_no := line_no w'\<rparr>"
    using assms by (simp_all add: reads_def)
  then show "src_ok w'" by simp
  show "source w' = source w" "source_size w' = source_size w" "piir_stk w' = piir_stk w"
    "lex_tok w' = lex_tok w" "symlist w' = symlist w" "work_mem w' = work_mem w"
    "in_func w' = in_func w" "begin_depth w' = begin_depth w" "heap w' = heap w"
    by (subst w', simp)+
qed

lemma readsI:
  "src_ok w' \<Longrightarrow> source w' = source w \<Longrightarrow> source_size w' = source_size w \<Longrightarrow> piir_stk w' = piir_stk w \<Longrightarrow>
   lex_tok w' = lex_tok w \<Longrightarrow> symlist w' = symlist w \<Longrightarrow> work_mem w' = work_mem w \<Longrightarrow>
   in_func w' = in_func w \<Longrightarrow> begin_depth w' = begin_depth w \<Longrightarrow> heap w' = heap w \<Longrightarrow> reads w w'"
  by (cases w; cases w') (simp add: reads_def)

lemma reads_trans: "reads a b \<Longrightarrow> reads b c \<Longrightarrow> reads a c"
  by (rule readsI) (simp_all add: reads_fields)

lemma lex_pop_input:
  assumes "src_ok w"
  shows "\<exists>w'. lex_pop w = Some (case input w of [] \<Rightarrow> NUL | c # _ \<Rightarrow> c, w') \<and>
    input w' = tl (input w) \<and> ccache w' = NUL \<and> reads w w'"
proof (cases "ccache w \<noteq> NUL \<or> source_size w \<le> source_idx w")
  case True
  then show ?thesis using assms by (auto simp: lex_pop_def input_def reads_def src_ok_def)
next
  case False
  let ?s = "take (source_size w) (source w)"
  have "source_idx w < length ?s" using False assms by (simp add: src_ok_def)
  then have "drop (source_idx w) ?s = ?s ! source_idx w # drop (Suc (source_idx w)) ?s"
    by (rule Cons_nth_drop_Suc [symmetric])
  then show ?thesis
    using False assms by (auto simp: lex_pop_def input_def reads_def src_ok_def buf_get_def)
qed

lemma lex_pop_nil:
  assumes "src_ok w" and "input w = []"
  obtains w' where "lex_pop w = Some (NUL, w')" "input w' = []" "ccache w' = NUL" "reads w w'"
  using lex_pop_input [OF assms(1)] assms(2) by auto

lemma lex_pop_cons:
  assumes "src_ok w" and "input w = c # s"
  obtains w' where "lex_pop w = Some (c, w')" "input w' = s" "ccache w' = NUL" "reads w w'"
  using lex_pop_input [OF assms(1)] assms(2) by auto

lemma unread_length: "src_ok w \<Longrightarrow> unread w = length (input w)"
  by (simp add: unread_def input_def src_ok_def)

lemma put_back:
  assumes "src_ok w" and "ccache w = NUL" and "c \<noteq> NUL"
  shows "input (w\<lparr>ccache := c\<rparr>) = c # input w" and "reads w (w\<lparr>ccache := c\<rparr>)"
  using assms by (simp_all add: input_def reads_def src_ok_def)

section \<open>Reference scanner\<close>

definition is_alnum :: "char \<Rightarrow> bool" where
  "is_alnum c \<longleftrightarrow> is_alpha c \<or> is_num_c c"

text \<open>
  An identifier is a maximal run of letters and digits.  \<open>k\<close> characters of it have been read.
  At most 32 are accepted, and the last of 32 has to be the end of the input.
\<close>

definition ended :: "char list \<Rightarrow> bool" where
  "ended s \<longleftrightarrow> s = [] \<or> hd s = NUL"

definition ident_from :: "nat \<Rightarrow> char list \<Rightarrow> char list option \<times> char list" where
  "ident_from k s =
     (let run = takeWhile is_alnum s; rest = dropWhile is_alnum s
      in if k + length run < MAX_ID_LEN \<or> k + length run = MAX_ID_LEN \<and> ended rest
         then (Some run, if ended rest then tl rest else rest)
         else (None, drop (MAX_ID_LEN + 1 - k) s))"

definition dec_val :: "char list \<Rightarrow> nat" where
  "dec_val ds = foldl (\<lambda>n c. 10 * n + nat (schar c - schar (CHR ''0''))) 0 ds"

definition in_str :: "char \<Rightarrow> bool" where
  "in_str c \<longleftrightarrow> c \<noteq> CHR ''\"'' \<and> c \<noteq> NUL"

definition str_from :: "nat \<Rightarrow> char list \<Rightarrow> char list option \<times> char list" where
  "str_from k s =
     (let run = takeWhile in_str s; rest = dropWhile in_str s
      in if k + length run < LEX_MAX_STRLEN - 1
         then (if ended rest then None else Some run, tl rest)
         else (None, drop (LEX_MAX_STRLEN - k) s))"

definition punct_table :: "(char \<times> tt) list" where
  "punct_table =
     [(CHR ''('', TT_LPAREN), (CHR '')'', TT_RPAREN), (CHR '','', TT_COMMA), (CHR ''='', TT_EQUALS),
      (CHR ''['', TT_LBRACK), (CHR '']'', TT_RBRACK), (CHR '':'', TT_COLON), (CHR ''*'', TT_STAR),
      (CHR ''-'', TT_MINUS), (CHR ''+'', TT_PLUS), (CHR ''/'', TT_SLASH), (CHR ''>'', TT_GT),
      (CHR ''<'', TT_LT)]"

definition keyword_table :: "(char list \<times> tt) list" where
  "keyword_table =
     [(''return'', TT_RETURN), (''begin'', TT_BEGIN), (''end'', TT_END), (''proc'', TT_PROC),
      (''u8'', TT_U8), (''u16'', TT_U16), (''u32'', TT_U32), (''u64'', TT_U64),
      (''i8'', TT_I8), (''i16'', TT_I16), (''i32'', TT_I32), (''i64'', TT_I64)]"

text \<open>
  A word that is no keyword is an identifier, unless it starts as a keyword may: then it has no
  token type.
\<close>

definition word_class :: "char list \<Rightarrow> tt" where
  "word_class u =
     (case map_of keyword_table u of
        Some t \<Rightarrow> t
      | None \<Rightarrow> if u \<noteq> [] \<and> hd u \<in> set ''rbepui'' then TT_NONE else TT_IDENT)"

datatype lexval = LKeep | LNum u64 | LStr "char list"

text \<open>\<open>mem\<close>: the string buffer can be allocated.\<close>

definition scan_spec :: "bool \<Rightarrow> char list \<Rightarrow> int \<times> tt \<times> lexval \<times> char list" where
  "scan_spec mem s =
     (case dropWhile is_space s of
        [] \<Rightarrow> (LEX_EOF, TT_NONE, LKeep, [])
      | c # s' \<Rightarrow>
          if c = NUL then (LEX_EOF, TT_NONE, LKeep, s')
          else if c \<in> fst ` set punct_table then (0, the (map_of punct_table c), LKeep, s')
          else if c = CHR ''\"'' then
            (if mem then
               (case str_from 0 s' of
                  (Some t, r) \<Rightarrow> (0, TT_STR, LStr t, r) | (None, r) \<Rightarrow> (- 1, TT_STR, LKeep, r))
             else (- 1, TT_NONE, LKeep, s'))
          else if is_num_c c then
            (0, TT_NUMBER, LNum (word_of_nat (dec_val (takeWhile is_num_c (c # s')))),
             tl (dropWhile is_num_c (c # s')))
          else if is_alpha c then
            (case ident_from 0 (c # s') of
               (Some u, r) \<Rightarrow> (0, word_class u, LStr u, r) | (None, r) \<Rightarrow> (- 1, TT_NONE, LKeep, r))
          else (- 1, TT_NONE, LKeep, s'))"

section \<open>The lexer refines the scanner\<close>

lemma ident_from_cons:
  "is_alnum c \<Longrightarrow> k < MAX_ID_LEN \<Longrightarrow>
   ident_from k (c # s) = (case ident_from (Suc k) s of (r, t) \<Rightarrow> (map_option ((#) c) r, t))"
  by (simp add: ident_from_def Let_def drop_Cons')

lemma matchstr_loop_spec:
  "src_ok w \<Longrightarrow> ccache w = NUL \<Longrightarrow> c \<noteq> NUL \<Longrightarrow> length idb \<le> MAX_ID_LEN \<Longrightarrow>
   ident_from (length idb) (c # input w) = (r, rest) \<Longrightarrow>
   \<exists>w'. matchstr_loop w c idb = Some (map_option ((@) idb) r, w') \<and> input w' = rest \<and> reads w w'"
proof (induction w c idb arbitrary: r rest rule: matchstr_loop.induct)
  case (1 w c idb)
  note prems = "1.prems"
  consider (full) "length idb \<ge> MAX_ID_LEN" | (stop) "length idb < MAX_ID_LEN" "\<not> is_alnum c"
    | (go) "length idb < MAX_ID_LEN" "is_alnum c" by linarith
  then show ?case
  proof cases
    case full
    then have "r = None" "rest = input w"
      using prems(3-5) by (auto simp: ident_from_def ended_def Let_def split: if_splits)
    then show ?thesis
      using full prems(1) by (subst matchstr_loop.simps) (simp add: reads_refl)
  next
    case stop
    then have "r = Some []" "rest = c # input w"
      using prems(3,5) by (auto simp: ident_from_def ended_def Let_def)
    then show ?thesis
      using stop put_back [OF prems(1-3)]
      by (subst matchstr_loop.simps) (auto simp: is_alnum_def)
  next
    case go
    obtain r' where r': "ident_from (Suc (length idb)) (input w) = (r', rest)" "r = map_option ((#) c) r'"
      using prems(5) ident_from_cons [OF go(2,1), of "input w"] by (auto split: prod.splits)
    from lex_pop_input [OF prems(1)] obtain w1 where
      w1: "lex_pop w = Some (case input w of [] \<Rightarrow> NUL | c # _ \<Rightarrow> c, w1)" "input w1 = tl (input w)"
        "ccache w1 = NUL" "reads w w1" by blast
    show ?thesis
    proof (cases "ended (input w)")
      case True
      then have "r' = Some [] \<and> rest = tl (input w)"
        using r'(1) go(1) by (cases "input w")
          (auto simp: ident_from_def Let_def ended_def is_alnum_def is_alpha_def to_lower_def
            schar_def uchar_def split: if_splits)
      moreover have "(case input w of [] \<Rightarrow> NUL | c # _ \<Rightarrow> c) = NUL"
        using True by (cases "input w") (auto simp: ended_def)
      ultimately show ?thesis
        using go w1 r'(2) by (subst matchstr_loop.simps) (auto simp: is_alnum_def)
    next
      case False
      then obtain d s where ds: "input w = d # s" "d \<noteq> NUL" by (cases "input w") (auto simp: ended_def)
      have "\<exists>w'. matchstr_loop w1 d (idb @ [c]) = Some (map_option ((@) (idb @ [c])) r', w') \<and>
          input w' = rest \<and> reads w1 w'"
        using w1 ds go r'(1) by (intro "1.IH") (auto simp: is_alnum_def reads_fields)
      then obtain w' where w': "matchstr_loop w1 d (idb @ [c]) = Some (map_option ((@) (idb @ [c])) r', w')"
        "input w' = rest" "reads w1 w'" by blast
      moreover have "matchstr_loop w c idb = matchstr_loop w1 d (idb @ [c])"
        using go w1(1) ds by (subst matchstr_loop.simps) (auto simp: is_alnum_def)
      ultimately show ?thesis
        using r'(2) reads_trans [OF w1(4)] by (cases r') auto
    qed
  qed
qed

lemma nomnum_loop_spec:
  "src_ok w \<Longrightarrow>
   \<exists>w'. nomnum_loop w c (word_of_nat n) =
       Some (word_of_nat (foldl (\<lambda>n c. 10 * n + nat (schar c - schar (CHR ''0''))) n
               (takeWhile is_num_c (c # input w))), w') \<and>
     input w' = (if is_num_c c then tl (dropWhile is_num_c (input w)) else input w) \<and> reads w w'"
proof (induction w c "word_of_nat n :: u64" arbitrary: n rule: nomnum_loop.induct)
  case (1 w c)
  show ?case
  proof (cases "is_num_c c")
    case False
    then show ?thesis using "1.prems" by (subst nomnum_loop.simps) (simp add: reads_refl)
  next
    case True
    let ?d = "nat (schar c - schar (CHR ''0''))"
    have "0 \<le> schar c - schar (CHR ''0'')" using True by (simp add: is_num_c_def)
    then have d: "(word_of_int (schar c - schar (CHR ''0'')) :: u64) = word_of_nat ?d"
      by (metis int_nat_eq of_int_of_nat_eq)
    from lex_pop_input [OF "1.prems"] obtain w1 where
      w1: "lex_pop w = Some (case input w of [] \<Rightarrow> NUL | c # _ \<Rightarrow> c, w1)" "input w1 = tl (input w)"
        "reads w w1" by blast
    let ?c = "case input w of [] \<Rightarrow> NUL | c # _ \<Rightarrow> c"
    have num: "word_of_nat n * 10 + word_of_int (schar c - schar (CHR ''0'')) =
        (word_of_nat (10 * n + ?d) :: u64)" unfolding d by simp
    from "1.hyps" [OF True w1(1) refl num reads_fields(10) [OF w1(3)]] obtain w' where
      w': "nomnum_loop w1 ?c (word_of_nat (10 * n + ?d)) =
          Some (word_of_nat (foldl (\<lambda>n c. 10 * n + nat (schar c - schar (CHR ''0''))) (10 * n + ?d)
               (takeWhile is_num_c (?c # input w1))), w')"
      "input w' = (if is_num_c ?c then tl (dropWhile is_num_c (input w1)) else input w1)"
      "reads w1 w'" by blast
    have "nomnum_loop w c (word_of_nat n) = nomnum_loop w1 ?c (word_of_nat (10 * n + ?d))"
      using True w1(1) num by (subst nomnum_loop.simps) (simp add: mult.commute)
    then show ?thesis
      using w' w1(2) True reads_trans [OF w1(3) w'(3)] by (cases "input w") auto
  qed
qed

lemma str_from_cons:
  "in_str c \<Longrightarrow> k < LEX_MAX_STRLEN - 1 \<Longrightarrow>
   str_from k (c # s) = (case str_from (Suc k) s of (r, t) \<Rightarrow> (map_option ((#) c) r, t))"
  by (simp add: str_from_def Let_def drop_Cons')

lemma nomstr_loop_spec:
  "src_ok w \<Longrightarrow> length buf \<le> LEX_MAX_STRLEN - 1 \<Longrightarrow> str_from (length buf) (input w) = (r, rest) \<Longrightarrow>
   \<exists>w'. nomstr_loop w buf = Some (map_option ((@) buf) r, w') \<and> input w' = rest \<and> reads w w'"
proof (induction w buf arbitrary: r rest rule: nomstr_loop.induct)
  case (1 w buf)
  note prems = "1.prems"
  from lex_pop_input [OF prems(1)] obtain w1 where
    w1: "lex_pop w = Some (case input w of [] \<Rightarrow> NUL | c # _ \<Rightarrow> c, w1)" "input w1 = tl (input w)"
      "reads w w1" by blast
  show ?case
  proof (cases "ended (input w) \<or> length buf = LEX_MAX_STRLEN - 1 \<or> \<not> in_str (hd (input w))")
    case True
    then show ?thesis
      using prems(2,3) w1
      by (cases "input w"; subst nomstr_loop.simps)
        (auto simp: str_from_def ended_def in_str_def Let_def split: if_splits)
  next
    case False
    then obtain c s where cs: "input w = c # s" "c \<noteq> NUL" "in_str c" and k: "length buf < LEX_MAX_STRLEN - 1"
      using prems(2) by (cases "input w") (auto simp: ended_def)
    obtain r' where r': "str_from (Suc (length buf)) s = (r', rest)" "r = map_option ((#) c) r'"
      using prems(3) str_from_cons [OF cs(3) k, of s] cs(1) by (auto split: prod.splits)
    have "\<exists>w'. nomstr_loop w1 (buf @ [c]) = Some (map_option ((@) (buf @ [c])) r', w') \<and>
        input w' = rest \<and> reads w1 w'"
      using w1 cs k r'(1) by (intro "1.IH") (auto simp: in_str_def reads_fields)
    moreover have "nomstr_loop w buf = nomstr_loop w1 (buf @ [c])"
      using w1(1) cs k by (subst nomstr_loop.simps) (auto simp: in_str_def)
    ultimately show ?thesis
      using r'(2) reads_trans [OF w1(3)] by (cases r') auto
  qed
qed

lemma reads_line: "reads w (w\<lparr>line_no := l\<rparr>) \<longleftrightarrow> src_ok w" "input (w\<lparr>line_no := l\<rparr>) = input w"
  "src_ok (w\<lparr>line_no := l\<rparr>) \<longleftrightarrow> src_ok w"
  by (auto simp: reads_def input_def src_ok_def)

lemma skip_space_spec:
  "src_ok w \<Longrightarrow>
   \<exists>w'. skip_space w = Some (case dropWhile is_space (input w) of [] \<Rightarrow> NUL | c # _ \<Rightarrow> c, w') \<and>
     input w' = tl (dropWhile is_space (input w)) \<and> ccache w' = NUL \<and> reads w w'"
proof (induction w rule: skip_space.induct)
  case (1 w)
  from lex_pop_input [OF "1.prems"] obtain w1 where
    w1: "lex_pop w = Some (case input w of [] \<Rightarrow> NUL | c # _ \<Rightarrow> c, w1)" "input w1 = tl (input w)"
      "ccache w1 = NUL" "reads w w1" by blast
  show ?case
  proof (cases "input w")
    case Nil
    then show ?thesis using w1 by (subst skip_space.simps) auto
  next
    case (Cons c s)
    let ?w = "if c = CHR 0x0A then w1\<lparr>line_no := line_no w1 + 1\<rparr> else w1"
    have w: "src_ok ?w" "input ?w = s" "ccache ?w = NUL" "reads w ?w"
      using w1 Cons reads_trans [OF w1(4)] by (auto simp: reads_line reads_fields)
    show ?thesis
    proof (cases "is_space c")
      case True
      then have "c \<noteq> NUL" by (auto simp: is_space_def)
      then have "skip_space w = skip_space ?w"
        using True w1(1) Cons by (subst skip_space.simps) simp
      moreover have "\<exists>w'. skip_space ?w =
            Some (case dropWhile is_space (input ?w) of [] \<Rightarrow> NUL | c # _ \<Rightarrow> c, w') \<and>
          input w' = tl (dropWhile is_space (input ?w)) \<and> ccache w' = NUL \<and> reads ?w w'"
        by (rule "1.IH" [OF w1(1)]) (use Cons True \<open>c \<noteq> NUL\<close> w(1) in auto)
      ultimately show ?thesis
        using Cons True w(2) reads_trans [OF w(4)] by auto
    next
      case False
      then show ?thesis
        using w1 w Cons by (subst skip_space.simps) (auto simp: is_space_def Let_def)
    qed
  qed
qed

text \<open>Memory, and what a token scan may change of a unit of work.\<close>

definition mem_ok :: "np_work \<Rightarrow> bool" where
  "mem_ok w \<longleftrightarrow> k_init (heap w) \<and> (\<forall>n. \<not> k_oom (heap w) n) \<and> work_mem w \<noteq> None"

definition str_mem :: "np_work \<Rightarrow> bool" where
  "str_mem w \<longleftrightarrow> fst (kalloc LEX_MAX_STRLEN (heap w)) \<noteq> None"

definition lexes :: "np_work \<Rightarrow> np_work \<Rightarrow> bool" where
  "lexes w w' \<longleftrightarrow> src_ok w' \<and> source w' = source w \<and> source_size w' = source_size w \<and>
     piir_stk w' = piir_stk w \<and> symlist w' = symlist w \<and> in_func w' = in_func w \<and>
     begin_depth w' = begin_depth w \<and> (mem_ok w \<longrightarrow> mem_ok w')"

definition val_ok :: "bool \<Rightarrow> lexval \<Rightarrow> tokval \<Rightarrow> tokval \<Rightarrow> bool" where
  "val_ok m v old new \<longleftrightarrow>
     (case v of
        LKeep \<Rightarrow> new = old
      | LNum n \<Rightarrow> new = TVal n
      | LStr s \<Rightarrow> (\<exists>a. new = TStr (Some (a, s))) \<or> \<not> m \<and> new = TStr None)"

lemma reads_lexes: "reads w w' \<Longrightarrow> lexes w w'"
  by (auto simp: lexes_def mem_ok_def reads_fields)

lemma lexes_trans: "lexes a b \<Longrightarrow> lexes b c \<Longrightarrow> lexes a c"
  by (auto simp: lexes_def)

lemma reads_mem: "reads w w' \<Longrightarrow> mem_ok w' = mem_ok w" "reads w w' \<Longrightarrow> str_mem w' = str_mem w"
  by (auto simp: mem_ok_def str_mem_def reads_fields)

lemma input_heap [simp]:
  "input (w\<lparr>heap := h\<rparr>) = input w" "src_ok (w\<lparr>heap := h\<rparr>) = src_ok w"
  "input (w\<lparr>work_mem := b\<rparr>) = input w" "src_ok (w\<lparr>work_mem := b\<rparr>) = src_ok w"
  by (simp_all add: input_def src_ok_def)

lemma kalloc_mem:
  "kalloc sz h = (p, h') \<Longrightarrow> k_init h \<Longrightarrow> \<forall>n. \<not> k_oom h n \<Longrightarrow> 0 < sz \<Longrightarrow>
   p \<noteq> None \<and> k_init h' \<and> (\<forall>n. \<not> k_oom h' n)"
  by (auto simp: kalloc_def Let_def split: if_splits)

lemma ptrbox_alloc_mem:
  assumes "ptrbox_alloc len (Some b) h = (p, box, h')" and "k_init h" and "\<forall>n. \<not> k_oom h n" and "0 < len"
  shows "p \<noteq> None \<and> box \<noteq> None \<and> k_init h' \<and> (\<forall>n. \<not> k_oom h' n)"
  using assms
  by (auto simp: ptrbox_alloc_def sizeof_ptrbox_entry_def kalloc_def Let_def
      split: prod.splits option.splits if_splits)

lemma work_strdup_spec:
  assumes "work_strdup s w = (p, w')" and "src_ok w"
  shows "input w' = input w" and "lexes w w'" and "val_ok (mem_ok w) (LStr s) old (TStr p)"
proof -
  obtain box h where d: "ptrbox_strdup (Some s) (work_mem w) (heap w) = (p, box, h)"
    and w': "w' = w\<lparr>work_mem := box, heap := h\<rparr>"
    using assms(1) by (auto simp: work_strdup_def split: prod.splits)
  then show "input w' = input w" by simp
  have p: "p = None \<or> (\<exists>a. p = Some (a, s))"
    using d by (auto simp: ptrbox_strdup_def Let_def split: option.splits prod.splits)
  have "mem_ok w \<Longrightarrow> p \<noteq> None \<and> mem_ok w'"
  proof -
    assume m: "mem_ok w"
    then obtain b where b: "work_mem w = Some b" by (auto simp: mem_ok_def)
    obtain q bx g where a: "ptrbox_alloc (length s + 1) (Some b) (heap w) = (q, bx, g)"
      by (cases "ptrbox_alloc (length s + 1) (Some b) (heap w)")
    from ptrbox_alloc_mem [OF a] m have "q \<noteq> None \<and> bx \<noteq> None \<and> k_init g \<and> (\<forall>n. \<not> k_oom g n)"
      by (simp add: mem_ok_def)
    with a b d w' show ?thesis
      by (auto simp: ptrbox_strdup_def Let_def mem_ok_def)
  qed
  then show "lexes w w'" "val_ok (mem_ok w) (LStr s) old (TStr p)"
    using w' p assms(2) by (auto simp: lexes_def val_ok_def)
qed

lemma is_alnum_NUL [simp]: "\<not> is_alnum NUL"
  by (simp add: is_alnum_def is_alpha_def to_lower_def schar_def uchar_def)

lemma word_class_simps:
  "word_class (CHR ''r'' # t) = (if t = ''eturn'' then TT_RETURN else TT_NONE)"
  "word_class (CHR ''b'' # t) = (if t = ''egin'' then TT_BEGIN else TT_NONE)"
  "word_class (CHR ''e'' # t) = (if t = ''nd'' then TT_END else TT_NONE)"
  "word_class (CHR ''p'' # t) = (if t = ''roc'' then TT_PROC else TT_NONE)"
  "word_class (CHR ''u'' # t) =
     (if t = ''8'' then TT_U8 else if t = ''16'' then TT_U16 else if t = ''32'' then TT_U32
      else if t = ''64'' then TT_U64 else TT_NONE)"
  "word_class (CHR ''i'' # t) =
     (if t = ''8'' then TT_I8 else if t = ''16'' then TT_I16 else if t = ''32'' then TT_I32
      else if t = ''64'' then TT_I64 else TT_NONE)"
  "c \<notin> set ''rbepui'' \<Longrightarrow> word_class (c # t) = TT_IDENT"
  by (simp_all add: word_class_def keyword_table_def)

lemma lex_cmptok_spec:
  assumes "NUL \<notin> set u" and "token res = TT_NONE"
  shows "lex_cmptok u res = (0, res\<lparr>token := word_class u\<rparr>)"
proof (cases u)
  case Nil
  then show ?thesis by (simp add: lex_cmptok_def word_class_def keyword_table_def)
next
  case (Cons c t)
  have keep: "res\<lparr>token := TT_NONE\<rparr> = res" using assms(2) by (cases res) simp
  have t: "NUL \<notin> set t" using assms(1) Cons by simp
  consider "c = CHR ''r''" | "c = CHR ''b''" | "c = CHR ''e''" | "c = CHR ''p''" | "c = CHR ''u''"
    | "c = CHR ''i''" | "c \<notin> set ''rbepui''" by auto
  then show ?thesis
    unfolding Cons lex_cmptok_def lex_cmp_itype_def
    by cases (simp_all add: streq_iff t keep word_class_simps)
qed

lemma ident_from_NUL: "ident_from k s = (Some u, rest) \<Longrightarrow> NUL \<notin> set u"
  by (auto simp: ident_from_def Let_def dest: set_takeWhileD split: if_splits)

lemma lex_matchstr_spec:
  assumes "src_ok w" and "ccache w = NUL" and "c \<noteq> NUL" and "token res = TT_NONE"
    and "ident_from 0 (c # input w) = (r, rest)"
  shows "\<exists>tok' w'. lex_matchstr w c res =
      Some (case r of None \<Rightarrow> - 1 | Some _ \<Rightarrow> 0, tok', w') \<and>
    token tok' = (case r of None \<Rightarrow> TT_NONE | Some u \<Rightarrow> word_class u) \<and>
    val_ok (mem_ok w) (case r of None \<Rightarrow> LKeep | Some u \<Rightarrow> LStr u) (tokval res) (tokval tok') \<and>
    input w' = rest \<and> lexes w w'"
proof -
  from matchstr_loop_spec [OF assms(1-3), of "[]"] assms(5) obtain w1 where
    w1: "matchstr_loop w c [] = Some (map_option ((@) []) r, w1)" "input w1 = rest" "reads w w1" by auto
  show ?thesis
  proof (cases r)
    case None
    then show ?thesis using w1 assms(4) by (simp add: lex_matchstr_def val_ok_def reads_lexes)
  next
    case (Some u)
    obtain p w' where d: "work_strdup u w1 = (p, w')" by fastforce
    note d' = work_strdup_spec [OF d reads_fields(10) [OF w1(3)]]
    have "NUL \<notin> set u" using ident_from_NUL assms(5) Some by blast
    then have "lex_matchstr w c res = Some (0, res\<lparr>tokval := TStr p, token := word_class u\<rparr>, w')"
      using w1 Some d assms(4) by (simp add: lex_matchstr_def lex_cmptok_spec)
    then show ?thesis
      using Some d' w1 reads_mem(1) [OF w1(3)] lexes_trans [OF reads_lexes [OF w1(3)]] by auto
  qed
qed

lemma lex_nomstr_spec:
  assumes "src_ok w" and "token res = TT_NONE" and "str_from 0 (input w) = (r, rest)" and "str_mem w"
  shows "\<exists>tok' w'. lex_nomstr w res = Some (case r of None \<Rightarrow> - 1 | Some _ \<Rightarrow> 0, tok', w') \<and>
    token tok' = TT_STR \<and>
    val_ok (mem_ok w) (case r of None \<Rightarrow> LKeep | Some u \<Rightarrow> LStr u) (tokval res) (tokval tok') \<and>
    input w' = rest \<and> lexes w w'"
proof -
  from assms(4) obtain p h where k: "kalloc LEX_MAX_STRLEN (heap w) = (Some p, h)"
    by (auto simp: str_mem_def) (metis prod.collapse)
  let ?w = "w\<lparr>heap := h\<rparr>"
  have l: "lexes w ?w" "mem_ok w \<Longrightarrow> mem_ok ?w"
    using kalloc_mem [OF k] assms(1) by (auto simp: lexes_def mem_ok_def)
  have kf: "lexes v (v\<lparr>heap := kfree q (heap v)\<rparr>)" if "src_ok v" for v q
    using that by (auto simp: lexes_def mem_ok_def kfree_def split: option.splits)
  from nomstr_loop_spec [of ?w "[]" r rest] assms(1,3) obtain w1 where
    w1: "nomstr_loop ?w [] = Some (map_option ((@) []) r, w1)" "input w1 = rest" "reads ?w w1" by auto
  note ok1 = reads_fields(10) [OF w1(3)] and l1 = lexes_trans [OF l(1) reads_lexes [OF w1(3)]]
  show ?thesis
  proof (cases r)
    case None
    then show ?thesis
      using k w1 lexes_trans [OF l1 kf [OF ok1]] by (simp add: lex_nomstr_def val_ok_def)
  next
    case (Some u)
    obtain q w2 where d: "work_strdup u w1 = (q, w2)" by fastforce
    note d' = work_strdup_spec [OF d ok1]
    have "src_ok w2" using d'(2) by (simp add: lexes_def)
    moreover have "mem_ok w \<Longrightarrow> mem_ok w1" using l(2) reads_mem(1) [OF w1(3)] by simp
    ultimately show ?thesis
      using Some k w1 d d'(1) d'(3) [of "tokval res"] lexes_trans [OF l1 lexes_trans [OF d'(2) kf]]
      by (auto simp: lex_nomstr_def val_ok_def)
  qed
qed

lemma lex_nomnum_spec:
  assumes "src_ok w" and "is_num_c c"
  shows "\<exists>w'. lex_nomnum w c res =
      Some (0, res\<lparr>token := TT_NUMBER,
                  tokval := TVal (word_of_nat (dec_val (takeWhile is_num_c (c # input w))))\<rparr>, w') \<and>
    input w' = tl (dropWhile is_num_c (c # input w)) \<and> lexes w w'"
proof -
  from nomnum_loop_spec [OF assms(1), of c 0] assms(2) reads_lexes show ?thesis
    by (auto simp: lex_nomnum_def dec_val_def)
qed

lemma punct_not_num: "\<forall>x \<in> set punct_table. \<not> is_num_c (fst x)"
  by (simp add: punct_table_def is_num_c_def schar_def uchar_def)

lemma punct_lex_nom:
  assumes "skip_space w = Some (c, w')" and "c \<in> fst ` set punct_table"
  shows "lex_nom w res = Some (0, res\<lparr>token := the (map_of punct_table c)\<rparr>, w')"
proof -
  from assms(2) obtain t where t: "map_of punct_table c = Some t"
    by (metis map_of_eq_None_iff not_Some_eq)
  have num: "\<not> is_num_c c" using punct_not_num map_of_SomeD [OF t] by fastforce
  have "lex_nom w res = Some (0, res\<lparr>token := t\<rparr>, w')"
    using t assms(1) num unfolding lex_nom_def
    by (simp add: punct_table_def lex_arithop_def lex_cmpop_def split: if_splits)
  then show ?thesis using t by simp
qed

lemma other_lex_nom:
  assumes "skip_space w = Some (c, w')" and "c \<notin> fst ` set punct_table" and "c \<noteq> NUL"
  shows "lex_nom w res =
    (if c = CHR ''\"'' then lex_nomstr w' (res\<lparr>token := TT_NONE\<rparr>)
     else if is_num_c c then
       map_option (\<lambda>(_, res, w). (0, res, w)) (lex_nomnum w' c (res\<lparr>token := TT_NONE\<rparr>))
     else if \<not> is_alpha c then Some (- 1, res\<lparr>token := TT_NONE\<rparr>, w')
     else do {
       (error, res, w) \<leftarrow> lex_matchstr w' c (res\<lparr>token := TT_NONE\<rparr>);
       Some (if error = 0 then 0 else - 1, res, w)
     })"
  using assms by (simp add: lex_nom_def punct_table_def lex_arithop_def lex_cmpop_def)

lemma lex_nom_spec:
  assumes "src_ok w" and "scan_spec (str_mem w) (input w) = (e, t, v, rest)"
  shows "\<exists>tok' w'. lex_nom w tok = Some (e, tok', w') \<and> token tok' = t \<and>
    val_ok (mem_ok w) v (tokval tok) (tokval tok') \<and> input w' = rest \<and> lexes w w'"
proof -
  let ?tok = "tok\<lparr>token := TT_NONE\<rparr>"
  from skip_space_spec [OF assms(1)] obtain w1 where
    sp: "skip_space w = Some (case dropWhile is_space (input w) of [] \<Rightarrow> NUL | c # _ \<Rightarrow> c, w1)"
    and i1: "input w1 = tl (dropWhile is_space (input w))" and c1: "ccache w1 = NUL"
    and rd: "reads w w1" by blast
  note ok1 = reads_fields(10) [OF rd] and l1 = reads_lexes [OF rd] and m1 = reads_mem [OF rd]
  show ?thesis
  proof (cases "ended (dropWhile is_space (input w))")
    case True
    then show ?thesis
      using sp i1 l1 assms(2)
      by (cases "dropWhile is_space (input w)") (auto simp: ended_def scan_spec_def lex_nom_def val_ok_def)
  next
    case False
    then obtain c s where cs: "dropWhile is_space (input w) = c # s" "c \<noteq> NUL"
      by (cases "dropWhile is_space (input w)") (auto simp: ended_def)
    have sk: "skip_space w = Some (c, w1)" and i: "input w1 = s" using sp i1 cs by simp_all
    consider (punct) "c \<in> fst ` set punct_table"
      | (str) "c \<notin> fst ` set punct_table" "c = CHR ''\"''"
      | (num) "c \<notin> fst ` set punct_table" "c \<noteq> CHR ''\"''" "is_num_c c"
      | (ident) "c \<notin> fst ` set punct_table" "c \<noteq> CHR ''\"''" "\<not> is_num_c c" "is_alpha c"
      | (bad) "c \<notin> fst ` set punct_table" "c \<noteq> CHR ''\"''" "\<not> is_num_c c" "\<not> is_alpha c" by blast
    then show ?thesis
    proof cases
      case punct
      then show ?thesis
        using punct_lex_nom [OF sk] assms(2) cs i l1 by (auto simp: scan_spec_def val_ok_def)
    next
      case str
      show ?thesis
      proof (cases "str_mem w")
        case True
        obtain r rest' where r: "str_from 0 s = (r, rest')" by fastforce
        from lex_nomstr_spec [OF ok1, of ?tok r rest'] r i m1 True obtain tok' w' where
          "lex_nomstr w1 ?tok = Some (case r of None \<Rightarrow> - 1 | Some _ \<Rightarrow> 0, tok', w')"
          "token tok' = TT_STR" "input w' = rest'" "lexes w1 w'"
          "val_ok (mem_ok w) (case r of None \<Rightarrow> LKeep | Some u \<Rightarrow> LStr u) (tokval tok) (tokval tok')"
          by auto
        with other_lex_nom [OF sk str(1) cs(2), of tok] str assms(2) cs r True lexes_trans [OF l1, of w']
        show ?thesis by (cases r) (auto simp: scan_spec_def)
      next
        case False
        with m1(2) obtain h where h: "kalloc LEX_MAX_STRLEN (heap w1) = (None, h)"
          by (auto simp: str_mem_def) (metis prod.collapse)
        then have "mem_ok w1 \<Longrightarrow> mem_ok (w1\<lparr>heap := h\<rparr>)"
          using kalloc_mem [OF h] by (auto simp: mem_ok_def)
        then have "lexes w1 (w1\<lparr>heap := h\<rparr>)" using ok1 by (auto simp: lexes_def)
        with other_lex_nom [OF sk str(1) cs(2), of tok] h str assms(2) cs i False lexes_trans [OF l1]
        show ?thesis by (auto simp: scan_spec_def lex_nomstr_def val_ok_def)
      qed
    next
      case num
      from lex_nomnum_spec [OF ok1 num(3), of ?tok] i obtain w' where
        "lex_nomnum w1 c ?tok = Some (0, ?tok\<lparr>token := TT_NUMBER,
            tokval := TVal (word_of_nat (dec_val (takeWhile is_num_c (c # s))))\<rparr>, w')"
        "input w' = tl (dropWhile is_num_c (c # s))" "lexes w1 w'" by auto
      with other_lex_nom [OF sk num(1) cs(2), of tok] num assms(2) cs lexes_trans [OF l1, of w']
      show ?thesis by (auto simp: scan_spec_def val_ok_def)
    next
      case ident
      obtain r rest' where r: "ident_from 0 (c # s) = (r, rest')" by fastforce
      from lex_matchstr_spec [OF ok1 c1 cs(2), of ?tok r rest'] r i m1 obtain tok' w' where
        "lex_matchstr w1 c ?tok = Some (case r of None \<Rightarrow> - 1 | Some _ \<Rightarrow> 0, tok', w')"
        "token tok' = (case r of None \<Rightarrow> TT_NONE | Some u \<Rightarrow> word_class u)"
        "val_ok (mem_ok w) (case r of None \<Rightarrow> LKeep | Some u \<Rightarrow> LStr u) (tokval tok) (tokval tok')"
        "input w' = rest'" "lexes w1 w'" by auto
      with other_lex_nom [OF sk ident(1) cs(2), of tok] ident assms(2) cs r lexes_trans [OF l1, of w']
      show ?thesis by (cases r) (auto simp: scan_spec_def)
    next
      case bad
      with other_lex_nom [OF sk bad(1) cs(2), of tok] assms(2) cs i l1
      show ?thesis by (auto simp: scan_spec_def val_ok_def)
    qed
  qed
qed

lemma ident_from_rest: "ident_from 0 s = (r, rest) \<Longrightarrow> s \<noteq> [] \<Longrightarrow> is_alnum (hd s) \<Longrightarrow> length rest < length s"
proof -
  assume a: "ident_from 0 s = (r, rest)" "s \<noteq> []" "is_alnum (hd s)"
  then obtain c t where s: "s = c # t" "is_alnum c" by (cases s) auto
  have "length (dropWhile is_alnum t) \<le> length t" by (rule length_dropWhile_le)
  with a(1) s show ?thesis by (auto simp: ident_from_def Let_def split: if_splits)
qed

lemma str_from_rest: "str_from 0 s = (r, rest) \<Longrightarrow> length rest \<le> length s"
  using length_dropWhile_le [of in_str s] by (auto simp: str_from_def Let_def split: if_splits)

lemma scan_spec_progress:
  assumes "scan_spec m s = (e, t, v, rest)"
  shows "length rest \<le> length s" and "e \<noteq> LEX_EOF \<Longrightarrow> length rest < length s"
    and "s \<noteq> [] \<Longrightarrow> dropWhile is_space s \<noteq> [] \<Longrightarrow> length rest < length s"
proof -
  have dw: "length (dropWhile is_space s) \<le> length s" by (rule length_dropWhile_le)
  have "(dropWhile is_space s = [] \<and> e = LEX_EOF \<and> rest = []) \<or>
    length rest < length (dropWhile is_space s)"
  proof (cases "dropWhile is_space s")
    case Nil
    then show ?thesis using assms unfolding scan_spec_def Nil by simp
  next
    case (Cons c s')
    have n: "length (dropWhile is_num_c s') \<le> length s'" by (rule length_dropWhile_le)
    have "length rest \<le> length s'"
    proof (cases "is_alnum c \<and> \<not> is_num_c c \<and> c \<notin> fst ` set punct_table \<and> c \<noteq> CHR ''\"'' \<and> c \<noteq> NUL")
      case True
      then show ?thesis
        using assms Cons ident_from_rest [of "c # s'"]
        by (auto simp: scan_spec_def is_alnum_def less_Suc_eq_le split: prod.splits option.splits)
    next
      case False
      then show ?thesis
        using assms Cons n str_from_rest [of s']
        by (auto simp: scan_spec_def is_alnum_def split: prod.splits option.splits if_splits)
    qed
    then show ?thesis using Cons by simp
  qed
  with dw show "length rest \<le> length s" "e \<noteq> LEX_EOF \<Longrightarrow> length rest < length s"
    "s \<noteq> [] \<Longrightarrow> dropWhile is_space s \<noteq> [] \<Longrightarrow> length rest < length s" by auto
qed
section \<open>Properties of the lexer\<close>

text \<open>
  C4 (the lexer refines the scanner).  On a unit of work whose source buffer holds at least
  \<open>source_size\<close> bytes, scanning a token never leaves the buffer, returns the code, token type,
  value and remaining input of \<open>scan_spec\<close>, touches neither the bytecode queue nor the symbol
  table nor the parser flags, and consumes input unless it returns \<^verbatim>\<open>LEX_EOF\<close>.
\<close>

theorem lex_nom_refines:
  assumes "src_ok w"
  shows "\<exists>e t v rest tok' w'. scan_spec (str_mem w) (input w) = (e, t, v, rest) \<and>
    lex_nom w tok = Some (e, tok', w') \<and> token tok' = t \<and>
    val_ok (mem_ok w) v (tokval tok) (tokval tok') \<and> input w' = rest \<and> lexes w w' \<and>
    (e = LEX_EOF \<or> unread w' < unread w)"
proof -
  obtain e t v rest where s: "scan_spec (str_mem w) (input w) = (e, t, v, rest)"
    by (cases "scan_spec (str_mem w) (input w)") auto
  from lex_nom_spec [OF assms s, of tok] obtain tok' w' where
    l: "lex_nom w tok = Some (e, tok', w')" "token tok' = t" "input w' = rest" "lexes w w'"
    "val_ok (mem_ok w) v (tokval tok) (tokval tok')" by blast
  moreover from l(4) have "src_ok w'" by (simp add: lexes_def)
  moreover note scan_spec_progress(2) [OF s]
  ultimately show ?thesis using s assms by (auto simp: unread_length)
qed

definition work_of :: "char list \<Rightarrow> np_work" where
  "work_of src =
     \<lparr>source = src, source_size = length src, line_no = 1, piir_stk = None, source_idx = 0,
      lex_tok = \<lparr>token = TT_NONE, tokval = TVal 0\<rparr>,
      symlist = \<lparr>symq = [], cache = replicate SYMCACHE_LEN None, nsym = 0, cache_i = 0\<rparr>,
      work_mem = Some box_demo, ccache = NUL, in_func = False, begin_depth = 0, heap = heap_demo\<rparr>"

definition tok_zero :: lex_token where
  "tok_zero = \<lparr>token = TT_NONE, tokval = TVal 0\<rparr>"

lemma work_of_ok: "src_ok (work_of s)" "mem_ok (work_of s)" "str_mem (work_of s)" "input (work_of s) = s"
  by (simp_all add: work_of_def src_ok_def mem_ok_def str_mem_def input_def heap_demo_def kalloc_def
      box_demo_def Let_def)

theorem lex_nom_refines_witness:
  "\<exists>e t v rest tok' w'. scan_spec (str_mem (work_of ''proc main'')) (input (work_of ''proc main'')) =
      (e, t, v, rest) \<and>
    lex_nom (work_of ''proc main'') tok_zero = Some (e, tok', w') \<and> token tok' = t \<and>
    val_ok (mem_ok (work_of ''proc main'')) v (tokval tok_zero) (tokval tok') \<and>
    input w' = rest \<and> lexes (work_of ''proc main'') w' \<and>
    (e = LEX_EOF \<or> unread w' < unread (work_of ''proc main''))"
  using lex_nom_refines [OF work_of_ok(1)] by blast

lemma takeWhile_delim:
  assumes "\<forall>c \<in> set u. P c" and "\<not> P d"
  shows "takeWhile P (u @ d # s) = u" and "dropWhile P (u @ d # s) = d # s"
  using assms by simp_all

lemma is_alpha_char:
  assumes "is_alpha c"
  shows "c \<noteq> NUL" and "\<not> is_num_c c" and "c \<noteq> CHR ''\"''" and "\<not> is_space c"
    and "c \<notin> fst ` set punct_table"
proof -
  have "\<not> is_alpha NUL" "\<not> is_alpha (CHR ''\"'')" "\<not> is_alpha (CHR '' '')" "\<not> is_alpha (CHR 0x09)"
    "\<not> is_alpha (CHR 0x0C)" "\<not> is_alpha (CHR 0x0A)" "\<forall>x \<in> set punct_table. \<not> is_alpha (fst x)"
    by code_simp+
  with assms show "c \<noteq> NUL" "c \<noteq> CHR ''\"''" "\<not> is_space c" "c \<notin> fst ` set punct_table"
    by (auto simp: is_space_def)
  have "schar c < 64 \<Longrightarrow> 0 \<le> schar c \<Longrightarrow> schar c OR 0x20 < 64"
    by (rule OR_upper [where n = 6, simplified]) simp_all
  with assms show "\<not> is_num_c c"
    by (auto simp: is_alpha_def is_num_c_def to_lower_def schar_def uchar_def)
qed

lemma is_num_char:
  assumes "is_num_c c"
  shows "c \<noteq> NUL" and "c \<noteq> CHR ''\"''" and "\<not> is_space c" and "c \<notin> fst ` set punct_table"
proof -
  have "\<not> is_num_c NUL" "\<not> is_num_c (CHR ''\"'')" "\<not> is_num_c (CHR '' '')" "\<not> is_num_c (CHR 0x09)"
    "\<not> is_num_c (CHR 0x0C)" "\<not> is_num_c (CHR 0x0A)"
    by (simp_all add: is_num_c_def schar_def uchar_def)
  with assms punct_not_num show "c \<noteq> NUL" "c \<noteq> CHR ''\"''" "\<not> is_space c" "c \<notin> fst ` set punct_table"
    by (auto simp: is_space_def)
qed

lemma scan_word:
  assumes "u \<noteq> []" and "is_alpha (hd u)" and "\<forall>c \<in> set u. is_alnum c" and "length u < MAX_ID_LEN"
    and "\<not> is_alnum d" and "d \<noteq> NUL" and "\<forall>c \<in> set b. is_space c"
  shows "scan_spec m (b @ u @ d # s) = (0, word_class u, LStr u, d # s)"
proof -
  from assms(1,2) obtain c v where u: "u = c # v" "is_alpha c" by (cases u) auto
  note c = is_alpha_char [OF u(2)]
  have dw: "dropWhile is_space (b @ u @ d # s) = c # v @ d # s"
    using assms(7) u(1) c(4) by (simp add: dropWhile_append)
  have "ident_from 0 (u @ d # s) = (Some u, d # s)"
    using assms(4,6) takeWhile_delim [OF assms(3,5), of s] by (simp add: ident_from_def ended_def)
  then show ?thesis unfolding scan_spec_def dw using c u by simp
qed

lemma scan_number:
  assumes "ds \<noteq> []" and "\<forall>c \<in> set ds. is_num_c c" and "\<not> is_num_c d" and "\<forall>c \<in> set b. is_space c"
  shows "scan_spec m (b @ ds @ d # s) = (0, TT_NUMBER, LNum (word_of_nat (dec_val ds)), s)"
proof -
  from assms(1,2) obtain c v where u: "ds = c # v" "is_num_c c" by (cases ds) auto
  note c = is_num_char [OF u(2)]
  have dw: "dropWhile is_space (b @ ds @ d # s) = c # v @ d # s"
    using assms(4) u(1) c(3) by (simp add: dropWhile_append)
  show ?thesis
    unfolding scan_spec_def dw using c u takeWhile_delim [OF assms(2,3), of s] by simp
qed

lemma scan_punct:
  assumes "map_of punct_table c = Some t" and "\<forall>c \<in> set b. is_space c"
  shows "scan_spec m (b @ c # s) = (0, t, LKeep, s)"
proof -
  have "(c, t) \<in> set punct_table" by (rule map_of_SomeD [OF assms(1)])
  then have m: "c \<in> fst ` set punct_table" by force
  have "\<forall>x \<in> set punct_table. \<not> is_space (fst x) \<and> fst x \<noteq> NUL"
    by (simp add: punct_table_def is_space_def)
  then have "\<not> is_space c" "c \<noteq> NUL" using m by auto
  then have "dropWhile is_space (b @ c # s) = c # s" using assms(2) by (simp add: dropWhile_append)
  then show ?thesis unfolding scan_spec_def using \<open>c \<noteq> NUL\<close> m assms(1) by simp
qed
text \<open>
  C34 (words).  A word of up to 31 letters and digits that starts with a letter, behind any white
  space and in front of a delimiter, is scanned whole: the call returns 0 with the word as the
  string value and the delimiter still unread.  Keywords and type names get their token type, and
  every other word is an identifier unless it starts with one of \<^verbatim>\<open>r b e p u i\<close>, when the
  token type is \<^verbatim>\<open>TT_NONE\<close>.
\<close>

theorem lex_word:
  assumes "src_ok w" and "mem_ok w" and "input w = b @ u @ d # s" and "\<forall>c \<in> set b. is_space c"
    and "u \<noteq> []" and "is_alpha (hd u)" and "\<forall>c \<in> set u. is_alnum c" and "length u < MAX_ID_LEN"
    and "\<not> is_alnum d" and "d \<noteq> NUL"
  shows "\<exists>a tok' w'. lex_nom w tok = Some (0, tok', w') \<and>
    tok' = \<lparr>token = (case map_of keyword_table u of
                      Some t \<Rightarrow> t
                    | None \<Rightarrow> if hd u \<in> set ''rbepui'' then TT_NONE else TT_IDENT),
            tokval = TStr (Some (a, u))\<rparr> \<and>
    input w' = d # s"
proof -
  have "scan_spec (str_mem w) (input w) = (0, word_class u, LStr u, d # s)"
    unfolding assms(3) by (rule scan_word) fact+
  from lex_nom_spec [OF assms(1) this, of tok] obtain tok' w' where
    "lex_nom w tok = Some (0, tok', w')" "token tok' = word_class u" "input w' = d # s"
    "val_ok (mem_ok w) (LStr u) (tokval tok) (tokval tok')" by blast
  with assms(2,5) show ?thesis
    by (cases tok') (auto simp: val_ok_def word_class_def split: option.splits)
qed

theorem lex_word_witness:
  "\<exists>a tok' w'. lex_nom (work_of '' buf ='') tok_zero = Some (0, tok', w') \<and>
    tok' = \<lparr>token = TT_NONE, tokval = TStr (Some (a, ''buf''))\<rparr> \<and> input w' = '' =''"
proof -
  have "is_alpha (hd ''buf'')" "\<forall>c \<in> set ''buf''. is_alnum c" "\<not> is_alnum (CHR '' '')"
    "\<forall>c \<in> set '' ''. is_space c" by code_simp+
  then show ?thesis
    using lex_word [OF work_of_ok(1,2), of "'' buf =''" "'' ''" "''buf''" "CHR '' ''" "''=''" tok_zero]
    by (simp add: work_of_ok keyword_table_def)
qed

text \<open>
  A run of decimal digits is scanned whole and its value is the number it denotes
  modulo \<open>2 ^ 64\<close>.  The character that ends the run is consumed with it, whatever it is.
\<close>

theorem lex_number:
  assumes "src_ok w" and "input w = b @ ds @ d # s" and "\<forall>c \<in> set b. is_space c"
    and "ds \<noteq> []" and "\<forall>c \<in> set ds. is_num_c c" and "\<not> is_num_c d"
  shows "\<exists>w'. lex_nom w tok =
      Some (0, \<lparr>token = TT_NUMBER, tokval = TVal (word_of_nat (dec_val ds))\<rparr>, w') \<and> input w' = s"
proof -
  have "scan_spec (str_mem w) (input w) = (0, TT_NUMBER, LNum (word_of_nat (dec_val ds)), s)"
    unfolding assms(2) by (rule scan_number) fact+
  from lex_nom_spec [OF assms(1) this, of tok] show ?thesis
    by (auto simp: val_ok_def)
qed

theorem lex_number_witness:
  "\<exists>w'. lex_nom (work_of ''42)x'') tok_zero =
      Some (0, \<lparr>token = TT_NUMBER, tokval = TVal 42\<rparr>, w') \<and> input w' = ''x''"
proof -
  have "\<forall>c \<in> set ''42''. is_num_c c" "\<not> is_num_c (CHR '')'')" "dec_val ''42'' = 42" by code_simp+
  then show ?thesis
    using lex_number [OF work_of_ok(1), of "''42)x''" "[]" "''42''" "CHR '')''" "''x''" tok_zero]
    by (simp add: work_of_ok)
qed

end
