(* ===== verification/Np_Conv.thy ===== *)
theory Np_Conv
  imports Np_Lex
begin

text \<open>
  The code generator of the Pirho compiler: \<^verbatim>\<open>arch/amd64/np/piir_conv.c\<close> turns one operation of the
  intermediate representation (PIIR) into machine code, \<^verbatim>\<open>np/codegen/piir_engine.c\<close> drains the
  bytecode queue through it.  The reference translation \<open>ir_code\<close> is a function on the list of
  bytes; the generator is proved to emit it, and to stay inside its code buffer for every input.
\<close>

section \<open>Machine code buffer\<close>

abbreviation VM_CODE_SIZE :: nat where
  "VM_CODE_SIZE \<equiv> 4096"

record piir_vm =
  code :: "u8 list"
  last_ir :: s8
  code_i :: nat
  regset :: u8

definition piir_vm_zero :: piir_vm where
  "piir_vm_zero = \<lparr>code = replicate VM_CODE_SIZE 0, last_ir = 0, code_i = 0, regset = 0\<rparr>"

abbreviation PIIR_NOP :: s8 where "PIIR_NOP \<equiv> 0x00"
abbreviation PIIR_RET_NIL :: s8 where "PIIR_RET_NIL \<equiv> 0x05"
abbreviation PIIR_RET_NUM :: s8 where "PIIR_RET_NUM \<equiv> 0x06"
abbreviation PIIR_RET_SYMBOL :: s8 where "PIIR_RET_SYMBOL \<equiv> 0x07"

datatype r64 = R64_RAX | R64_RCX | R64_RDX | R64_RBX | R64_RSP | R64_RBP | R64_RSI | R64_RDI
datatype r32 = R32_EAX | R32_ECX | R32_EDX | R32_EBX | R32_ESP | R32_EBP | R32_ESI | R32_RDI

fun r32_id :: "r32 \<Rightarrow> u8" where
  "r32_id R32_EAX = 0" | "r32_id R32_ECX = 1" | "r32_id R32_EDX = 2" | "r32_id R32_EBX = 3"
| "r32_id R32_ESP = 4" | "r32_id R32_EBP = 5" | "r32_id R32_ESI = 6" | "r32_id R32_RDI = 7"

fun r64_id :: "r64 \<Rightarrow> u8" where
  "r64_id R64_RAX = 0" | "r64_id R64_RCX = 1" | "r64_id R64_RDX = 2" | "r64_id R64_RBX = 3"
| "r64_id R64_RSP = 4" | "r64_id R64_RBP = 5" | "r64_id R64_RSI = 6" | "r64_id R64_RDI = 7"

text \<open>An instruction is an array of eight bytes, zero behind its initialiser.\<close>

definition INST_DECL :: "u8 list \<Rightarrow> u8 list" where
  "INST_DECL bs = bs @ replicate (8 - length bs) 0"

definition OP_NRET :: "u8 list" where "OP_NRET = INST_DECL [0xC2]"
definition OP_NOP :: "u8 list" where "OP_NOP = INST_DECL [0x90]"
definition OP_LOAD32_R32 :: "u8 \<Rightarrow> r32 \<Rightarrow> u8 list" where
  "OP_LOAD32_R32 imm rd = INST_DECL [0xB8 + r32_id rd, imm]"
definition OP_LOAD64_R64 :: "u8 \<Rightarrow> r64 \<Rightarrow> u8 list" where
  "OP_LOAD64_R64 imm rd = INST_DECL [0x48, 0xB8 + r64_id rd, imm]"

text \<open>
  \<^verbatim>\<open>vm_push\<close> copies \<open>len\<close> bytes of an instruction array.  The 10 bytes of \<^verbatim>\<open>OP_LOAD64_R64_LEN\<close>
  reach past the array of 8; \<open>oob\<close> gives the bytes found there.
\<close>

definition inst_bytes :: "(nat \<Rightarrow> u8) \<Rightarrow> u8 list \<Rightarrow> nat \<Rightarrow> u8 list" where
  "inst_bytes oob inst len = map (\<lambda>i. if i < length inst then inst ! i else oob i) [0..<len]"

fun vm_push_loop :: "piir_vm \<Rightarrow> u8 list \<Rightarrow> (bool \<times> piir_vm) option" where
  "vm_push_loop vm [] = Some (True, vm)"
| "vm_push_loop vm (b # bs) =
     (if code_i vm \<ge> VM_CODE_SIZE - 1 then Some (False, vm)
      else
        (case buf_put (code vm) (code_i vm) b of
           None \<Rightarrow> None
         | Some c \<Rightarrow> vm_push_loop (vm\<lparr>code := c, code_i := code_i vm + 1\<rparr>) bs))"

definition vm_push :: "(nat \<Rightarrow> u8) \<Rightarrow> piir_vm \<Rightarrow> u8 list \<Rightarrow> nat \<Rightarrow> (int \<times> piir_vm) option" where
  "vm_push oob vm inst len =
     (case vm_push_loop vm (inst_bytes oob inst len) of
        None \<Rightarrow> None
      | Some (ok, vm) \<Rightarrow> Some (if ok then int len else - 1, vm))"

definition le64 :: "u64 \<Rightarrow> u8 list" where
  "le64 v = map (\<lambda>i. ucast (drop_bit (8 * i) v)) [0..<8]"

definition vm_push64 :: "piir_vm \<Rightarrow> u64 \<Rightarrow> piir_vm option" where
  "vm_push64 vm v =
     (if code_i vm + 8 \<ge> VM_CODE_SIZE - 1 then Some vm
      else if code_i vm + 8 > length (code vm) then None
      else Some (vm\<lparr>code := take (code_i vm) (code vm) @ le64 v @ drop (code_i vm + 8) (code vm),
                    code_i := code_i vm + 8\<rparr>))"

section \<open>Translating one operation\<close>

text \<open>
  The bytes popped from the queue are truncated to \<^verbatim>\<open>ir_byte_t\<close>.  The result is the return value
  with the new unit of work and code buffer; \<open>None\<close> is an access outside the queue or the code buffer, or the
  undefined behaviour of the symbol lookup.
\<close>

definition ir_pop :: "np_work \<Rightarrow> (s8 \<times> np_work) option" where
  "ir_pop w =
     (case piir_pop (piir_stk w) of
        None \<Rightarrow> None
      | Some (r, st) \<Rightarrow> Some (word_of_int r, w\<lparr>piir_stk := st\<rparr>))"

definition md_piir_decode ::
  "(nat \<Rightarrow> u8) \<Rightarrow> np_work \<Rightarrow> piir_vm \<Rightarrow> s8 \<Rightarrow> (int \<times> np_work \<times> piir_vm) option" where
  "md_piir_decode oob w vm inp =
     (let vm = vm\<lparr>last_ir := inp\<rparr> in
      if inp = PIIR_RET_NUM then
        do {
          (b, w) \<leftarrow> ir_pop w;
          if sint b < 0 then Some (sint b, w, vm)
          else do {
            (r, vm) \<leftarrow> vm_push oob vm (OP_LOAD32_R32 b R32_EAX) 5;
            Some (r, w, vm)
          }
        }
      else if inp = PIIR_RET_SYMBOL then
        do {
          (b, w) \<leftarrow> ir_pop w;
          if sint b < 0 then Some (sint b, w, vm)
          else do {
            (r, sl) \<leftarrow> symbol_lookup_id (symlist w) (unat b);
            let w = w\<lparr>symlist := sl\<rparr>;
            case r of
              Inl e \<Rightarrow> Some (- errno_code e, w, vm)
            | Inr s \<Rightarrow>
                do {
                  (error, vm) \<leftarrow> vm_push oob vm (OP_LOAD64_R64 0 R64_RAX) 10;
                  if error < 0 then Some (error, w, vm)
                  else do {
                    vm \<leftarrow> vm_push64 (vm\<lparr>code_i := code_i vm - 8\<rparr>) (sym_addr s);
                    Some (0, w, vm)
                  }
                }
          }
        }
      else if inp = PIIR_NOP then
        do {
          (r, vm) \<leftarrow> vm_push oob vm OP_NOP 1;
          Some (r, w, vm)
        }
      else if inp = PIIR_RET_NIL then
        do {
          (r, vm) \<leftarrow> vm_push oob vm OP_NRET 1;
          Some (r, w, vm)
        }
      else Some (0, w, vm))"

section \<open>Draining the queue\<close>

partial_function (option) piir_inject_loop ::
  "(nat \<Rightarrow> u8) \<Rightarrow> np_work \<Rightarrow> piir_vm \<Rightarrow> (np_work \<times> piir_vm) option" where
  "piir_inject_loop oob w vm =
     Option.bind (ir_pop w) (\<lambda>(byte, w).
       if sint byte < 0 then Some (w, vm)
       else Option.bind (md_piir_decode oob w vm byte) (\<lambda>(_, w, vm). piir_inject_loop oob w vm))"

text \<open>The code buffer is a local variable that nothing reads: it is a second result here.\<close>

definition piir_inject ::
  "(nat \<Rightarrow> u8) \<Rightarrow> np_work \<Rightarrow> (int \<times> np_work \<times> piir_vm) option" where
  "piir_inject oob w =
     (case piir_stk w of
        None \<Rightarrow> Some (- errno_code EIO, w, piir_vm_zero)
      | Some _ \<Rightarrow>
          do {
            (w, vm) \<leftarrow> piir_inject_loop oob w piir_vm_zero;
            Some (0, w, vm)
          })"

section \<open>Registers\<close>

fun find_free_reg :: "u8 \<Rightarrow> nat list \<Rightarrow> nat option" where
  "find_free_reg rs [] = None"
| "find_free_reg rs (i # is) = (if \<not> bit rs i then Some i else find_free_reg rs is)"

definition md_alloc_reg :: "piir_vm \<Rightarrow> int \<times> piir_vm" where
  "md_alloc_reg vm =
     (case find_free_reg (regset vm) [0..<8] of
        Some i \<Rightarrow> (int i, vm\<lparr>regset := set_bit i (regset vm)\<rparr>)
      | None \<Rightarrow> (- 1, vm))"

definition md_free_reg :: "piir_vm \<Rightarrow> nat \<Rightarrow> piir_vm" where
  "md_free_reg vm reg = vm\<lparr>regset := unset_bit reg (regset vm)\<rparr>"

section \<open>Reference translation\<close>

text \<open>
  The machine code of a list of PIIR bytes.  A negative byte in operation position ends the
  translation; a negative operand, or the identifier of no symbol, drops the operation.
\<close>

fun ir_code :: "symbol list \<Rightarrow> s8 list \<Rightarrow> u8 list" where
  "ir_code syms [] = []"
| "ir_code syms (b # bs) =
     (if sint b < 0 then []
      else if b = PIIR_RET_NUM then
        (case bs of
           [] \<Rightarrow> []
         | n # bs \<Rightarrow> (if sint n < 0 then [] else [0xB8, n, 0, 0, 0]) @ ir_code syms bs)
      else if b = PIIR_RET_SYMBOL then
        (case bs of
           [] \<Rightarrow> []
         | n # bs \<Rightarrow>
             (if sint n < 0 \<or> length syms \<le> unat n then []
              else [0x48, 0xB8] @ le64 (sym_addr (syms ! unat n))) @ ir_code syms bs)
      else if b = PIIR_NOP then 0x90 # ir_code syms bs
      else if b = PIIR_RET_NIL then 0xC2 # ir_code syms bs
      else ir_code syms bs)"

section \<open>The code buffer\<close>

definition vm_inv :: "piir_vm \<Rightarrow> bool" where
  "vm_inv vm \<longleftrightarrow> length (code vm) = VM_CODE_SIZE \<and> code_i vm \<le> VM_CODE_SIZE - 1"

definition emitted_code :: "piir_vm \<Rightarrow> u8 list" where
  "emitted_code vm = take (code_i vm) (code vm)"

lemma emitted_code_length: "vm_inv vm \<Longrightarrow> length (emitted_code vm) = code_i vm"
  by (simp add: emitted_code_def vm_inv_def)

lemma vm_inv_last_ir [simp]:
  "vm_inv (vm\<lparr>last_ir := b\<rparr>) = vm_inv vm" "emitted_code (vm\<lparr>last_ir := b\<rparr>) = emitted_code vm"
  by (simp_all add: vm_inv_def emitted_code_def)

lemma vm_push_loop_inv: "vm_inv vm \<Longrightarrow> \<exists>ok vm'. vm_push_loop vm bs = Some (ok, vm') \<and> vm_inv vm'"
proof (induction bs arbitrary: vm)
  case (Cons b bs)
  then show ?case
    using Cons.IH [of "vm\<lparr>code := (code vm)[code_i vm := b], code_i := code_i vm + 1\<rparr>"]
    by (auto simp: vm_inv_def buf_put_def)
qed auto

lemma vm_push_loop_fits:
  "vm_inv vm \<Longrightarrow> code_i vm + length bs \<le> VM_CODE_SIZE - 1 \<Longrightarrow>
   \<exists>vm'. vm_push_loop vm bs = Some (True, vm') \<and> vm_inv vm' \<and>
     emitted_code vm' = emitted_code vm @ bs \<and> code_i vm' = code_i vm + length bs"
proof (induction bs arbitrary: vm)
  case (Cons b bs)
  let ?vm = "vm\<lparr>code := (code vm)[code_i vm := b], code_i := code_i vm + 1\<rparr>"
  have lt: "code_i vm < length (code vm)" using Cons.prems by (simp add: vm_inv_def)
  have "emitted_code ?vm = emitted_code vm @ [b]"
    using take_Suc_update [OF lt, of b] by (simp add: emitted_code_def)
  moreover have "vm_inv ?vm" using Cons.prems by (simp add: vm_inv_def)
  moreover have "vm_push_loop vm (b # bs) = vm_push_loop ?vm bs" using lt Cons.prems by (simp add: buf_put_def)
  ultimately show ?case using Cons.IH [of ?vm] Cons.prems by auto
qed simp

lemma vm_push_inv:
  assumes "vm_inv vm"
  obtains r vm' where "vm_push oob vm inst len = Some (r, vm')" "vm_inv vm'"
  using vm_push_loop_inv [OF assms, of "inst_bytes oob inst len"] that by (auto simp: vm_push_def)

lemma inst_bytes_length [simp]: "length (inst_bytes oob inst len) = len"
  by (simp add: inst_bytes_def)

lemma vm_push_fits:
  assumes "vm_inv vm" and "code_i vm + len \<le> VM_CODE_SIZE - 1"
  shows "\<exists>vm'. vm_push oob vm inst len = Some (int len, vm') \<and> vm_inv vm' \<and>
    emitted_code vm' = emitted_code vm @ inst_bytes oob inst len \<and> code_i vm' = code_i vm + len"
  using vm_push_loop_fits [OF assms(1), of "inst_bytes oob inst len"] assms(2)
  by (auto simp: vm_push_def)

lemma le64_length [simp]: "length (le64 v) = 8"
  by (simp add: le64_def)

lemma vm_push64_inv:
  assumes "vm_inv vm"
  obtains vm' where "vm_push64 vm v = Some vm'" "vm_inv vm'"
  using assms that by (cases "code_i vm + 8 \<ge> VM_CODE_SIZE - 1") (simp_all add: vm_inv_def vm_push64_def)

lemma vm_push64_fits:
  assumes "vm_inv vm" and "code_i vm + 8 < VM_CODE_SIZE - 1" and "vm_push64 vm v = Some vm'"
  shows "emitted_code vm' = emitted_code vm @ le64 v"
  using assms by (auto simp: vm_push64_def emitted_code_def vm_inv_def)

lemma load32_bytes: "inst_bytes oob (OP_LOAD32_R32 b R32_EAX) 5 = [0xB8, b, 0, 0, 0]"
  by (simp add: inst_bytes_def OP_LOAD32_R32_def INST_DECL_def numeral_eq_Suc)

lemma load64_bytes: "take 2 (inst_bytes oob (OP_LOAD64_R64 b R64_RAX) 10) = [0x48, 0xB8]"
  by (simp add: inst_bytes_def OP_LOAD64_R64_def INST_DECL_def numeral_eq_Suc)

lemma nop_bytes: "inst_bytes oob OP_NOP (Suc 0) = [0x90]" "inst_bytes oob OP_NRET (Suc 0) = [0xC2]"
  by (simp_all add: inst_bytes_def OP_NOP_def OP_NRET_def INST_DECL_def)

text \<open>The bytes of the address replace the padding, so what was read past the array is gone.\<close>

lemma push_symbol_fits:
  assumes "vm_inv vm" and "code_i vm + 10 < VM_CODE_SIZE - 1"
    and "vm_push oob vm (OP_LOAD64_R64 0 R64_RAX) 10 = Some (e, vm1)"
    and "vm_push64 (vm1\<lparr>code_i := code_i vm1 - 8\<rparr>) a = Some vm2"
  shows "e = 10 \<and> emitted_code vm2 = emitted_code vm @ [0x48, 0xB8] @ le64 a"
proof -
  let ?bs = "inst_bytes oob (OP_LOAD64_R64 0 R64_RAX) 10"
  from vm_push_fits [OF assms(1), of 10 oob "OP_LOAD64_R64 0 R64_RAX"] assms(2,3) have
    vm': "e = 10" "vm_inv vm1" "emitted_code vm1 = emitted_code vm @ ?bs" "code_i vm1 = code_i vm + 10" by auto
  let ?vm = "vm1\<lparr>code_i := code_i vm1 - 8\<rparr>"
  have inv: "vm_inv ?vm" using vm'(2) by (auto simp: vm_inv_def)
  have "emitted_code ?vm = take (code_i vm + 2) (emitted_code vm1)"
    using vm'(4) by (simp add: emitted_code_def)
  also have "\<dots> = emitted_code vm @ [0x48, 0xB8]"
    using vm'(3) load64_bytes emitted_code_length [OF assms(1)] by simp
  finally have "emitted_code ?vm = emitted_code vm @ [0x48, 0xB8]" .
  moreover have "code_i ?vm + 8 < VM_CODE_SIZE - 1" using vm'(4) assms(2) by simp
  ultimately show ?thesis using vm'(1) vm_push64_fits [OF inv _ assms(4)] by simp
qed

section \<open>The generator emits the reference translation\<close>

text \<open>The bytes waiting in the queue and the symbols of a unit of work.\<close>

definition irw :: "np_work \<Rightarrow> symbol list \<Rightarrow> s8 list \<Rightarrow> bool" where
  "irw w syms bs \<longleftrightarrow>
     (\<exists>st. piir_stk w = Some st \<and> piir_inv st \<and> piir_list st = bs) \<and>
     sym_inv (symlist w) \<and> symq (symlist w) = syms"

definition gen_frame :: "np_work \<Rightarrow> np_work \<Rightarrow> bool" where
  "gen_frame w w' \<longleftrightarrow> w' = w\<lparr>piir_stk := piir_stk w', symlist := symlist w'\<rparr>"

lemma gen_frame_refl: "gen_frame w w"
  by (simp add: gen_frame_def)

lemma gen_frame_trans: "gen_frame a b \<Longrightarrow> gen_frame b c \<Longrightarrow> gen_frame a c"
  by (cases a; cases b; cases c) (simp add: gen_frame_def)

lemma gen_frame_symlist: "gen_frame w w' \<Longrightarrow> gen_frame w (w'\<lparr>symlist := sl\<rparr>)"
  by (cases w; cases w') (simp add: gen_frame_def)

lemma ir_pop_nil:
  assumes "irw w syms []"
  shows "\<exists>w'. ir_pop w = Some (- 1, w') \<and> irw w' syms [] \<and> gen_frame w w'"
proof -
  from assms obtain st where st: "piir_stk w = Some st" "piir_inv st" "piir_list st = []"
    by (auto simp: irw_def)
  then have "op_tail st = op_head st" by (simp add: piir_list_empty_iff)
  with st assms show ?thesis
    by (auto simp: ir_pop_def piir_pop_def irw_def piir_inv_def piir_list_def gen_frame_def)
qed

lemma ir_pop_cons:
  assumes "irw w syms (b # bs)"
  shows "\<exists>w'. ir_pop w = Some (b, w') \<and> irw w' syms bs \<and> gen_frame w w'"
proof -
  from assms obtain st where st: "piir_stk w = Some st" "piir_inv st" "piir_list st = b # bs"
    by (auto simp: irw_def)
  from piir_pop_ok [OF st(2,3)] obtain st' where
    "piir_pop (Some st) = Some (sint b, Some st')" "piir_inv st'" "piir_list st' = bs" by blast
  with st assms show ?thesis by (auto simp: ir_pop_def irw_def gen_frame_def)
qed

text \<open>One operation: the code it contributes and the bytes it leaves.\<close>

definition ir_op :: "symbol list \<Rightarrow> s8 \<Rightarrow> s8 list \<Rightarrow> u8 list \<times> s8 list" where
  "ir_op syms b bs =
     (if b = PIIR_RET_NUM then
        (case bs of
           [] \<Rightarrow> ([], [])
         | n # bs \<Rightarrow> (if sint n < 0 then [] else [0xB8, n, 0, 0, 0], bs))
      else if b = PIIR_RET_SYMBOL then
        (case bs of
           [] \<Rightarrow> ([], [])
         | n # bs \<Rightarrow>
             (if sint n < 0 \<or> length syms \<le> unat n then []
              else [0x48, 0xB8] @ le64 (sym_addr (syms ! unat n)), bs))
      else if b = PIIR_NOP then ([0x90], bs)
      else if b = PIIR_RET_NIL then ([0xC2], bs)
      else ([], bs))"

lemma ir_code_op:
  assumes "\<not> sint b < 0" and "ir_op syms b bs = (c, bs')"
  shows "ir_code syms (b # bs) = c @ ir_code syms bs' \<and> length bs' \<le> length bs"
proof -
  consider "b = PIIR_RET_NUM" | "b = PIIR_RET_SYMBOL" | "b = PIIR_NOP" | "b = PIIR_RET_NIL"
    | "b \<notin> {PIIR_RET_NUM, PIIR_RET_SYMBOL, PIIR_NOP, PIIR_RET_NIL}" by blast
  then show ?thesis
  proof cases
    case 1
    then show ?thesis using assms by (cases bs) (auto simp: ir_op_def)
  next
    case 2
    then show ?thesis using assms by (cases bs) (auto simp: ir_op_def)
  qed (use assms in \<open>simp_all add: ir_op_def\<close>)
qed

definition gen_step :: "symbol list \<Rightarrow> np_work \<Rightarrow> piir_vm \<Rightarrow> u8 list \<Rightarrow> s8 list \<Rightarrow> np_work \<Rightarrow> piir_vm \<Rightarrow> bool" where
  "gen_step syms w vm c bs w' vm' \<longleftrightarrow> irw w' syms bs \<and> gen_frame w w' \<and> vm_inv vm' \<and>
     (length (emitted_code vm) + length c < VM_CODE_SIZE - 1 \<longrightarrow> emitted_code vm' = emitted_code vm @ c)"

lemma gen_step_push:
  assumes "irw w' syms bs" and "gen_frame w w'" and "vm_inv vm"
    and "vm_push oob (vm\<lparr>last_ir := x\<rparr>) inst len = Some (r, vm')"
  shows "gen_step syms w vm (inst_bytes oob inst len) bs w' vm'"
proof -
  have "vm_inv vm'" using vm_push_inv [of "vm\<lparr>last_ir := x\<rparr>" oob inst len] assms(3,4) by auto
  moreover have "code_i vm + len < VM_CODE_SIZE - 1 \<Longrightarrow>
      emitted_code vm' = emitted_code vm @ inst_bytes oob inst len"
    using vm_push_fits [of "vm\<lparr>last_ir := x\<rparr>" len oob inst] assms(3,4) by auto
  ultimately show ?thesis
    using assms by (auto simp: gen_step_def emitted_code_length)
qed

lemma decode_symbol:
  assumes "irw w syms bs" and "vm_inv vm" and "ir_op syms PIIR_RET_SYMBOL bs = (c, bs')"
  shows "\<exists>r w' vm'. md_piir_decode oob w vm PIIR_RET_SYMBOL = Some (r, w', vm') \<and>
    gen_step syms w vm c bs' w' vm'"
proof (cases bs)
  case Nil
  with assms(3) have "c = []" "bs' = []" by (simp_all add: ir_op_def)
  with ir_pop_nil [of w syms] assms(1,2) Nil show ?thesis
    by (auto simp: md_piir_decode_def gen_step_def Let_def)
next
  case (Cons n bs1)
  from ir_pop_cons [of w syms n bs1] assms(1) Cons obtain w1 where
    w1: "ir_pop w = Some (n, w1)" "irw w1 syms bs1" "gen_frame w w1" by auto
  have bs': "bs' = bs1" using assms(3) Cons by (simp add: ir_op_def)
  show ?thesis
  proof (cases "sint n < 0")
    case True
    then show ?thesis
      using w1 assms(2,3) Cons by (auto simp: md_piir_decode_def gen_step_def Let_def ir_op_def)
  next
    case False
    have inv: "sym_inv (symlist w1)" "symq (symlist w1) = syms" using w1(2) by (simp_all add: irw_def)
    from symbol_lookup_id_eq [OF inv(1), of "unat n"] obtain sl where
      sl: "symbol_lookup_id (symlist w1) (unat n) =
          Some (if unat n < nsym (symlist w1) then Inr (syms ! unat n) else Inl minus_one, sl)"
        "sym_inv sl" "symq sl = syms" using inv(2) by auto
    have nsym: "nsym (symlist w1) = length syms"
      using inv by (metis diff_zero length_map length_upt sym_inv_def)
    let ?w = "w1\<lparr>symlist := sl\<rparr>"
    have w: "irw ?w syms bs1" "gen_frame w ?w"
      using w1(2) sl gen_frame_symlist [OF w1(3)] by (auto simp: irw_def)
    let ?vm = "vm\<lparr>last_ir := PIIR_RET_SYMBOL\<rparr>"
    have vm: "vm_inv ?vm" "code_i ?vm = length (emitted_code vm)" using assms(2) by (simp_all add: emitted_code_length)
    obtain e vm1 where push: "vm_push oob ?vm (OP_LOAD64_R64 0 R64_RAX) 10 = Some (e, vm1)" and inv1: "vm_inv vm1"
      using vm_push_inv [OF vm(1)] .
    have "vm_inv (vm1\<lparr>code_i := code_i vm1 - 8\<rparr>)" using inv1 by (auto simp: vm_inv_def)
    then obtain vm2 where vm2: "vm_push64 (vm1\<lparr>code_i := code_i vm1 - 8\<rparr>) (sym_addr (syms ! unat n)) = Some vm2" "vm_inv vm2"
      by (rule vm_push64_inv)
    show ?thesis
    proof (cases "unat n < length syms")
      case True
      then have c: "c = [0x48, 0xB8] @ le64 (sym_addr (syms ! unat n))"
        using assms(3) Cons False by (simp add: ir_op_def)
      have "length (emitted_code vm) + 10 < VM_CODE_SIZE - 1 \<Longrightarrow> e = 10 \<and> emitted_code vm2 = emitted_code vm @ c"
        using push_symbol_fits [OF vm(1) _ push vm2(1)] vm(2) c by simp
      then show ?thesis
        using True False w1 sl nsym push vm2 w bs' inv1 c
        by (cases "e < 0") (auto simp: md_piir_decode_def gen_step_def Let_def)
    next
      case notin: False
      then have "c = []" using assms(3) Cons by (simp add: ir_op_def)
      then show ?thesis
        using notin False w1 sl nsym w bs' assms(2) by (auto simp: md_piir_decode_def gen_step_def Let_def)
    qed
  qed
qed

lemma decode_num:
  assumes "irw w syms bs" and "vm_inv vm" and "ir_op syms PIIR_RET_NUM bs = (c, bs')"
  shows "\<exists>r w' vm'. md_piir_decode oob w vm PIIR_RET_NUM = Some (r, w', vm') \<and>
    gen_step syms w vm c bs' w' vm'"
proof (cases bs)
  case Nil
  with assms(3) have "c = []" "bs' = []" by (simp_all add: ir_op_def)
  with ir_pop_nil [of w syms] assms(1,2) Nil show ?thesis
    by (auto simp: md_piir_decode_def gen_step_def Let_def)
next
  case (Cons n bs1)
  from ir_pop_cons [of w syms n bs1] assms(1) Cons obtain w1 where
    w1: "ir_pop w = Some (n, w1)" "irw w1 syms bs1" "gen_frame w w1" by auto
  obtain r vm1 where push: "vm_push oob (vm\<lparr>last_ir := PIIR_RET_NUM\<rparr>) (OP_LOAD32_R32 n R32_EAX) 5 = Some (r, vm1)"
    by (rule vm_push_inv [of "vm\<lparr>last_ir := PIIR_RET_NUM\<rparr>" oob "OP_LOAD32_R32 n R32_EAX" 5]) (use assms(2) in auto)
  from gen_step_push [OF w1(2,3) assms(2) push] show ?thesis
    using w1 assms(2,3) Cons push
    by (cases "sint n < 0") (auto simp: md_piir_decode_def gen_step_def Let_def ir_op_def load32_bytes)
qed

lemma md_piir_decode_step:
  assumes "irw w syms bs" and "vm_inv vm" and "ir_op syms b bs = (c, bs')"
  shows "\<exists>r w' vm'. md_piir_decode oob w vm b = Some (r, w', vm') \<and> gen_step syms w vm c bs' w' vm'"
proof -
  consider "b = PIIR_RET_NUM" | "b = PIIR_RET_SYMBOL" | (nop) "b = PIIR_NOP" | (nil) "b = PIIR_RET_NIL"
    | (other) "b \<notin> {PIIR_RET_NUM, PIIR_RET_SYMBOL, PIIR_NOP, PIIR_RET_NIL}" by blast
  then show ?thesis
  proof cases
    case nop
    obtain r vm1 where push: "vm_push oob (vm\<lparr>last_ir := PIIR_NOP\<rparr>) OP_NOP 1 = Some (r, vm1)"
      by (rule vm_push_inv [of "vm\<lparr>last_ir := PIIR_NOP\<rparr>" oob OP_NOP 1]) (use assms(2) in auto)
    from gen_step_push [OF assms(1) gen_frame_refl assms(2) push] show ?thesis
      using nop assms(3) push by (auto simp: md_piir_decode_def ir_op_def nop_bytes)
  next
    case nil
    obtain r vm1 where push: "vm_push oob (vm\<lparr>last_ir := PIIR_RET_NIL\<rparr>) OP_NRET 1 = Some (r, vm1)"
      by (rule vm_push_inv [of "vm\<lparr>last_ir := PIIR_RET_NIL\<rparr>" oob OP_NRET 1]) (use assms(2) in auto)
    from gen_step_push [OF assms(1) gen_frame_refl assms(2) push] show ?thesis
      using nil assms(3) push by (auto simp: md_piir_decode_def ir_op_def nop_bytes)
  next
    case other
    then show ?thesis
      using assms gen_frame_refl by (auto simp: md_piir_decode_def ir_op_def gen_step_def)
  qed (use assms decode_num decode_symbol in auto)
qed

lemma piir_inject_loop_emits:
  "irw w syms bs \<Longrightarrow> vm_inv vm \<Longrightarrow>
   \<exists>w' vm'. piir_inject_loop oob w vm = Some (w', vm') \<and> vm_inv vm' \<and> gen_frame w w' \<and>
     (\<exists>bs'. irw w' syms bs') \<and>
     (length (emitted_code vm) + length (ir_code syms bs) < VM_CODE_SIZE - 1 \<longrightarrow>
       emitted_code vm' = emitted_code vm @ ir_code syms bs)"
proof (induction "length bs" arbitrary: bs w vm rule: less_induct)
  case less
  show ?case
  proof (cases bs)
    case Nil
    with ir_pop_nil [of w syms] less.prems show ?thesis
      by (subst piir_inject_loop.simps) auto
  next
    case (Cons b bs1)
    from ir_pop_cons [of w syms b bs1] less.prems Cons obtain w1 where
      w1: "ir_pop w = Some (b, w1)" "irw w1 syms bs1" "gen_frame w w1" by auto
    show ?thesis
    proof (cases "sint b < 0")
      case True
      with w1 less.prems Cons show ?thesis by (subst piir_inject_loop.simps) auto
    next
      case False
      obtain c bs2 where op: "ir_op syms b bs1 = (c, bs2)" by fastforce
      note code = ir_code_op [OF False op]
      from md_piir_decode_step [OF w1(2) less.prems(2) op, of oob] obtain r w2 vm2 where
        d: "md_piir_decode oob w1 vm b = Some (r, w2, vm2)" and s: "gen_step syms w1 vm c bs2 w2 vm2" by blast
      have "length bs2 < length bs" using code Cons by simp
      from less.hyps [OF this, of w2 vm2] s obtain w' vm' where
        IH: "piir_inject_loop oob w2 vm2 = Some (w', vm')" "vm_inv vm'" "gen_frame w2 w'"
        "\<exists>bs'. irw w' syms bs'"
        "length (emitted_code vm2) + length (ir_code syms bs2) < VM_CODE_SIZE - 1 \<longrightarrow>
           emitted_code vm' = emitted_code vm2 @ ir_code syms bs2" by (auto simp: gen_step_def)
      have "piir_inject_loop oob w vm = Some (w', vm')"
        using False w1 d IH(1) by (subst piir_inject_loop.simps) simp
      then show ?thesis
        using IH s code Cons gen_frame_trans [OF w1(3) gen_frame_trans [of w1 w2 w']]
        by (auto simp: gen_step_def)
    qed
  qed
qed

text \<open>
  C7 (code generation).  Draining a well-formed bytecode queue always ends and returns 0, whatever
  bytes it holds and whatever is read past the instruction arrays; the code index stays below the
  size of the buffer, and when the reference translation of the queue is shorter than 4095 bytes
  the buffer holds exactly that translation.
\<close>

theorem piir_inject_emits:
  assumes "piir_stk w = Some st" and "piir_inv st" and "sym_inv (symlist w)"
  shows "\<exists>w' vm. piir_inject oob w = Some (0, w', vm) \<and>
    length (code vm) = VM_CODE_SIZE \<and> code_i vm < VM_CODE_SIZE \<and>
    (length (ir_code (symq (symlist w)) (piir_list st)) < VM_CODE_SIZE - 1 \<longrightarrow>
      take (code_i vm) (code vm) = ir_code (symq (symlist w)) (piir_list st))"
proof -
  have "irw w (symq (symlist w)) (piir_list st)" using assms by (simp add: irw_def)
  moreover have "vm_inv piir_vm_zero" "emitted_code piir_vm_zero = []"
    by (simp_all add: vm_inv_def piir_vm_zero_def emitted_code_def)
  ultimately show ?thesis
    using piir_inject_loop_emits [of w "symq (symlist w)" "piir_list st" piir_vm_zero oob] assms(1)
    by (auto simp: piir_inject_def vm_inv_def emitted_code_def)
qed

definition conv_demo :: np_work where
  "conv_demo = (work_of [])\<lparr>piir_stk :=
     Some (piir_stack_zero\<lparr>opstore := [0, 6, 42, 5] @ replicate (PIIR_STACK_SIZE - 4) 0, op_head := 4\<rparr>)\<rparr>"

theorem piir_inject_emits_witness:
  "\<exists>w' vm. piir_inject (\<lambda>_. 0xFF) conv_demo = Some (0, w', vm) \<and>
    length (code vm) = VM_CODE_SIZE \<and> code_i vm < VM_CODE_SIZE \<and>
    take (code_i vm) (code vm) = [0x90, 0xB8, 42, 0, 0, 0, 0xC2]"
proof -
  let ?st = "piir_stack_zero\<lparr>opstore := [0, 6, 42, 5] @ replicate (PIIR_STACK_SIZE - 4) 0, op_head := 4\<rparr>"
  have "piir_stk conv_demo = Some ?st" "piir_inv ?st" "sym_inv (symlist conv_demo)"
    by (simp_all add: conv_demo_def piir_inv_def piir_stack_zero_def work_of_def sym_inv_def)
  moreover have "piir_list ?st = [0, 6, 42, 5]" by (simp add: piir_list_def piir_stack_zero_def)
  moreover have "ir_code syms [0, 6, 42, 5] = [0x90, 0xB8, 42, 0, 0, 0, 0xC2]" for syms
    by code_simp
  ultimately show ?thesis
    using piir_inject_emits [of conv_demo ?st "\<lambda>_. 0xFF"] by simp
qed

lemma find_free_reg_Some:
  "find_free_reg rs is = Some i \<Longrightarrow> i \<in> set is \<and> \<not> bit rs i"
  by (induction rs "is" rule: find_free_reg.induct) (auto split: if_splits)

lemma find_free_reg_None: "find_free_reg rs is = None \<longleftrightarrow> (\<forall>i \<in> set is. bit rs i)"
  by (induction rs "is" rule: find_free_reg.induct) auto

text \<open>
  A register is handed out exactly when not all eight are in use; it is
  one that was free, it is marked in use, the other marks stay, and freeing it restores the set.
\<close>

theorem md_alloc_reg_spec:
  "if regset vm = - 1 then md_alloc_reg vm = (- 1, vm)
   else \<exists>i vm'. md_alloc_reg vm = (int i, vm') \<and> i < 8 \<and> \<not> bit (regset vm) i \<and>
     bit (regset vm') i \<and> (\<forall>j. j \<noteq> i \<longrightarrow> bit (regset vm') j = bit (regset vm) j) \<and>
     md_free_reg vm' i = vm"
proof (cases "find_free_reg (regset vm) [0..<8]")
  case None
  then have "\<forall>i < 8. bit (regset vm) i" by (auto simp: find_free_reg_None)
  then have "regset vm = - 1" by (auto intro!: bit_word_eqI)
  then show ?thesis using None by (simp add: md_alloc_reg_def)
next
  case (Some i)
  from find_free_reg_Some [OF Some] have i: "i < 8" "\<not> bit (regset vm) i" by auto
  then have ne: "regset vm \<noteq> - 1" by auto
  have "unset_bit i (set_bit i (regset vm)) = regset vm"
    using i by (auto intro!: bit_word_eqI simp: bit_simps)
  then show ?thesis
    using ne Some i by (auto simp: md_alloc_reg_def md_free_reg_def bit_simps)
qed

theorem md_alloc_reg_spec_witness:
  "\<exists>i vm'. md_alloc_reg (piir_vm_zero\<lparr>regset := 5\<rparr>) = (int i, vm') \<and> i < 8 \<and> \<not> bit (5 :: u8) i \<and>
     bit (regset vm') i \<and> (\<forall>j. j \<noteq> i \<longrightarrow> bit (regset vm') j = bit (5 :: u8) j) \<and>
     md_free_reg vm' i = piir_vm_zero\<lparr>regset := 5\<rparr>"
  using md_alloc_reg_spec [of "piir_vm_zero\<lparr>regset := 5\<rparr>"] by simp

end
