(* ===== verification/Np_Parse.thy ===== *)
theory Np_Parse
  imports Np_Conv
begin

text \<open>
  The parser of the Pirho compiler, \<^verbatim>\<open>np/core/np_parse.c\<close>.  It pulls tokens from the lexer and
  pushes PIIR bytes as it goes.  \<open>None\<close> is undefined behaviour: a read outside the source buffer, or
  the NULL entry of the token name table in an error message.
\<close>

section \<open>Tokens and types\<close>

datatype np_itype = NP_BAD_TYPE | NP_U8 | NP_U16 | NP_U32 | NP_U64 | NP_I8 | NP_I16 | NP_I32 | NP_I64

abbreviation MAX_BEGIN_DEPTH :: u8 where "MAX_BEGIN_DEPTH \<equiv> 8"

text \<open>
  \<^verbatim>\<open>stoktab\<close>: the names of the token types in the order of \<^verbatim>\<open>tt_t\<close>.  The table has no entry for
  \<^verbatim>\<open>TT_STR\<close>, so that element is NULL.
\<close>

fun stoktab :: "tt \<Rightarrow> string option" where
  "stoktab TT_NONE = Some ''<TT_NONE>''"
| "stoktab TT_LPAREN = Some ''<TT_LPAREN>''"
| "stoktab TT_RPAREN = Some ''<TT_RPAREN>''"
| "stoktab TT_IDENT = Some ''<IDENTIFIER>''"
| "stoktab TT_COMMA = Some ''<TT_COMMA>''"
| "stoktab TT_STAR = Some ''<TT_STAR>''"
| "stoktab TT_MINUS = Some ''<TT_MINUS>''"
| "stoktab TT_PLUS = Some ''<TT_PLUS>''"
| "stoktab TT_SLASH = Some ''<TT_SLASH>''"
| "stoktab TT_EQUALS = Some ''<TT_EQUALS>''"
| "stoktab TT_GT = Some ''<TT_GREATER>''"
| "stoktab TT_LT = Some ''<TT_LESSTHAN>''"
| "stoktab TT_LBRACK = Some ''<TT_LBRACK>''"
| "stoktab TT_RBRACK = Some ''<TT_RBRACK>''"
| "stoktab TT_COLON = Some ''<TT_COLON>''"
| "stoktab TT_U8 = Some ''<TT_U8>''"
| "stoktab TT_U16 = Some ''<TT_U16>''"
| "stoktab TT_U32 = Some ''<TT_U32>''"
| "stoktab TT_U64 = Some ''<TT_U64>''"
| "stoktab TT_I8 = Some ''<TT_I8>''"
| "stoktab TT_I16 = Some ''<TT_I16>''"
| "stoktab TT_I32 = Some ''<TT_I32>''"
| "stoktab TT_I64 = Some ''<TT_I64>''"
| "stoktab TT_STR = None"
| "stoktab TT_NUMBER = Some ''<TT_NUMBER>''"
| "stoktab TT_BEGIN = Some ''<TT_BEGIN>''"
| "stoktab TT_PROC = Some ''<TT_PROC>''"
| "stoktab TT_END = Some ''<TT_END>''"
| "stoktab TT_RETURN = Some ''<TT_RETURN>''"

text \<open>Reading the two members of the token's union.\<close>

definition tok_val :: "lex_token \<Rightarrow> u64" where
  "tok_val tok =
     (case tokval tok of TVal v \<Rightarrow> v | TStr (Some (a, _)) \<Rightarrow> a | TStr None \<Rightarrow> 0)"

definition tok_str :: "lex_token \<Rightarrow> heapstr option" where
  "tok_str tok =
     (case tokval tok of TStr p \<Rightarrow> p | TVal v \<Rightarrow> if v = 0 then None else Some (v, []))"

text \<open>The parser does not look at the result of \<^verbatim>\<open>piir_push\<close>; \<open>None\<close> is a write outside the queue.\<close>

definition work_push :: "s8 \<Rightarrow> np_work \<Rightarrow> np_work option" where
  "work_push b w = map_option (\<lambda>(_, st). w\<lparr>piir_stk := st\<rparr>) (piir_push (piir_stk w) b)"

section \<open>Scanning\<close>

definition parse_scan :: "np_work \<Rightarrow> lex_token \<Rightarrow> (tt \<times> lex_token \<times> np_work) option" where
  "parse_scan w tok =
     do {
       (error, tok, w) \<leftarrow> lex_nom w tok;
       Some (if error < 0 then TT_NONE else token tok, tok, w)
     }"

definition parse_expect :: "np_work \<Rightarrow> tt \<Rightarrow> lex_token \<Rightarrow> (tt \<times> lex_token \<times> np_work) option" where
  "parse_expect w what tok =
     do {
       (t, tok, w) \<leftarrow> parse_scan w tok;
       if t \<noteq> what then
         do {
           _ \<leftarrow> stoktab what;
           _ \<leftarrow> stoktab (token tok);
           Some (TT_NONE, tok, w)
         }
       else Some (t, tok, w)
     }"

definition parse_type :: "np_work \<Rightarrow> lex_token \<Rightarrow> (np_itype \<times> lex_token \<times> np_work) option" where
  "parse_type w tok =
     do {
       (t, tok, w) \<leftarrow> parse_scan w tok;
       Some (case t of
               TT_U8 \<Rightarrow> NP_U8 | TT_U16 \<Rightarrow> NP_U16 | TT_U32 \<Rightarrow> NP_U32 | TT_U64 \<Rightarrow> NP_U64
             | TT_I8 \<Rightarrow> NP_I8 | TT_I16 \<Rightarrow> NP_I16 | TT_I32 \<Rightarrow> NP_I32 | TT_I64 \<Rightarrow> NP_I64
             | _ \<Rightarrow> NP_BAD_TYPE, tok, w)
     }"

section \<open>Statements\<close>

definition parse_return :: "np_work \<Rightarrow> lex_token \<Rightarrow> (int \<times> lex_token \<times> np_work) option" where
  "parse_return w tok =
     do {
       (error, tok, w) \<leftarrow> lex_nom w tok;
       if error < 0 then Some (error, tok, w)
       else if token tok = TT_NUMBER then
         do {
           w \<leftarrow> work_push PIIR_RET_NUM w;
           w \<leftarrow> work_push (ucast (tok_val tok)) w;
           Some (0, tok, w)
         }
       else if token tok = TT_STR then
         (case symbol_alloc (symlist w) None (tok_str tok) (work_mem w) (heap w) of
            (r, sl, box, h) \<Rightarrow>
              let w = w\<lparr>symlist := sl, work_mem := box, heap := h\<rparr> in
              (case r of
                 None \<Rightarrow> Some (- 1, tok, w)
               | Some s \<Rightarrow>
                   do {
                     w \<leftarrow> work_push PIIR_RET_SYMBOL w;
                     w \<leftarrow> work_push (word_of_nat (sym_id s)) w;
                     Some (0, tok, w)
                   }))
       else
         do {
           _ \<leftarrow> stoktab (token tok);
           Some (- 1, tok, w)
         }
     }"

text \<open>
  \<^verbatim>\<open>parse_proc\<close>, with everything behind the identifier in \<open>parse_proc_sig\<close>.
  The results for \<^verbatim>\<open>TT_MINUS\<close> and \<^verbatim>\<open>TT_GT\<close> are not looked at: the code compares the pointer
  \<^verbatim>\<open>tok\<close>, which is not NULL, with \<^verbatim>\<open>TT_NONE\<close>.
\<close>

definition parse_proc_sig :: "np_work \<Rightarrow> lex_token \<Rightarrow> (int \<times> lex_token \<times> np_work) option" where
  "parse_proc_sig w tok =
     do {
       (t, tok, w) \<leftarrow> parse_expect w TT_LPAREN tok;
       if t = TT_NONE then Some (- 1, tok, w)
       else do {
         (t, tok, w) \<leftarrow> parse_expect w TT_RPAREN tok;
         if t = TT_NONE then Some (- 1, tok, w)
         else do {
           (_, tok, w) \<leftarrow> parse_expect w TT_MINUS tok;
           (_, tok, w) \<leftarrow> parse_expect w TT_GT tok;
           (ret_type, tok, w) \<leftarrow> parse_type w tok;
           if ret_type = NP_BAD_TYPE then
             do {
               _ \<leftarrow> stoktab (token tok);
               Some (- 1, tok, w)
             }
           else do {
             (t, tok, w) \<leftarrow> parse_expect w TT_BEGIN tok;
             if t = TT_NONE then Some (- 1, tok, w)
             else Some (0, tok, w\<lparr>begin_depth := begin_depth w + 1, in_func := True\<rparr>)
           }
         }
       }
     }"

definition parse_proc :: "np_work \<Rightarrow> lex_token \<Rightarrow> (int \<times> lex_token \<times> np_work) option" where
  "parse_proc w tok =
     do {
       (t, tok, w) \<leftarrow> parse_expect w TT_IDENT tok;
       if t = TT_NONE then Some (- 1, tok, w)
       else
         (case ptrbox_strdup (map_option snd (tok_str tok)) (work_mem w) (heap w) of
            (ident, box, h) \<Rightarrow>
              let w = w\<lparr>work_mem := box, heap := h\<rparr> in
              if ident = None then Some (- errno_code ENOMEM, tok, w) else parse_proc_sig w tok)
     }"

definition parse_end :: "np_work \<Rightarrow> (int \<times> np_work) option" where
  "parse_end w =
     (if begin_depth w > 0
      then
        do {
          w \<leftarrow> work_push PIIR_RET_NIL (w\<lparr>begin_depth := begin_depth w - 1\<rparr>);
          Some (0, w)
        }
      else Some (- 1, w))"

text \<open>The case \<^verbatim>\<open>TT_BEGIN\<close> falls through into \<^verbatim>\<open>TT_END\<close>.\<close>

definition parse_token :: "np_work \<Rightarrow> lex_token \<Rightarrow> (int \<times> lex_token \<times> np_work) option" where
  "parse_token w tok =
     (case token tok of
        TT_BEGIN \<Rightarrow>
          if begin_depth w \<ge> MAX_BEGIN_DEPTH then Some (- 1, tok, w)
          else
            do {
              (r, w) \<leftarrow> parse_end (w\<lparr>begin_depth := begin_depth w + 1\<rparr>);
              Some (r, tok, w)
            }
      | TT_END \<Rightarrow>
          do {
            (r, w) \<leftarrow> parse_end w;
            Some (r, tok, w)
          }
      | TT_PROC \<Rightarrow>
          if in_func w then Some (- 1, tok, w)
          else
            do {
              (error, tok, w) \<leftarrow> parse_proc w tok;
              if error \<noteq> 0 then Some (- 1, tok, w)
              else do {
                w \<leftarrow> work_push PIIR_NOP w;
                Some (0, tok, w)
              }
            }
      | TT_RETURN \<Rightarrow>
          do {
            (error, tok, w) \<leftarrow> parse_return w tok;
            Some (if error \<noteq> 0 then - 1 else 0, tok, w)
          }
      | _ \<Rightarrow> Some (0, tok, w))"

section \<open>The main loop\<close>

text \<open>Every scan that returns something else than \<^verbatim>\<open>LEX_EOF\<close> consumes input: the loop ends.\<close>

lemma unread_upd [simp]:
  "unread (w\<lparr>heap := h\<rparr>) = unread w" "unread (w\<lparr>work_mem := b\<rparr>) = unread w"
  "unread (w\<lparr>line_no := l\<rparr>) = unread w" "unread (w\<lparr>symlist := sl\<rparr>) = unread w"
  "unread (w\<lparr>piir_stk := st\<rparr>) = unread w" "unread (w\<lparr>begin_depth := d\<rparr>) = unread w"
  "unread (w\<lparr>in_func := f\<rparr>) = unread w"
  by (simp_all add: unread_def)

lemma unread_ccache: "unread (w\<lparr>ccache := c\<rparr>) \<le> unread w + 1"
  by (simp add: unread_def)

lemma skip_space_unread:
  "skip_space w = Some (c, w') \<Longrightarrow> unread w' \<le> unread w \<and> (c \<noteq> NUL \<longrightarrow> unread w' < unread w)"
proof (induction w rule: skip_space.induct)
  case (1 w)
  from "1.prems" obtain d w1 where p: "lex_pop w = Some (d, w1)"
    by (subst (asm) skip_space.simps) (auto split: option.splits)
  let ?w = "if d = CHR 0x0A then w1\<lparr>line_no := line_no w1 + 1\<rparr> else w1"
  note d = lex_pop_unread [OF p]
  show ?case
  proof (cases "d \<noteq> NUL \<and> is_space d")
    case True
    then have "skip_space ?w = Some (c, w')"
      using "1.prems" p by (subst (asm) skip_space.simps) simp
    with True "1.IH" [OF p refl _ refl] d show ?thesis by (auto split: if_splits)
  next
    case False
    then show ?thesis
      using "1.prems" p d by (subst (asm) skip_space.simps) (auto simp: Let_def split: if_splits)
  qed
qed

lemma matchstr_loop_unread:
  "matchstr_loop w c idb = Some (r, w') \<Longrightarrow>
   unread w' \<le> unread w + (if is_alnum c then 0 else 1)"
proof (induction w c idb rule: matchstr_loop.induct)
  case (1 w c idb)
  show ?case
  proof (cases "length idb < MAX_ID_LEN \<and> is_alnum c")
    case False
    then show ?thesis
      using "1.prems" unread_ccache [where w = w and c = c]
      by (subst (asm) matchstr_loop.simps) (auto simp: is_alnum_def split: if_splits)
  next
    case True
    then obtain d w1 where p: "lex_pop w = Some (d, w1)"
      and m: "if d = NUL then r = Some (idb @ [c]) \<and> w' = w1
              else matchstr_loop w1 d (idb @ [c]) = Some (r, w')"
      using "1.prems" by (subst (asm) matchstr_loop.simps)
        (auto simp: is_alnum_def split: option.splits if_splits)
    note d = lex_pop_unread [OF p]
    from True m d "1.IH" [OF _ _ p refl] show ?thesis
      by (auto simp: is_alnum_def split: if_splits)
  qed
qed

lemma nomnum_loop_unread: "nomnum_loop w c n = Some (v, w') \<Longrightarrow> unread w' \<le> unread w"
proof (induction w c n rule: nomnum_loop.induct)
  case (1 w c n)
  show ?case
  proof (cases "is_num_c c")
    case True
    with "1.prems" obtain d w1 where p: "lex_pop w = Some (d, w1)"
      and m: "nomnum_loop w1 d (n * 10 + word_of_int (schar c - schar (CHR ''0''))) = Some (v, w')"
      by (subst (asm) nomnum_loop.simps) (auto split: option.splits)
    from "1.IH" [OF True p refl m] lex_pop_unread [OF p] show ?thesis by simp
  next
    case False
    then show ?thesis using "1.prems" by (subst (asm) nomnum_loop.simps) simp
  qed
qed

lemma nomstr_loop_unread: "nomstr_loop w buf = Some (r, w') \<Longrightarrow> unread w' \<le> unread w"
proof (induction w buf rule: nomstr_loop.induct)
  case (1 w buf)
  from "1.prems" obtain d w1 where p: "lex_pop w = Some (d, w1)"
    by (subst (asm) nomstr_loop.simps) (auto split: option.splits)
  note d = lex_pop_unread [OF p]
  show ?case
  proof (cases "d \<noteq> NUL \<and> length buf < LEX_MAX_STRLEN - 1 \<and> d \<noteq> CHR ''\"''")
    case True
    then have "nomstr_loop w1 (buf @ [d]) = Some (r, w')"
      using "1.prems" p by (subst (asm) nomstr_loop.simps) simp
    with "1.IH" [OF p refl] True d show ?thesis by simp
  next
    case False
    then show ?thesis
      using "1.prems" p d by (subst (asm) nomstr_loop.simps) (auto split: if_splits)
  qed
qed

lemma work_strdup_unread: "work_strdup s w = (p, w') \<Longrightarrow> unread w' = unread w"
  by (auto simp: work_strdup_def split: prod.splits)

lemma lex_matchstr_unread:
  assumes "lex_matchstr w c res = Some (e, tok', w')" and "is_alnum c"
  shows "unread w' \<le> unread w"
proof -
  from assms(1) obtain r w1 where m: "matchstr_loop w c [] = Some (r, w1)"
    by (cases "matchstr_loop w c []") (auto simp: lex_matchstr_def)
  have "unread w1 \<le> unread w" using matchstr_loop_unread [OF m] assms(2) by simp
  moreover have "unread w' = unread w1"
    using assms(1) m
    by (auto simp: lex_matchstr_def Let_def split: option.splits prod.splits dest!: work_strdup_unread)
  ultimately show ?thesis by simp
qed

lemma lex_nomstr_unread:
  assumes "lex_nomstr w res = Some (e, tok', w')"
  shows "unread w' \<le> unread w"
proof -
  obtain p h where k: "kalloc LEX_MAX_STRLEN (heap w) = (p, h)" by fastforce
  show ?thesis
  proof (cases p)
    case None
    then show ?thesis using assms k by (auto simp: lex_nomstr_def)
  next
    case (Some a)
    with assms k obtain r w1 where m: "nomstr_loop (w\<lparr>heap := h\<rparr>) [] = Some (r, w1)"
      by (cases "nomstr_loop (w\<lparr>heap := h\<rparr>) []") (auto simp: lex_nomstr_def)
    have "unread w1 \<le> unread w" using nomstr_loop_unread [OF m] by simp
    moreover have "unread w' = unread w1"
      using assms m k Some
      by (auto simp: lex_nomstr_def Let_def split: option.splits prod.splits dest!: work_strdup_unread)
    ultimately show ?thesis by simp
  qed
qed

lemma lex_nomnum_unread: "lex_nomnum w c res = Some (e, tok', w') \<Longrightarrow> unread w' \<le> unread w"
  by (auto simp: lex_nomnum_def bind_eq_Some_conv dest!: nomnum_loop_unread)

lemma lex_nom_unread:
  assumes "lex_nom w tok = Some (e, tok', w')"
  shows "unread w' \<le> unread w \<and> (e \<noteq> LEX_EOF \<longrightarrow> unread w' < unread w)"
proof -
  from assms obtain c w1 where sk: "skip_space w = Some (c, w1)"
    by (cases "skip_space w") (auto simp: lex_nom_def)
  note u = skip_space_unread [OF sk]
  show ?thesis
  proof (cases "c = NUL \<or> c \<in> fst ` set punct_table")
    case True
    then show ?thesis
    proof
      assume "c = NUL"
      then show ?thesis using assms sk u by (simp add: lex_nom_def)
    next
      assume c: "c \<in> fst ` set punct_table"
      have "\<forall>x \<in> set punct_table. fst x \<noteq> NUL" by (simp add: punct_table_def)
      then have "c \<noteq> NUL" using c by auto
      then show ?thesis using assms punct_lex_nom [OF sk c] u by auto
    qed
  next
    case False
    let ?tok = "tok\<lparr>token := TT_NONE\<rparr>"
    from False have c: "c \<notin> fst ` set punct_table" "c \<noteq> NUL" by auto
    consider "lex_nomstr w1 ?tok = Some (e, tok', w')"
      | tok'' e' where "lex_nomnum w1 c ?tok = Some (e', tok'', w')"
      | tok'' e' where "is_alnum c" "lex_matchstr w1 c ?tok = Some (e', tok'', w')"
      | "w' = w1"
      using assms [unfolded other_lex_nom [OF sk c]]
      by (auto simp: bind_eq_Some_conv is_alnum_def split: if_splits)
    then have "unread w' \<le> unread w1"
      by cases (auto dest: lex_nomstr_unread lex_nomnum_unread lex_matchstr_unread)
    with u False show ?thesis by auto
  qed
qed

lemma parse_scan_unread: "parse_scan w tok = Some (t, tok', w') \<Longrightarrow> unread w' \<le> unread w"
  by (auto simp: parse_scan_def bind_eq_Some_conv dest!: lex_nom_unread)

lemma parse_expect_unread: "parse_expect w what tok = Some (t, tok', w') \<Longrightarrow> unread w' \<le> unread w"
  by (auto simp: parse_expect_def bind_eq_Some_conv dest!: parse_scan_unread split: if_splits)

lemma parse_type_unread: "parse_type w tok = Some (t, tok', w') \<Longrightarrow> unread w' \<le> unread w"
  by (auto simp: parse_type_def bind_eq_Some_conv dest!: parse_scan_unread)

lemma work_push_unread: "work_push b w = Some w' \<Longrightarrow> unread w' = unread w"
  by (auto simp: work_push_def)

text \<open>
  Postconditions of the parser's steps: \<open>runs b Q m\<close> says that \<open>Q\<close> holds of what \<open>m\<close> returns if it
  returns and, when \<open>b\<close> holds, that it does return.
\<close>

definition runs :: "bool \<Rightarrow> ('a \<Rightarrow> 'b \<Rightarrow> 'c \<Rightarrow> bool) \<Rightarrow> ('a \<times> 'b \<times> 'c) option \<Rightarrow> bool" where
  "runs b Q m \<longleftrightarrow> (case m of None \<Rightarrow> \<not> b | Some (x, y, z) \<Rightarrow> Q x y z)"

abbreviation post :: "('a \<Rightarrow> 'b \<Rightarrow> 'c \<Rightarrow> bool) \<Rightarrow> ('a \<times> 'b \<times> 'c) option \<Rightarrow> bool" where
  "post \<equiv> runs False"

named_theorems runs_rules

lemma postI: "(\<And>x y z. m = Some (x, y, z) \<Longrightarrow> Q x y z) \<Longrightarrow> post Q m"
  by (auto simp: runs_def split: option.splits)

lemma runsD: "runs b Q m \<Longrightarrow> m = Some (x, y, z) \<Longrightarrow> Q x y z"
  by (simp add: runs_def)

lemma runs_mono: "runs b P m \<Longrightarrow> (\<And>x y z. P x y z \<Longrightarrow> Q x y z) \<Longrightarrow> runs b Q m"
  by (auto simp: runs_def split: option.splits)

lemma runs_TrueE: "runs True Q m \<Longrightarrow> \<exists>x y z. m = Some (x, y, z) \<and> Q x y z"
  by (auto simp: runs_def split: option.splits)

lemma runs_Some [runs_rules]: "Q x y z \<Longrightarrow> runs b Q (Some (x, y, z))"
  by (simp add: runs_def)

lemma runs_if [runs_rules]:
  "(c \<Longrightarrow> runs b Q m) \<Longrightarrow> (\<not> c \<Longrightarrow> runs b Q m') \<Longrightarrow> runs b Q (if c then m else m')"
  by simp

lemma runs_bind:
  "runs b P m \<Longrightarrow> (\<And>x y z. P x y z \<Longrightarrow> runs b Q (f x y z)) \<Longrightarrow>
   runs b Q (do { (x, y, z) \<leftarrow> m; f x y z })"
  by (cases m) (auto simp: runs_def)

lemma runs_bind1 [runs_rules]:
  "(b \<Longrightarrow> m \<noteq> None) \<Longrightarrow> (\<And>x. m = Some x \<Longrightarrow> runs b Q (f x)) \<Longrightarrow> runs b Q (do { x \<leftarrow> m; f x })"
  by (cases m) (auto simp: runs_def)

abbreviation within :: "nat \<Rightarrow> 'a \<Rightarrow> 'b \<Rightarrow> np_work \<Rightarrow> bool" where
  "within n \<equiv> \<lambda>_ _ w. unread w \<le> n"

lemma within_steps:
  assumes "unread w \<le> n"
  shows "post (within n) (lex_nom w tok)" "post (within n) (parse_expect w t tok)"
    "post (within n) (parse_type w tok)"
  using assms lex_nom_unread parse_expect_unread parse_type_unread
  by (auto intro!: postI) (meson order_trans)+

lemma parse_return_within: "unread w \<le> n \<Longrightarrow> post (within n) (parse_return w tok)"
  unfolding parse_return_def
  by (rule runs_bind, erule within_steps)
    (auto intro!: runs_rules dest!: work_push_unread simp: Let_def split: prod.splits option.splits)

lemma parse_proc_sig_within: "unread w \<le> n \<Longrightarrow> post (within n) (parse_proc_sig w tok)"
  unfolding parse_proc_sig_def
  by (rule runs_bind, erule within_steps, rule runs_if, erule runs_Some,
      rule runs_bind, erule within_steps, rule runs_if, erule runs_Some,
      rule runs_bind, erule within_steps, rule runs_bind, erule within_steps,
      rule runs_bind, erule within_steps, rule runs_if, rule runs_bind1, simp, erule runs_Some,
      rule runs_bind, erule within_steps) (auto intro!: runs_rules)

lemma parse_proc_within: "unread w \<le> n \<Longrightarrow> post (within n) (parse_proc w tok)"
  unfolding parse_proc_def
  by (rule runs_bind, erule within_steps)
    (auto intro!: runs_rules parse_proc_sig_within simp: Let_def split: prod.splits)

lemma parse_token_unread:
  assumes "parse_token w tok = Some (r, tok', w')"
  shows "unread w' \<le> unread w"
proof -
  have pe: "unread u = unread v" if "parse_end v = Some (r, u)" for r u v
    using that by (auto simp: parse_end_def bind_eq_Some_conv dest!: work_push_unread split: if_splits)
  have "post (within (unread w)) (parse_token w tok)"
  proof (cases "token tok")
    case TT_PROC
    then show ?thesis
      unfolding parse_token_def
      by (auto intro!: runs_Some runs_if runs_bind1 runs_bind [OF parse_proc_within] dest!: work_push_unread)
  next
    case TT_RETURN
    then show ?thesis
      unfolding parse_token_def
      by (auto intro!: runs_Some runs_if runs_bind [OF parse_return_within])
  next
    case TT_BEGIN
    then show ?thesis
      using pe [of "w\<lparr>begin_depth := begin_depth w + 1\<rparr>"]
      by (fastforce simp: parse_token_def intro!: runs_rules split: prod.splits)
  next
    case TT_END
    then show ?thesis
      using pe [of w] by (fastforce simp: parse_token_def intro!: runs_rules split: prod.splits)
  qed (auto simp: parse_token_def intro!: runs_rules)
  from runsD [OF this assms] show ?thesis .
qed

definition tt_list :: "tt list" where
  "tt_list =
     [TT_NONE, TT_LPAREN, TT_RPAREN, TT_IDENT, TT_COMMA, TT_STAR, TT_MINUS, TT_PLUS, TT_SLASH,
      TT_EQUALS, TT_GT, TT_LT, TT_LBRACK, TT_RBRACK, TT_COLON, TT_U8, TT_U16, TT_U32, TT_U64,
      TT_I8, TT_I16, TT_I32, TT_I64, TT_STR, TT_NUMBER, TT_BEGIN, TT_PROC, TT_END, TT_RETURN]"

definition tt_num :: "tt \<Rightarrow> nat" where
  "tt_num t = length (takeWhile ((\<noteq>) t) tt_list)"

text \<open>
  The loop of \<^verbatim>\<open>parse_work\<close>: \<open>Some e\<close> is the early return of \<open>e\<close>, \<open>None\<close> leaves the loop.
\<close>

function parse_loop :: "np_work \<Rightarrow> lex_token \<Rightarrow> (int option \<times> np_work) option" where
  "parse_loop w tok =
     (case lex_nom w tok of
        None \<Rightarrow> None
      | Some (error, tok, w) \<Rightarrow>
          if error = LEX_EOF then Some (None, w)
          else if error < 0 then Some (Some error, w)
          else if tt_num (token tok) > length tt_list then Some (Some (- 1), w)
          else
            (case parse_token w tok of
               None \<Rightarrow> None
             | Some (r, tok, w) \<Rightarrow>
                 if r < 0 then Some (Some (- 1), w)
                 else if error = 0 then parse_loop w tok
                 else Some (None, w)))"
  by pat_completeness auto
termination
  by (relation "measure (\<lambda>(w, tok). unread w)") (auto dest!: lex_nom_unread parse_token_unread)

declare parse_loop.simps [simp del]

text \<open>
  \<^verbatim>\<open>parse_work\<close>; \<open>tok\<close> is its uninitialised local, and the generated code (if the generator ran)
  is an additional result.
\<close>

definition parse_work ::
  "(nat \<Rightarrow> u8) \<Rightarrow> lex_token \<Rightarrow> np_work \<Rightarrow> (int \<times> np_work \<times> piir_vm option) option" where
  "parse_work oob tok w =
     (case piir_stack_new (work_mem w) (heap w) of
        (Inl e, box, h) \<Rightarrow> Some (- errno_code e, w\<lparr>work_mem := box, heap := h\<rparr>, None)
      | (Inr st, box, h) \<Rightarrow>
          do {
            let w = w\<lparr>piir_stk := Some st, symlist := symlist_init (symlist w),
                      work_mem := box, heap := h\<rparr>;
            (r, w) \<leftarrow> parse_loop w tok;
            case r of
              Some e \<Rightarrow> Some (e, w, None)
            | None \<Rightarrow>
                do {
                  (_, w, vm) \<leftarrow> piir_inject oob w;
                  Some (if begin_depth w > 0 then - 1 else 0, w, Some vm)
                }
          })"

section \<open>Invariants of the parser\<close>

abbreviation quoted :: "np_work \<Rightarrow> bool" where
  "quoted w \<equiv> CHR ''\"'' \<in> set (input w)"

lemma set_tl_subset: "set (tl xs) \<subseteq> set xs"
  by (cases xs) auto

lemma dropWhile_set: "set (dropWhile P xs) \<subseteq> set xs"
  by (auto dest: set_dropWhileD)

lemma ident_from_set: "ident_from k s = (r, rest) \<Longrightarrow> set rest \<subseteq> set s"
  using dropWhile_set [of is_alnum s] set_tl_subset [of "dropWhile is_alnum s"] set_drop_subset [of "33 - k" s]
  by (auto simp: ident_from_def Let_def split: if_splits)

lemma str_from_set: "str_from k s = (r, rest) \<Longrightarrow> set rest \<subseteq> set s"
  using dropWhile_set [of in_str s] set_tl_subset [of "dropWhile in_str s"] set_drop_subset [of "4096 - k" s]
  by (auto simp: str_from_def Let_def split: if_splits)

lemma punct_not_str: "\<forall>x \<in> set punct_table. snd x \<noteq> TT_STR"
  by (simp add: punct_table_def)

lemma keyword_not_str: "\<forall>x \<in> set keyword_table. snd x \<noteq> TT_STR"
  by (simp add: keyword_table_def)

lemma word_class_not_str: "word_class u \<noteq> TT_STR"
  using keyword_not_str by (auto simp: word_class_def dest!: map_of_SomeD split: option.splits)

lemma scan_spec_set:
  assumes "scan_spec m s = (e, t, v, rest)"
  shows "set rest \<subseteq> set s" and "t = TT_STR \<Longrightarrow> CHR ''\"'' \<in> set s" and "e \<le> 0"
proof -
  have dw: "set (dropWhile is_space s) \<subseteq> set s" by (rule dropWhile_set)
  have "set rest \<subseteq> set s \<and> (t = TT_STR \<longrightarrow> CHR ''\"'' \<in> set s) \<and> e \<le> 0"
  proof (cases "dropWhile is_space s")
    case Nil
    then show ?thesis using assms unfolding scan_spec_def Nil by auto
  next
    case (Cons c s')
    have s': "set s' \<subseteq> set s" "c \<in> set s" using dw Cons by auto
    have p: "c \<in> fst ` set punct_table \<Longrightarrow> the (map_of punct_table c) \<noteq> TT_STR"
      using punct_not_str map_of_SomeD [of punct_table c]
      by (metis map_of_eq_None_iff option.collapse snd_conv)
    have n: "set (tl (dropWhile is_num_c (c # s'))) \<subseteq> set (c # s')"
      using set_tl_subset dropWhile_set by (metis subset_trans)
    show ?thesis
      using assms s' p n ident_from_set [of 0 "c # s'"] str_from_set [of 0 s'] word_class_not_str
      unfolding scan_spec_def Cons list.case
      by (auto split: if_splits prod.splits option.splits)
  qed
  then show "set rest \<subseteq> set s" "t = TT_STR \<Longrightarrow> CHR ''\"'' \<in> set s" "e \<le> 0" by auto
qed

text \<open>
  What a unit of work keeps while it is parsed: a sound source buffer, a well-formed bytecode
  queue and symbol table.  \<open>moved w w'\<close> is what scanning and emitting may do to it.
\<close>

definition work_inv :: "np_work \<Rightarrow> bool" where
  "work_inv w \<longleftrightarrow> src_ok w \<and> (\<exists>st. piir_stk w = Some st \<and> piir_inv st) \<and> sym_inv (symlist w)"

definition moved :: "np_work \<Rightarrow> np_work \<Rightarrow> bool" where
  "moved w w' \<longleftrightarrow> work_inv w' \<and> begin_depth w' = begin_depth w \<and> in_func w' = in_func w \<and>
     set (input w') \<subseteq> set (input w)"

definition tok_moved :: "np_work \<Rightarrow> 'a \<Rightarrow> lex_token \<Rightarrow> np_work \<Rightarrow> bool" where
  "tok_moved w = (\<lambda>_ tok' w'. moved w w' \<and> (token tok' = TT_STR \<longrightarrow> quoted w))"

lemma moved_refl: "work_inv w \<Longrightarrow> moved w w"
  by (simp add: moved_def)

lemma moved_upd [simp]:
  "moved w (w'\<lparr>work_mem := box, heap := h\<rparr>) \<longleftrightarrow> moved w w'"
  by (simp add: moved_def work_inv_def)

lemma stoktab_Some: "(\<exists>y. stoktab t = Some y) \<longleftrightarrow> t \<noteq> TT_STR"
  by (cases t) simp_all

lemma lex_nom_moved:
  assumes "moved w0 w"
  shows "runs b (\<lambda>e tok' w'. tok_moved w0 e tok' w' \<and> e \<le> 0) (lex_nom w tok)"
proof -
  have inv: "work_inv w" "begin_depth w = begin_depth w0" "in_func w = in_func w0"
    "set (input w) \<subseteq> set (input w0)" using assms by (simp_all add: moved_def)
  obtain e t v rest where s: "scan_spec (str_mem w) (input w) = (e, t, v, rest)"
    by (cases "scan_spec (str_mem w) (input w)") auto
  have "src_ok w" using inv(1) by (simp add: work_inv_def)
  from lex_nom_spec [OF this s, of tok] obtain tok' w' where
    l: "lex_nom w tok = Some (e, tok', w')" "token tok' = t" "input w' = rest" "lexes w w'" by blast
  note sc = scan_spec_set [OF s]
  have "work_inv w'" using inv(1) l(4) by (auto simp: work_inv_def lexes_def)
  then show ?thesis
    using l sc inv by (auto simp: runs_def tok_moved_def moved_def lexes_def)
qed

lemma parse_scan_moved:
  assumes "moved w0 w"
  shows "runs b (tok_moved w0) (parse_scan w tok)"
  unfolding parse_scan_def
  by (rule runs_bind [OF lex_nom_moved [OF assms]]) (auto intro!: runs_rules simp: tok_moved_def)

lemma parse_expect_moved:
  assumes "moved w0 w" and "what \<noteq> TT_STR"
  shows "runs (\<not> quoted w0) (tok_moved w0) (parse_expect w what tok)"
  unfolding parse_expect_def
  by (rule runs_bind [OF parse_scan_moved [OF assms(1)]])
    (use assms(2) in \<open>auto intro!: runs_rules simp: tok_moved_def stoktab_Some\<close>)

lemma parse_type_moved:
  assumes "moved w0 w"
  shows "runs b (tok_moved w0) (parse_type w tok)"
  unfolding parse_type_def
  by (rule runs_bind [OF parse_scan_moved [OF assms]]) (auto intro!: runs_rules simp: tok_moved_def)

lemma piir_push_inv: "piir_inv st \<Longrightarrow> \<exists>r st'. piir_push (Some st) b = Some (r, Some st') \<and> piir_inv st'"
  by (auto simp: piir_push_def piir_inv_def buf_put_def)

lemma input_flags [simp]:
  "input (w\<lparr>begin_depth := d\<rparr>) = input w" "src_ok (w\<lparr>begin_depth := d\<rparr>) = src_ok w"
  "input (w\<lparr>in_func := f\<rparr>) = input w" "src_ok (w\<lparr>in_func := f\<rparr>) = src_ok w"
  "input (w\<lparr>symlist := sl\<rparr>) = input w" "src_ok (w\<lparr>symlist := sl\<rparr>) = src_ok w"
  "input (w\<lparr>piir_stk := st\<rparr>) = input w" "src_ok (w\<lparr>piir_stk := st\<rparr>) = src_ok w"
  by (simp_all add: input_def src_ok_def)

lemma work_push_inv:
  assumes "work_inv w"
  obtains st where "work_push b w = Some (w\<lparr>piir_stk := st\<rparr>)" "work_inv (w\<lparr>piir_stk := st\<rparr>)"
proof -
  obtain st where st: "piir_stk w = Some st" "piir_inv st" using assms by (auto simp: work_inv_def)
  obtain r st' where "piir_push (Some st) b = Some (r, Some st')" "piir_inv st'"
    using piir_push_inv [OF st(2)] by blast
  then show thesis using that [of "Some st'"] assms st by (simp add: work_push_def work_inv_def)
qed

lemma push_bind:
  assumes "moved w w'" and "\<And>v. moved w v \<Longrightarrow> runs b Q (f v)"
  shows "runs b Q (do { v \<leftarrow> work_push x w'; f v })"
proof -
  have "work_inv w'" using assms(1) by (simp add: moved_def)
  then obtain st where "work_push x w' = Some (w'\<lparr>piir_stk := st\<rparr>)" "work_inv (w'\<lparr>piir_stk := st\<rparr>)"
    by (rule work_push_inv)
  moreover from this(2) have "moved w (w'\<lparr>piir_stk := st\<rparr>)" using assms(1) by (simp add: moved_def)
  ultimately show ?thesis using assms(2) by simp
qed

lemma parse_return_moved:
  assumes "moved w0 w"
  shows "runs b (tok_moved w0) (parse_return w tok)"
  unfolding parse_return_def
proof (rule runs_bind [OF lex_nom_moved [OF assms]])
  fix e :: int and tok' w' assume a: "tok_moved w0 e tok' w' \<and> e \<le> 0"
  then have m: "moved w0 w'" and t: "token tok' = TT_STR \<longrightarrow> quoted w0" by (auto simp: tok_moved_def)
  obtain r sl box h where al: "symbol_alloc (symlist w') None (tok_str tok') (work_mem w') (heap w') = (r, sl, box, h)"
    by (metis prod_cases4)
  have "sym_inv sl" using symbol_alloc_inv [OF _ al] m by (simp add: moved_def work_inv_def)
  then have m2: "moved w0 (w'\<lparr>symlist := sl, work_mem := box, heap := h\<rparr>)"
    using m by (auto simp: moved_def work_inv_def)
  show "runs b (tok_moved w0)
     (if e < 0 then Some (e, tok', w')
      else if token tok' = TT_NUMBER then
        do { w \<leftarrow> work_push PIIR_RET_NUM w'; w \<leftarrow> work_push (ucast (tok_val tok')) w; Some (0, tok', w) }
      else if token tok' = TT_STR then
        (case symbol_alloc (symlist w') None (tok_str tok') (work_mem w') (heap w') of
           (r, sl, box, h) \<Rightarrow>
             let w = w'\<lparr>symlist := sl, work_mem := box, heap := h\<rparr> in
             (case r of
                None \<Rightarrow> Some (- 1, tok', w)
              | Some s \<Rightarrow>
                  do { w \<leftarrow> work_push PIIR_RET_SYMBOL w; w \<leftarrow> work_push (word_of_nat (sym_id s)) w; Some (0, tok', w) }))
      else do { _ \<leftarrow> stoktab (token tok'); Some (- 1, tok', w') })"
    using m m2 t al
    by (auto intro!: runs_Some runs_if push_bind simp: tok_moved_def Let_def split: option.splits simp del: moved_upd)
      (auto intro!: runs_rules simp: stoktab_Some)
qed
definition opened :: "np_work \<Rightarrow> int \<Rightarrow> lex_token \<Rightarrow> np_work \<Rightarrow> bool" where
  "opened w r tok' w' \<longleftrightarrow>
     (if r = 0
      then work_inv w' \<and> in_func w' \<and> begin_depth w' = begin_depth w + 1 \<and>
        set (input w') \<subseteq> set (input w)
      else moved w w')"

lemma opened_err: "tok_moved w0 x k v \<Longrightarrow> opened w0 (- 1) k v"
  by (simp add: opened_def tok_moved_def)

lemma opened_begin:
  "tok_moved w0 x k v \<Longrightarrow> opened w0 0 k (v\<lparr>begin_depth := begin_depth v + 1, in_func := True\<rparr>)"
  by (simp add: opened_def tok_moved_def moved_def work_inv_def)

lemma tok_movedD: "tok_moved w0 x k v \<Longrightarrow> moved w0 v"
  by (simp add: tok_moved_def)

lemma expect_bind:
  assumes "tok_moved w0 x k v" and "what \<noteq> TT_STR"
    and "\<And>t k' v'. tok_moved w0 t k' v' \<Longrightarrow> runs (\<not> quoted w0) Q (f t k' v')"
  shows "runs (\<not> quoted w0) Q (do { (t, k, w) \<leftarrow> parse_expect v what k2; f t k w })"
  by (rule runs_bind [OF parse_expect_moved [OF tok_movedD [OF assms(1)] assms(2)] assms(3)])

lemma type_bind:
  assumes "tok_moved w0 x k v"
    and "\<And>t k' v'. tok_moved w0 t k' v' \<Longrightarrow> runs b Q (f t k' v')"
  shows "runs b Q (do { (t, k, w) \<leftarrow> parse_type v k2; f t k w })"
  by (rule runs_bind [OF parse_type_moved [OF tok_movedD [OF assms(1)]] assms(2)])

lemma stoktab_bind:
  assumes "tok_moved w0 x k v"
  shows "runs (\<not> quoted w0) (opened w0) (do { _ \<leftarrow> stoktab (token k); Some (- 1, k, v) })"
  using assms opened_err [OF assms] stoktab_Some [of "token k"]
  by (intro runs_bind1 runs_Some) (auto simp: tok_moved_def)

lemma parse_proc_sig_moved:
  assumes "moved w0 w"
  shows "runs (\<not> quoted w0) (opened w0) (parse_proc_sig w tok)"
  unfolding parse_proc_sig_def
  by (rule runs_bind [OF parse_expect_moved [OF assms]], simp,
      rule runs_if, rule runs_Some, erule opened_err,
      erule expect_bind, simp, rule runs_if, rule runs_Some, erule opened_err,
      erule expect_bind, simp, erule expect_bind, simp, erule type_bind,
      rule runs_if, erule stoktab_bind,
      erule expect_bind, simp, rule runs_if, rule runs_Some, erule opened_err,
      rule runs_Some, erule opened_begin)

lemma parse_proc_moved:
  assumes "moved w0 w"
  shows "runs (\<not> quoted w0) (opened w0) (parse_proc w tok)"
  unfolding parse_proc_def
proof (rule runs_bind [OF parse_expect_moved [OF assms]])
  fix t :: tt and tok' w' assume t: "tok_moved w0 t tok' w'"
  obtain p box h where d: "ptrbox_strdup (map_option snd (tok_str tok')) (work_mem w') (heap w') = (p, box, h)"
    by (metis prod_cases3)
  have m: "moved w0 (w'\<lparr>work_mem := box, heap := h\<rparr>)" using tok_movedD [OF t] by simp
  then have "opened w0 (- errno_code ENOMEM) tok' (w'\<lparr>work_mem := box, heap := h\<rparr>)"
    by (simp add: opened_def)
  then show "runs (\<not> quoted w0) (opened w0)
      (if t = TT_NONE then Some (- 1, tok', w')
       else
         (case ptrbox_strdup (map_option snd (tok_str tok')) (work_mem w') (heap w') of
            (ident, box, h) \<Rightarrow>
              let w = w'\<lparr>work_mem := box, heap := h\<rparr> in
              if ident = None then Some (- errno_code ENOMEM, tok', w) else parse_proc_sig w tok'))"
    using parse_proc_sig_moved [OF m] opened_err [OF t] d by (simp add: runs_Some Let_def)
qed simp

text \<open>
  The state of the parser between two tokens: no more than one \<^verbatim>\<open>begin\<close> is open, and one is open
  only after the procedure header was seen.
\<close>

definition parse_inv :: "np_work \<Rightarrow> bool" where
  "parse_inv w \<longleftrightarrow> work_inv w \<and> begin_depth w \<le> 1 \<and> (begin_depth w = 1 \<longrightarrow> in_func w)"

lemma u8_le_1: "(d :: u8) \<le> 1 \<longleftrightarrow> d = 0 \<or> d = 1"
  by (auto simp: word_le_nat_alt word_unat_eq_iff)

lemma parse_end_inv:
  assumes "work_inv w"
  obtains r w' where "parse_end w = Some (r, w')" "work_inv w'" "in_func w' = in_func w" "input w' = input w"
    "begin_depth w' = (if begin_depth w > 0 then begin_depth w - 1 else begin_depth w)"
proof (cases "begin_depth w > 0")
  case True
  have "work_inv (w\<lparr>begin_depth := begin_depth w - 1\<rparr>)" using assms by (simp add: work_inv_def)
  then obtain st where "work_push PIIR_RET_NIL (w\<lparr>begin_depth := begin_depth w - 1\<rparr>) =
      Some (w\<lparr>begin_depth := begin_depth w - 1, piir_stk := st\<rparr>)"
    "work_inv (w\<lparr>begin_depth := begin_depth w - 1, piir_stk := st\<rparr>)" by (rule work_push_inv)
  then show thesis using that True by (simp add: parse_end_def)
qed (use assms that in \<open>simp add: parse_end_def\<close>)

abbreviation token_post :: "np_work \<Rightarrow> int \<Rightarrow> lex_token \<Rightarrow> np_work \<Rightarrow> bool" where
  "token_post w \<equiv> \<lambda>_ _ w'. parse_inv w' \<and> set (input w') \<subseteq> set (input w)"

lemma moved_parse_inv: "parse_inv w \<Longrightarrow> moved w w' \<Longrightarrow> parse_inv w' \<and> set (input w') \<subseteq> set (input w)"
  by (simp add: moved_def parse_inv_def)

lemma opened_parse_inv:
  assumes "parse_inv w" and "\<not> in_func w" and "opened w r tok' w'"
  shows "if r = 0 then \<exists>st. work_push PIIR_NOP w' = Some (w'\<lparr>piir_stk := st\<rparr>) \<and> parse_inv (w'\<lparr>piir_stk := st\<rparr>) else parse_inv w'"
    and "set (input w') \<subseteq> set (input w)"
proof -
  have d: "begin_depth w = 0" using assms(1,2) by (auto simp: parse_inv_def u8_le_1)
  show "set (input w') \<subseteq> set (input w)"
    using assms(3) by (auto simp: opened_def moved_def split: if_splits)
  show "if r = 0 then \<exists>st. work_push PIIR_NOP w' = Some (w'\<lparr>piir_stk := st\<rparr>) \<and> parse_inv (w'\<lparr>piir_stk := st\<rparr>) else parse_inv w'"
  proof (cases "r = 0")
    case True
    with assms(3) d have o: "work_inv w'" "in_func w'" "begin_depth w' = 1" by (simp_all add: opened_def)
    obtain st where "work_push PIIR_NOP w' = Some (w'\<lparr>piir_stk := st\<rparr>)" "work_inv (w'\<lparr>piir_stk := st\<rparr>)"
      by (rule work_push_inv [OF o(1)])
    with True o show ?thesis by (auto simp: parse_inv_def)
  next
    case False
    with assms moved_parse_inv show ?thesis by (simp add: opened_def)
  qed
qed

lemma parse_token_proc:
  assumes "parse_inv w" and "token tok = TT_PROC"
  shows "runs (\<not> quoted w) (token_post w) (parse_token w tok)"
proof (cases "in_func w")
  case True
  then show ?thesis using assms by (simp add: parse_token_def runs_def)
next
  case False
  have "moved w w" using assms(1) by (simp add: parse_inv_def moved_refl)
  note p = parse_proc_moved [OF this, of tok]
  have "parse_token w tok = do {
      (error, tok, w) \<leftarrow> parse_proc w tok;
      if error \<noteq> 0 then Some (- 1, tok, w) else do { w \<leftarrow> work_push PIIR_NOP w; Some (0, tok, w) }
    }" using False assms(2) by (simp add: parse_token_def)
  also have "runs (\<not> quoted w) (token_post w) \<dots>"
  proof (rule runs_bind [OF p])
    fix r tok' w' assume "opened w r tok' w'"
    from opened_parse_inv [OF assms(1) False this]
    show "runs (\<not> quoted w) (token_post w)
        (if r \<noteq> 0 then Some (- 1, tok', w') else do { w \<leftarrow> work_push PIIR_NOP w'; Some (0, tok', w) })"
      by (auto simp: runs_def split: if_splits)
  qed
  finally show ?thesis .
qed

lemma parse_token_end:
  assumes "parse_inv w" and "token tok = TT_END \<or> token tok = TT_BEGIN"
  shows "runs b (token_post w) (parse_token w tok)"
proof -
  have inv: "work_inv w" "begin_depth w = 0 \<or> begin_depth w = 1" "begin_depth w \<le> 1"
    using assms(1) by (auto simp: parse_inv_def u8_le_1)
  obtain r w1 where e: "parse_end w = Some (r, w1)" "work_inv w1" "in_func w1 = in_func w" "input w1 = input w"
    "begin_depth w1 = (if begin_depth w > 0 then begin_depth w - 1 else begin_depth w)"
    by (rule parse_end_inv [OF inv(1)])
  have "work_inv (w\<lparr>begin_depth := begin_depth w + 1\<rparr>)" using inv(1) by (simp add: work_inv_def)
  then obtain r' w2 where g: "parse_end (w\<lparr>begin_depth := begin_depth w + 1\<rparr>) = Some (r', w2)" "work_inv w2"
    "in_func w2 = in_func w" "input w2 = input w" "begin_depth w2 = begin_depth w"
    by (rule parse_end_inv) (use inv(2) in auto)
  have "parse_inv w1" "parse_inv w2" using assms(1) e g inv(2) by (auto simp: parse_inv_def)
  then show ?thesis
    using assms e g by (auto simp: parse_token_def runs_def)
qed

lemma parse_token_inv:
  assumes "parse_inv w"
  shows "runs (\<not> quoted w) (token_post w) (parse_token w tok)"
proof -
  have m: "moved w w" using assms by (simp add: parse_inv_def moved_refl)
  consider "token tok = TT_PROC" | "token tok = TT_END \<or> token tok = TT_BEGIN"
    | (ret) "token tok = TT_RETURN" | (other) "token tok \<notin> {TT_PROC, TT_END, TT_BEGIN, TT_RETURN}" by blast
  then show ?thesis
  proof cases
    case ret
    then have "parse_token w tok = do {
        (error, tok, w) \<leftarrow> parse_return w tok;
        Some (if error \<noteq> 0 then - 1 else 0, tok, w)
      }" by (simp add: parse_token_def)
    also have "runs (\<not> quoted w) (token_post w) \<dots>"
      by (rule runs_bind [OF parse_return_moved [OF m]])
        (use moved_parse_inv [OF assms] in \<open>auto simp: runs_def tok_moved_def\<close>)
    finally show ?thesis .
  next
    case other
    then have "parse_token w tok = Some (0, tok, w)"
      by (cases "token tok") (simp_all add: parse_token_def)
    then show ?thesis using assms by (simp add: runs_def)
  qed (use parse_token_proc [OF assms] parse_token_end [OF assms] in auto)
qed
section \<open>Properties of the parser\<close>

text \<open>The units of work the parser passes through between two tokens.\<close>

inductive parse_reach :: "np_work \<Rightarrow> np_work \<Rightarrow> bool" for w0 where
  start: "parse_reach w0 w0"
| token: "parse_reach w0 w \<Longrightarrow> lex_nom w tok = Some (0, tok1, w1) \<Longrightarrow>
    parse_token w1 tok1 = Some (r, tok2, w2) \<Longrightarrow> parse_reach w0 w2"

inductive_cases parse_reachE: "parse_reach w0 w"

lemma lex_nom_parse_inv:
  assumes "parse_inv w" and "lex_nom w tok = Some (e, tok', w')"
  shows "parse_inv w'" and "set (input w') \<subseteq> set (input w)"
proof -
  have "moved w w" using assms(1) by (simp add: parse_inv_def moved_refl)
  from runsD [OF lex_nom_moved [OF this] assms(2)] have "moved w w'" by (simp add: tok_moved_def)
  then show "parse_inv w'" "set (input w') \<subseteq> set (input w)"
    using moved_parse_inv [OF assms(1)] by simp_all
qed

lemma parse_reach_inv: "parse_reach w0 w \<Longrightarrow> parse_inv w0 \<Longrightarrow> parse_inv w"
proof (induction rule: parse_reach.induct)
  case (token w tok tok1 w1 r tok2 w2)
  have "parse_inv w1" using lex_nom_parse_inv(1) [OF token.IH [OF token.prems] token.hyps(2)] .
  from runsD [OF parse_token_inv [OF this] token.hyps(3)] show ?case by simp
qed

text \<open>
  C21 (nesting).  From a unit of work in its initial state, no sequence of tokens opens more than
  one \<^verbatim>\<open>begin\<close> block: the depth stays at 0 or 1 and is 1 only inside the one procedure that can be
  declared, so the limit \<^verbatim>\<open>MAX_BEGIN_DEPTH\<close> is never reached.  The bytecode queue and the symbol
  table stay well-formed.
\<close>

theorem parse_depth_invariant:
  assumes "work_inv w0" and "begin_depth w0 = 0" and "parse_reach w0 w"
  shows "begin_depth w \<le> 1 \<and> (begin_depth w = 1 \<longrightarrow> in_func w) \<and> work_inv w"
proof -
  have "parse_inv w0" using assms(1,2) by (simp add: parse_inv_def)
  from parse_reach_inv [OF assms(3) this] show ?thesis by (simp add: parse_inv_def)
qed

lemma lex_nom_runs:
  assumes "parse_inv w"
  shows "\<exists>e tok' w'. lex_nom w tok = Some (e, tok', w') \<and> e \<le> 0"
proof -
  have "moved w w" using assms by (simp add: parse_inv_def moved_refl)
  from runs_TrueE [OF lex_nom_moved [OF this]] show ?thesis by blast
qed

lemma parse_loop_runs:
  "parse_inv w \<Longrightarrow> \<not> quoted w \<Longrightarrow> \<exists>r w'. parse_loop w tok = Some (r, w') \<and> parse_inv w'"
proof (induction w tok rule: parse_loop.induct)
  case (1 w tok)
  from lex_nom_runs [OF "1.prems"(1), of tok] obtain e tok1 w1 where
    l: "lex_nom w tok = Some (e, tok1, w1)" "e \<le> 0" by blast
  note i1 = lex_nom_parse_inv [OF "1.prems"(1) l(1)]
  have q1: "\<not> quoted w1" using i1(2) "1.prems"(2) by auto
  from parse_token_inv [OF i1(1), of tok1] q1 obtain r tok2 w2 where
    t: "parse_token w1 tok1 = Some (r, tok2, w2)" "parse_inv w2" "set (input w2) \<subseteq> set (input w1)"
    by (auto dest!: runs_TrueE)
  have q2: "\<not> quoted w2" using t(3) q1 by auto
  show ?case
  proof (cases "e = 0 \<and> \<not> tt_num (token tok1) > length tt_list \<and> \<not> r < 0")
    case True
    then have "parse_loop w tok = parse_loop w2 tok2"
      using l t by (subst parse_loop.simps) simp
    with "1.IH" [OF l(1) refl refl _ _ _ t(1) refl refl _ _ t(2) q2] True show ?thesis by simp
  next
    case False
    then show ?thesis using l t i1 by (subst parse_loop.simps) auto
  qed
qed

lemma piir_stack_new_inv: "piir_stack_new box h = (Inr st, box', h') \<Longrightarrow> piir_inv st"
  by (auto simp: piir_stack_new_def piir_stack_zero_def piir_inv_def split: option.splits prod.splits)


text \<open>
  A string literal where a procedure name is expected
  makes the error message read the missing entry of the token name table: the parser does not
  return.
\<close>

theorem parse_proc_string:
  assumes "src_ok w" and "str_mem w" and "input w = CHR '' '' # CHR ''\"'' # s"
  shows "parse_proc w tok = None"
proof -
  have "dropWhile is_space (input w) = CHR ''\"'' # s"
    using assms(3) by (simp add: is_space_def)
  moreover obtain r rest where "str_from 0 s = (r, rest)" by fastforce
  ultimately obtain e v where s: "scan_spec (str_mem w) (input w) = (e, TT_STR, v, rest)"
    using assms(2) by (cases r) (auto simp: scan_spec_def punct_table_def)
  from lex_nom_spec [OF assms(1) s, of tok] show ?thesis
    by (auto simp: parse_proc_def parse_expect_def parse_scan_def)
qed

theorem parse_proc_string_witness: "parse_proc (work_of '' \"f\"()'') tok_zero = None"
  by (rule parse_proc_string [OF work_of_ok(1,3)]) (simp add: work_of_ok)


definition parse_demo :: np_work where
  "parse_demo = (work_of ''x end'')\<lparr>piir_stk := Some piir_stack_zero\<rparr>"

theorem parse_depth_invariant_witness:
  "\<exists>w. parse_reach parse_demo w \<and> input w = '' end'' \<and>
    begin_depth w \<le> 1 \<and> (begin_depth w = 1 \<longrightarrow> in_func w) \<and> work_inv w"
proof -
  have ok: "src_ok parse_demo" "input parse_demo = ''x end''" "work_inv parse_demo" "begin_depth parse_demo = 0"
    by (simp_all add: parse_demo_def work_of_ok work_inv_def piir_inv_def piir_stack_zero_def)
      (simp_all add: work_of_def sym_inv_def)
  have "scan_spec m ''x end'' = (0, TT_IDENT, LStr ''x'', '' end'')" for m
    by (cases m) code_simp+
  with lex_nom_spec [OF ok(1), of 0 TT_IDENT "LStr ''x''" "'' end''" tok_zero] ok(2) obtain tok1 w1 where
    l: "lex_nom parse_demo tok_zero = Some (0, tok1, w1)" "token tok1 = TT_IDENT" "input w1 = '' end''" by auto
  have "parse_token w1 tok1 = Some (0, tok1, w1)" using l(2) by (simp add: parse_token_def)
  with parse_reach.token [OF parse_reach.start l(1)] have "parse_reach parse_demo w1" by blast
  with parse_depth_invariant [OF ok(3,4) this] l(3) show ?thesis by blast
qed

end
