(* ===== verification/Np_Compile.thy ===== *)
theory Np_Compile
  imports Np_Parse
begin

text \<open>
  Compiling a whole procedure: the source text goes through the lexer, the parser, the bytecode
  queue and the code generator.  This theory follows one family of programs from the source to the
  machine code.
\<close>

section \<open>Stepping through a source text\<close>

text \<open>A unit of work with memory, at the given input, with a given queue and given flags.\<close>

definition at :: "np_work \<Rightarrow> char list \<Rightarrow> s8 list \<Rightarrow> bool \<Rightarrow> u8 \<Rightarrow> bool" where
  "at w s bs f d \<longleftrightarrow> src_ok w \<and> mem_ok w \<and> input w = s \<and> in_func w = f \<and> begin_depth w = d \<and>
     (\<exists>st. piir_stk w = Some st \<and> piir_inv st \<and> piir_list st = bs \<and> op_tail st = 0) \<and>
     sym_inv (symlist w)"

lemma mem_ok_str_mem: "mem_ok w \<Longrightarrow> str_mem w"
  by (simp add: mem_ok_def str_mem_def kalloc_def Let_def)

lemma lex_at:
  assumes "at w s bs f d" and "scan_spec True s = (e, t, v, rest)"
  shows "runs True (\<lambda>e' tok' w'. e' = e \<and> token tok' = t \<and> val_ok True v (tokval tok) (tokval tok') \<and>
    at w' rest bs f d) (lex_nom w tok)"
proof -
  have ok: "src_ok w" "mem_ok w" "scan_spec (str_mem w) (input w) = (e, t, v, rest)"
    using assms mem_ok_str_mem by (auto simp: at_def)
  from lex_nom_spec [OF ok(1,3), of tok] assms(1) ok(2) show ?thesis
    by (auto simp: at_def lexes_def runs_def)
qed

lemma scan_at:
  assumes "at w s bs f d" and "scan_spec True s = (0, t, v, rest)"
  shows "runs True (\<lambda>t' tok' w'. t' = t \<and> token tok' = t \<and> val_ok True v (tokval tok) (tokval tok') \<and>
    at w' rest bs f d) (parse_scan w tok)"
  unfolding parse_scan_def
  by (rule runs_bind [OF lex_at [OF assms]]) (auto intro: runs_Some)

lemma expect_at:
  assumes "at w s bs f d" and "scan_spec True s = (0, t, v, rest)"
  shows "runs True (\<lambda>t' tok' w'. t' = t \<and> val_ok True v (tokval tok) (tokval tok') \<and> at w' rest bs f d)
    (parse_expect w t tok)"
  unfolding parse_expect_def
  by (rule runs_bind [OF scan_at [OF assms]]) (auto intro: runs_Some)

lemma type_at:
  assumes "at w s bs f d" and "scan_spec True s = (0, t, v, rest)"
    and "t \<in> {TT_U8, TT_U16, TT_U32, TT_U64, TT_I8, TT_I16, TT_I32, TT_I64}"
  shows "runs True (\<lambda>t' tok' w'. t' \<noteq> NP_BAD_TYPE \<and> at w' rest bs f d) (parse_type w tok)"
  unfolding parse_type_def
  by (rule runs_bind [OF scan_at [OF assms(1,2)]]) (use assms(3) in \<open>auto intro!: runs_Some\<close>)

lemma push_at:
  assumes "at w s bs f d" and "length bs < PIIR_STACK_SIZE - 1"
  shows "\<exists>w'. work_push b w = Some w' \<and> at w' s (bs @ [b]) f d"
proof -
  from assms(1) obtain st where st: "piir_stk w = Some st" "piir_inv st" "piir_list st = bs" "op_tail st = 0"
    by (auto simp: at_def)
  have "length bs = op_head st" using st by (auto simp: piir_list_def piir_inv_def)
  then have "0 < piir_room st" using assms(2) by (simp add: piir_room_def)
  from piir_push_ok [OF st(2) this, of b] obtain st' where
    p: "piir_push (Some st) b = Some (Inr (), Some st')" "piir_inv st'" "piir_list st' = bs @ [b]" using st(3) by auto
  have "op_tail st' = 0" using p(1) st(4) by (auto simp: piir_push_def split: if_splits option.splits)
  then show ?thesis
    using assms(1) st p by (auto simp: at_def work_push_def mem_ok_def)
qed

lemma strdup_at:
  assumes "at w s bs f d"
  shows "\<exists>p box h. ptrbox_strdup (Some x) (work_mem w) (heap w) = (Some p, box, h) \<and>
    at (w\<lparr>work_mem := box, heap := h\<rparr>) s bs f d"
proof -
  obtain p w' where d: "work_strdup x w = (p, w')" by fastforce
  have ok: "src_ok w" "mem_ok w" using assms by (simp_all add: at_def)
  from work_strdup_spec(1,2) [OF d ok(1)] work_strdup_spec(3) [OF d ok(1), of "TVal 0"] ok(2) assms have "p \<noteq> None" "at w' s bs f d"
    by (auto simp: at_def lexes_def val_ok_def)
  with d show ?thesis by (auto simp: work_strdup_def split: prod.splits)
qed

lemma scan_word_end:
  assumes "u \<noteq> []" and "is_alpha (hd u)" and "\<forall>c \<in> set u. is_alnum c" and "length u < MAX_ID_LEN"
  shows "scan_spec m u = (0, word_class u, LStr u, [])"
proof -
  from assms(1,2) obtain c v where u: "u = c # v" "is_alpha c" by (cases u) auto
  note c = is_alpha_char [OF u(2)]
  have dw: "dropWhile is_space u = c # v" using u c(4) by simp
  have run: "takeWhile is_alnum u = u" "dropWhile is_alnum u = []" using assms(3) by simp_all
  have "ident_from 0 u = (Some u, [])" using assms(4) by (simp add: ident_from_def ended_def Let_def run)
  then show ?thesis unfolding scan_spec_def dw using c u by simp
qed

section \<open>A procedure that returns a number\<close>

definition type_names :: "string list" where
  "type_names = [''u8'', ''u16'', ''u32'', ''u64'', ''i8'', ''i16'', ''i32'', ''i64'']"

definition proc_source :: "char list \<Rightarrow> char list \<Rightarrow> char list \<Rightarrow> char \<Rightarrow> char list" where
  "proc_source u ty ds c =
     ''proc '' @ u @ ''() -> '' @ ty @ '' begin return '' @ ds @ [c] @ ''end''"

definition word_ok :: "char list \<Rightarrow> bool" where
  "word_ok u \<longleftrightarrow> u \<noteq> [] \<and> is_alpha (hd u) \<and> (\<forall>c \<in> set u. is_alnum c) \<and> length u < MAX_ID_LEN"

lemma scan_word_ok:
  "word_ok u \<Longrightarrow> \<not> is_alnum d \<Longrightarrow> d \<noteq> NUL \<Longrightarrow>
   scan_spec m (u @ d # s) = (0, word_class u, LStr u, d # s) \<and>
   scan_spec m (CHR '' '' # u @ d # s) = (0, word_class u, LStr u, d # s)"
  using scan_word [of u d "[]" m s] scan_word [of u d "'' ''" m s]
  by (simp add: word_ok_def is_space_def)

lemma delims: "\<not> is_alnum (CHR '' '')" "\<not> is_alnum (CHR ''('')"
  by code_simp+

lemma kw_ok: "word_ok ''proc''" "word_ok ''begin''" "word_ok ''return''" "word_ok ''end''"
  by code_simp+

lemma kw_class: "word_class ''proc'' = TT_PROC" "word_class ''begin'' = TT_BEGIN"
  "word_class ''return'' = TT_RETURN" "word_class ''end'' = TT_END"
  by (simp_all add: word_class_def keyword_table_def)

lemma type_names_ok:
  assumes "ty \<in> set type_names"
  shows "word_ok ty" "word_class ty \<in> {TT_U8, TT_U16, TT_U32, TT_U64, TT_I8, TT_I16, TT_I32, TT_I64}"
proof -
  have "list_all (\<lambda>t. word_ok t \<and>
      word_class t \<in> {TT_U8, TT_U16, TT_U32, TT_U64, TT_I8, TT_I16, TT_I32, TT_I64}) type_names"
    by code_simp
  then show "word_ok ty" "word_class ty \<in> {TT_U8, TT_U16, TT_U32, TT_U64, TT_I8, TT_I16, TT_I32, TT_I64}"
    using assms by (auto simp: list_all_iff)
qed

lemma scan_sym:
  "scan_spec m (CHR ''('' # s) = (0, TT_LPAREN, LKeep, s)" "scan_spec m (CHR '')'' # s) = (0, TT_RPAREN, LKeep, s)"
  "scan_spec m (CHR '' '' # CHR ''-'' # s) = (0, TT_MINUS, LKeep, s)" "scan_spec m (CHR ''>'' # s) = (0, TT_GT, LKeep, s)"
proof -
  have t: "map_of punct_table (CHR ''('') = Some TT_LPAREN" "map_of punct_table (CHR '')'') = Some TT_RPAREN"
    "map_of punct_table (CHR ''-'') = Some TT_MINUS" "map_of punct_table (CHR ''>'') = Some TT_GT"
    by (simp_all add: punct_table_def)
  show "scan_spec m (CHR ''('' # s) = (0, TT_LPAREN, LKeep, s)" "scan_spec m (CHR '')'' # s) = (0, TT_RPAREN, LKeep, s)"
    "scan_spec m (CHR ''>'' # s) = (0, TT_GT, LKeep, s)"
    using scan_punct [OF t(1), of "[]"] scan_punct [OF t(2), of "[]"] scan_punct [OF t(4), of "[]"] by simp_all
  show "scan_spec m (CHR '' '' # CHR ''-'' # s) = (0, TT_MINUS, LKeep, s)"
    using scan_punct [OF t(3), of "'' ''"] by (simp add: is_space_def)
qed

lemma begin_at:
  "at w s bs f d \<Longrightarrow> at (w\<lparr>begin_depth := begin_depth w + 1, in_func := True\<rparr>) s bs True (d + 1)"
  by (auto simp: at_def mem_ok_def)

lemma sig_at:
  assumes "at w (''() -> '' @ ty @ '' begin '' @ r) bs f d" and "ty \<in> set type_names"
  shows "runs True (\<lambda>e tok' w'. e = 0 \<and> at w' (CHR '' '' # r) bs True (d + 1)) (parse_proc_sig w tok)"
proof -
  note ty = type_names_ok [OF assms(2)]
  have sty: "scan_spec True (CHR '' '' # ty @ '' begin '' @ r) = (0, word_class ty, LStr ty, '' begin '' @ r)"
    using scan_word_ok [OF ty(1) delims(1)] by simp
  have sbeg: "scan_spec True (CHR '' '' # ''begin'' @ CHR '' '' # r) = (0, TT_BEGIN, LStr ''begin'', CHR '' '' # r)"
    using scan_word_ok [OF kw_ok(2) delims(1), of True r] by (simp add: kw_class)
  show ?thesis
    unfolding parse_proc_sig_def
  proof (rule runs_bind [OF expect_at [OF assms(1)]], simp add: scan_sym, clarsimp, goal_cases)
    case (1 k1 w1)
    show ?case
    proof (rule runs_bind [OF expect_at [OF 1(2)]], simp add: scan_sym, clarsimp, goal_cases)
      case (1 k2 w2)
      show ?case
      proof (rule runs_bind [OF expect_at [OF 1(2)]], simp add: scan_sym, clarsimp, goal_cases)
        case (1 k3 w3)
        show ?case
        proof (rule runs_bind [OF expect_at [OF 1(2)]], simp add: scan_sym, clarsimp, goal_cases)
          case (1 k4 w4)
          show ?case
          proof (rule runs_bind [OF type_at [OF 1(2) _ ty(2)]], use sty in simp, clarsimp, goal_cases)
            case (1 t5 k5 w5)
            show ?case
              by (rule runs_bind [OF expect_at [OF 1(2), of TT_BEGIN]], use sbeg in simp)
                (auto intro!: runs_Some begin_at)
          qed
        qed
      qed
    qed
  qed
qed

lemma proc_at:
  assumes "at w (CHR '' '' # u @ ''() -> '' @ ty @ '' begin '' @ r) bs f d" and "ty \<in> set type_names"
    and "word_ok u" and "word_class u = TT_IDENT"
  shows "runs True (\<lambda>e tok' w'. e = 0 \<and> at w' (CHR '' '' # r) bs True (d + 1)) (parse_proc w tok)"
proof -
  have su: "scan_spec True (CHR '' '' # u @ ''() -> '' @ ty @ '' begin '' @ r) =
      (0, TT_IDENT, LStr u, ''() -> '' @ ty @ '' begin '' @ r)"
    using scan_word_ok [OF assms(3) delims(2)] assms(4) by simp
  show ?thesis
    unfolding parse_proc_def
  proof (rule runs_bind [OF expect_at [OF assms(1) su]], clarsimp simp: val_ok_def, goal_cases)
    case (1 k1 w1 a)
    from strdup_at [OF 1(1), of u] obtain p box h where
      "ptrbox_strdup (Some u) (work_mem w1) (heap w1) = (Some p, box, h)"
      and m: "at (w1\<lparr>work_mem := box, heap := h\<rparr>) (''() -> '' @ ty @ '' begin '' @ r) bs f d" by auto
    with 1 sig_at [OF m assms(2)] show ?case by (simp add: tok_str_def Let_def)
  qed
qed

lemma return_at:
  assumes "at w (CHR '' '' # ds @ c # r) bs f d" and "ds \<noteq> []" and "\<forall>c \<in> set ds. is_num_c c"
    and "\<not> is_num_c c" and "length bs < PIIR_STACK_SIZE - 2"
  shows "runs True (\<lambda>e tok' w'. e = 0 \<and> at w' r (bs @ [PIIR_RET_NUM, word_of_nat (dec_val ds)]) f d)
    (parse_return w tok)"
proof -
  have s: "scan_spec True (CHR '' '' # ds @ c # r) = (0, TT_NUMBER, LNum (word_of_nat (dec_val ds)), r)"
    using scan_number [OF assms(2-4), of "'' ''" True r] by (simp add: is_space_def)
  show ?thesis
    unfolding parse_return_def
  proof (rule runs_bind [OF lex_at [OF assms(1) s]], clarsimp simp: val_ok_def, goal_cases)
    case (1 k1 w1)
    have v: "(ucast (word_of_nat (dec_val ds) :: u64) :: s8) = word_of_nat (dec_val ds)"
      by (rule bit_word_eqI) (simp add: bit_ucast_iff bit_of_nat_iff)
    obtain w2 where p1: "work_push PIIR_RET_NUM w1 = Some w2" "at w2 r (bs @ [PIIR_RET_NUM]) f d"
      using push_at [OF 1(3), of PIIR_RET_NUM] assms(5) by auto
    obtain w3 where p2: "work_push (word_of_nat (dec_val ds)) w2 = Some w3"
      "at w3 r (bs @ [PIIR_RET_NUM, word_of_nat (dec_val ds)]) f d"
      using push_at [OF p1(2), of "word_of_nat (dec_val ds)"] assms(5) by auto
    from p1(1) p2 1 show ?case by (auto intro!: runs_Some simp: tok_val_def v)
  qed
qed

lemma tt_num_le: "tt_num t \<le> length tt_list"
  by (simp add: tt_num_def length_takeWhile_le)

lemma loop_step:
  assumes "at w s bs f d" and "scan_spec True s = (0, t, v, rest)"
    and "\<And>tok' w'. token tok' = t \<Longrightarrow> at w' rest bs f d \<Longrightarrow>
      runs True (\<lambda>e k u. e = 0 \<and> at u s2 bs2 f2 d2) (parse_token w' tok')"
  shows "\<exists>tok'' w''. parse_loop w tok = parse_loop w'' tok'' \<and> at w'' s2 bs2 f2 d2"
proof -
  from runs_TrueE [OF lex_at [OF assms(1,2), of tok]] obtain tok1 w1 where
    1: "lex_nom w tok = Some (0, tok1, w1)" "token tok1 = t" "at w1 rest bs f d" by auto
  from runs_TrueE [OF assms(3) [OF 1(2,3)]] obtain tok2 w2 where
    2: "parse_token w1 tok1 = Some (0, tok2, w2)" "at w2 s2 bs2 f2 d2" by auto
  have "parse_loop w tok = parse_loop w2 tok2"
    using 1 2 tt_num_le [of "token tok1"] by (subst parse_loop.simps) simp
  with 2(2) show ?thesis by blast
qed

lemma loop_end:
  assumes "at w [] bs f d"
  shows "\<exists>w'. parse_loop w tok = Some (None, w') \<and> at w' [] bs f d"
proof -
  have "scan_spec True [] = (LEX_EOF, TT_NONE, LKeep, [])" by (simp add: scan_spec_def)
  from runs_TrueE [OF lex_at [OF assms this, of tok]] show ?thesis
    by (subst parse_loop.simps) auto
qed

lemma sint_s8_neg: "sint (v :: s8) < 0 \<longleftrightarrow> 128 \<le> unat v"
proof -
  have "sint v = signed_take_bit 7 (uint v)" by (simp add: sint_uint)
  also have "\<dots> = take_bit 8 (uint v) - (if bit (uint v) 7 then 256 else 0)"
    by (simp add: signed_take_bit_eq_take_bit_minus)
  finally have s: "sint v = uint v - (if bit (uint v) 7 then 256 else 0)"
    using take_bit_int_eq_self_iff [of 8 "uint v"] uint_lt2p [of v] by simp
  have "odd (x div 128) \<longleftrightarrow> 128 \<le> x" if "0 \<le> x" "x < 256" for x :: int
    using that int_div_pos_eq [of x 128 1 "x - 128"] by (cases "128 \<le> x") simp_all
  from this [of "uint v"] have b: "bit (uint v) 7 \<longleftrightarrow> 128 \<le> uint v"
    using uint_lt2p [of v] by (simp add: bit_iff_odd)
  have u: "int (unat v) = uint v" and lt: "uint v < 256" using uint_lt2p [of v] by simp_all
  have ge: "0 \<le> uint v" by simp
  show ?thesis
  proof (cases "bit (uint v) 7")
    case True
    then have "sint v = uint v - 256" "128 \<le> uint v" using s b by simp_all
    with u lt show ?thesis by linarith
  next
    case False
    then have "sint v = uint v" "\<not> 128 \<le> uint v" using s b by simp_all
    with u ge show ?thesis by linarith
  qed
qed

lemma proc_token_at:
  assumes "token tok = TT_PROC" and "at w (CHR '' '' # u @ ''() -> '' @ ty @ '' begin '' @ r) [] False 0"
    and "ty \<in> set type_names" and "word_ok u" and "word_class u = TT_IDENT"
  shows "runs True (\<lambda>e k v. e = 0 \<and> at v (CHR '' '' # r) [PIIR_NOP] True 1) (parse_token w tok)"
proof -
  have "parse_token w tok = do {
      (error, tok, w) \<leftarrow> parse_proc w tok;
      if error \<noteq> 0 then Some (- 1, tok, w) else do { w \<leftarrow> work_push PIIR_NOP w; Some (0, tok, w) }
    }" using assms(1,2) by (simp add: parse_token_def at_def)
  also have "runs True (\<lambda>e k v. e = 0 \<and> at v (CHR '' '' # r) [PIIR_NOP] True 1) \<dots>"
    by (rule runs_bind [OF proc_at [OF assms(2-5)]])
      (use push_at [of _ "CHR '' '' # r" "[]" True 1 PIIR_NOP] in \<open>fastforce intro!: runs_Some\<close>)
  finally show ?thesis .
qed

lemma return_token_at:
  assumes "token tok = TT_RETURN" and "at w (CHR '' '' # ds @ c # r) [PIIR_NOP] True 1" and "ds \<noteq> []"
    and "\<forall>c \<in> set ds. is_num_c c" and "\<not> is_num_c c"
  shows "runs True (\<lambda>e k v. e = 0 \<and> at v r [PIIR_NOP, PIIR_RET_NUM, word_of_nat (dec_val ds)] True 1)
    (parse_token w tok)"
proof -
  have "parse_token w tok = do {
      (error, tok, w) \<leftarrow> parse_return w tok;
      Some (if error \<noteq> 0 then - 1 else 0, tok, w)
    }" using assms(1) by (simp add: parse_token_def)
  also have "runs True (\<lambda>e k v. e = 0 \<and> at v r [PIIR_NOP, PIIR_RET_NUM, word_of_nat (dec_val ds)] True 1) \<dots>"
    by (rule runs_bind [OF return_at [OF assms(2-5)]]) (auto intro!: runs_Some)
  finally show ?thesis .
qed

lemma end_token_at:
  assumes "token tok = TT_END" and "at w s bs True 1" and "length bs < PIIR_STACK_SIZE - 1"
  shows "runs True (\<lambda>e k v. e = 0 \<and> at v s (bs @ [PIIR_RET_NIL]) True 0) (parse_token w tok)"
proof -
  have "at (w\<lparr>begin_depth := begin_depth w - 1\<rparr>) s bs True 0"
    using assms(2) by (auto simp: at_def mem_ok_def)
  from push_at [OF this assms(3), of PIIR_RET_NIL] obtain w' where
    p: "work_push PIIR_RET_NIL (w\<lparr>begin_depth := begin_depth w - 1\<rparr>) = Some w'" "at w' s (bs @ [PIIR_RET_NIL]) True 0" by blast
  have "begin_depth w > 0" using assms(2) by (simp add: at_def)
  then show ?thesis using assms(1) p by (simp add: parse_token_def parse_end_def runs_Some)
qed

lemma proc_loop:
  assumes "at w (proc_source u ty ds c) [] False 0" and "word_ok u" and "word_class u = TT_IDENT"
    and "ty \<in> set type_names" and "ds \<noteq> []" and "\<forall>c \<in> set ds. is_num_c c" and "\<not> is_num_c c"
  shows "\<exists>w'. parse_loop w tok = Some (None, w') \<and>
    at w' [] [PIIR_NOP, PIIR_RET_NUM, word_of_nat (dec_val ds), PIIR_RET_NIL] True 0"
proof -
  let ?r1 = "u @ ''() -> '' @ ty @ '' begin '' @ ''return '' @ ds @ c # ''end''"
  let ?r2 = "ds @ c # ''end''"
  have src: "proc_source u ty ds c = ''proc'' @ CHR '' '' # ?r1"
    by (simp add: proc_source_def)
  have s1: "scan_spec True (proc_source u ty ds c) = (0, TT_PROC, LStr ''proc'', CHR '' '' # ?r1)"
    unfolding src using scan_word_ok [OF kw_ok(1) delims(1), of True] by (simp add: kw_class)
  have s2: "scan_spec True (CHR '' '' # ''return '' @ ?r2) = (0, TT_RETURN, LStr ''return'', CHR '' '' # ?r2)"
    using scan_word_ok [OF kw_ok(3) delims(1), of True ?r2] by (simp add: kw_class)
  have s3: "scan_spec True ''end'' = (0, TT_END, LStr ''end'', [])"
    using scan_word_end [of "''end''" True] kw_ok(4) by (simp add: word_ok_def kw_class)
  have "\<exists>k1 w1. parse_loop w tok = parse_loop w1 k1 \<and> at w1 (CHR '' '' # ''return '' @ ?r2) [PIIR_NOP] True 1"
    by (rule loop_step [OF assms(1) s1], rule proc_token_at) (use assms in auto)
  then obtain k1 w1 where 1: "parse_loop w tok = parse_loop w1 k1"
    "at w1 (CHR '' '' # ''return '' @ ?r2) [PIIR_NOP] True 1" by blast
  have "\<exists>k2 w2. parse_loop w1 k1 = parse_loop w2 k2 \<and>
      at w2 ''end'' [PIIR_NOP, PIIR_RET_NUM, word_of_nat (dec_val ds)] True 1"
    by (rule loop_step [OF 1(2) s2], rule return_token_at) (use assms in auto)
  then obtain k2 w2 where 2: "parse_loop w1 k1 = parse_loop w2 k2"
    "at w2 ''end'' [PIIR_NOP, PIIR_RET_NUM, word_of_nat (dec_val ds)] True 1" by blast
  have "\<exists>k3 w3. parse_loop w2 k2 = parse_loop w3 k3 \<and>
      at w3 [] ([PIIR_NOP, PIIR_RET_NUM, word_of_nat (dec_val ds)] @ [PIIR_RET_NIL]) True 0"
    by (rule loop_step [OF 2(2) s3], rule end_token_at) auto
  then obtain k3 w3 where 3: "parse_loop w2 k2 = parse_loop w3 k3"
    "at w3 [] ([PIIR_NOP, PIIR_RET_NUM, word_of_nat (dec_val ds)] @ [PIIR_RET_NIL]) True 0" by blast
  from loop_end [OF 3(2), of k3] 1 2 3 show ?thesis by simp
qed

text \<open>
  C5 (compiling a procedure).  For every identifier, type name and decimal number, compiling
  \<^verbatim>\<open>proc <id>() -> <type> begin return <n>\<close> followed by one more character and \<^verbatim>\<open>end\<close> returns 0, and the
  generated code is \<^verbatim>\<open>nop\<close>; \<^verbatim>\<open>mov eax, n mod 256\<close>; and the opcode \<^verbatim>\<open>C2\<close>.  The load is missing when
  \<open>n mod 256\<close> is above 127, since the operand then looks like an error of the queue.
\<close>

theorem compile_return_number:
  assumes "src_ok w" and "mem_ok w" and "input w = proc_source u ty ds c"
    and "begin_depth w = 0" and "\<not> in_func w" and "length (cache (symlist w)) = SYMCACHE_LEN"
    and "word_ok u" and "word_class u = TT_IDENT" and "ty \<in> set type_names"
    and "ds \<noteq> []" and "\<forall>c \<in> set ds. is_num_c c" and "\<not> is_num_c c"
  shows "\<exists>w' vm. parse_work oob tok w = Some (0, w', Some vm) \<and>
    take (code_i vm) (code vm) =
      [0x90] @ (if dec_val ds mod 256 < 128 then [0xB8, word_of_nat (dec_val ds), 0, 0, 0] else []) @ [0xC2]"
proof -
  obtain b where b: "work_mem w = Some b" "k_init (heap w)" "\<forall>n. \<not> k_oom (heap w) n"
    using assms(2) by (auto simp: mem_ok_def)
  obtain p box h where a: "ptrbox_alloc sizeof_piir_stack (Some b) (heap w) = (p, box, h)"
    by (metis prod_cases3)
  from ptrbox_alloc_mem [OF a b(2,3)] have m: "p \<noteq> None" "box \<noteq> None" "k_init h" "\<forall>n. \<not> k_oom h n"
    by (simp_all add: sizeof_piir_stack_def)
  let ?w = "w\<lparr>piir_stk := Some piir_stack_zero, symlist := symlist_init (symlist w), work_mem := box, heap := h\<rparr>"
  have new: "piir_stack_new (work_mem w) (heap w) = (Inr piir_stack_zero, box, h)"
    using a b m(1) by (auto simp: piir_stack_new_def)
  have "at ?w (proc_source u ty ds c) [] False 0"
    using assms(1,3-6) m symlist_init_inv
    by (auto simp: at_def mem_ok_def piir_inv_def piir_list_def piir_stack_zero_def)
  from proc_loop [OF this assms(7-12), of tok] obtain w1 where
    l: "parse_loop ?w tok = Some (None, w1)"
    "at w1 [] [PIIR_NOP, PIIR_RET_NUM, word_of_nat (dec_val ds), PIIR_RET_NIL] True 0" by blast
  let ?bs = "[PIIR_NOP, PIIR_RET_NUM, word_of_nat (dec_val ds), PIIR_RET_NIL]"
  from l(2) have irw: "irw w1 (symq (symlist w1)) ?bs" by (auto simp: at_def irw_def)
  have sgn: "sint (word_of_nat n :: s8) < 0 \<longleftrightarrow> \<not> n mod 256 < 128" for n
    by (simp add: sint_s8_neg unat_of_nat not_less)
  have ir: "ir_code syms ?bs = [0x90] @ (if dec_val ds mod 256 < 128 then [0xB8, word_of_nat (dec_val ds), 0, 0, 0] else []) @ [0xC2]"
    for syms by (simp add: sgn)
  have z: "vm_inv piir_vm_zero" "emitted_code piir_vm_zero = []"
    by (simp_all add: vm_inv_def piir_vm_zero_def emitted_code_def)
  have short: "length (ir_code syms ?bs) < VM_CODE_SIZE - 1" for syms by (simp only: ir) simp
  from piir_inject_loop_emits [OF irw z(1), of oob] obtain w2 vm where
    g: "piir_inject_loop oob w1 piir_vm_zero = Some (w2, vm)" "gen_frame w1 w2"
    "emitted_code vm = ir_code (symq (symlist w1)) ?bs"
    using z(2) short [of "symq (symlist w1)"] by (metis append_Nil length_append)
  from l(2) obtain s1 where "piir_stk w1 = Some s1" "begin_depth w1 = 0" by (auto simp: at_def)
  moreover have "begin_depth w2 = begin_depth w1" using g(2) by (cases w1; cases w2) (simp add: gen_frame_def)
  ultimately show ?thesis
    using new l(1) g ir by (simp add: parse_work_def piir_inject_def emitted_code_def)
qed

lemma work_of_flags:
  "begin_depth (work_of s) = 0" "\<not> in_func (work_of s)" "length (cache (symlist (work_of s))) = SYMCACHE_LEN"
  by (simp_all add: work_of_def)

theorem compile_return_number_witness:
  "\<exists>w' vm. parse_work (\<lambda>_. 0) tok_zero (work_of ''proc foo() -> u8 begin return 42;end'') = Some (0, w', Some vm) \<and>
    take (code_i vm) (code vm) = [0x90, 0xB8, 42, 0, 0, 0, 0xC2]"
proof -
  have "word_ok ''foo''" "word_class ''foo'' = TT_IDENT" "''u8'' \<in> set type_names"
    "\<forall>c \<in> set ''42''. is_num_c c" "\<not> is_num_c (CHR '';'')" "dec_val ''42'' = 42" by code_simp+
  moreover have "proc_source ''foo'' ''u8'' ''42'' (CHR '';'') = ''proc foo() -> u8 begin return 42;end''"
    by (simp add: proc_source_def)
  ultimately show ?thesis
    using compile_return_number [OF work_of_ok(1,2), of "''proc foo() -> u8 begin return 42;end''" "''foo''" "''u8''"
        "''42''" "CHR '';''" "\<lambda>_. 0" tok_zero]
    by (simp add: work_of_flags work_of_ok(4))
qed

end
