(* ===== verification/L5_Mem.thy ===== *)
theory L5_Mem
  imports L5_Prelude
begin

text \<open>
  Memory as the kernel sees it: a function from addresses to bytes, with the 64-bit loads and stores the page
  tables (theory \<open>Mmu\<close>) and the heap (theory \<open>Vm_Tlsf\<close>) are made of, and the outcome type of code that can
  stop the machine.
\<close>

section \<open>Machine faults\<close>

text \<open>
  Outcome of kernel code that can stop the machine: \<open>Panic\<close> is a call of \<^verbatim>\<open>panic\<close>, \<open>Fault\<close> an access
  through a null pointer.
\<close>

datatype 'a exec = Ret 'a | Panic | Fault

fun exec_bind :: "'a exec \<Rightarrow> ('a \<Rightarrow> 'b exec) \<Rightarrow> 'b exec" where
  "exec_bind (Ret x) f = f x"
| "exec_bind Panic f = Panic"
| "exec_bind Fault f = Fault"

lemma exec_bind_Ret: "exec_bind m f = Ret y \<longleftrightarrow> (\<exists>x. m = Ret x \<and> f x = Ret y)"
  by (cases m) simp_all

section \<open>Physical memory\<close>

type_synonym pmem = "nat \<Rightarrow> u8"

definition mem_set :: "pmem \<Rightarrow> nat \<Rightarrow> u8 \<Rightarrow> nat \<Rightarrow> pmem" where
  "mem_set m a v n = (\<lambda>x. if a \<le> x \<and> x < a + n then v else m x)"

section \<open>Quadwords in memory\<close>

definition load64 :: "pmem \<Rightarrow> nat \<Rightarrow> u64" where
  "load64 m a = foldr (\<lambda>i w. push_bit 8 w OR ucast (m (a + i))) [0..<8] 0"

definition store64 :: "pmem \<Rightarrow> nat \<Rightarrow> u64 \<Rightarrow> pmem" where
  "store64 m a v = (\<lambda>x. if a \<le> x \<and> x < a + 8 then ucast (drop_bit (8 * (x - a)) v) else m x)"

lemma bit_byte: "bit (w :: u8) n \<Longrightarrow> n < 8"
  using bit_imp_le_length [of w n] by simp

lemma bit_load_loop:
  fixes m :: pmem
  shows "8 * k \<le> 64 \<Longrightarrow>
     bit (foldr (\<lambda>i w. push_bit 8 w OR ucast (m (a + i))) [j..<j + k] 0 :: u64) n \<longleftrightarrow>
     n < 8 * k \<and> bit (m (a + (j + n div 8))) (n mod 8)"
proof (induction k arbitrary: j n)
  case (Suc k)
  let ?w = "foldr (\<lambda>i w. push_bit 8 w OR ucast (m (a + i))) [Suc j..<Suc j + k] 0 :: u64"
  have IH: "bit ?w l \<longleftrightarrow> l < 8 * k \<and> bit (m (a + (Suc j + l div 8))) (l mod 8)" for l
    using Suc.IH [of "Suc j" l] Suc.prems by simp
  have u: "[j..<j + Suc k] = j # [Suc j..<Suc j + k]" by (simp add: upt_conv_Cons del: upt_Suc)
  have eq: "bit (foldr (\<lambda>i w. push_bit 8 w OR ucast (m (a + i))) [j..<j + Suc k] 0 :: u64) n \<longleftrightarrow>
      (8 \<le> n \<and> n < 64 \<and> bit ?w (n - 8)) \<or> bit (m (a + j)) n"
    unfolding u using bit_byte [of "m (a + j)" n] by (auto simp: bit_simps simp del: upt_Suc)
  show ?case
  proof (cases "n < 8")
    case True
    then show ?thesis unfolding eq by simp
  next
    case False
    then have n: "n div 8 = Suc ((n - 8) div 8)" "n mod 8 = (n - 8) mod 8" by (simp_all add: le_div_geq le_mod_geq)
    have "\<not> bit (m (a + j)) n" using False by (auto dest: bit_byte)
    then show ?thesis unfolding eq IH n using False Suc.prems by auto
  qed
qed simp

lemma bit_load64: "bit (load64 m a) n \<longleftrightarrow> n < 64 \<and> bit (m (a + n div 8)) (n mod 8)"
  using bit_load_loop [of 8 m a 0 n] by (simp add: load64_def)

lemma load64_cong: "(\<And>i. i < 8 \<Longrightarrow> m' (a + i) = m (a + i)) \<Longrightarrow> load64 m' a = load64 m a"
  by (rule bit_word_eqI) (simp add: bit_load64)

lemma load64_zero: "(\<And>i. i < 8 \<Longrightarrow> m (a + i) = 0) \<Longrightarrow> load64 m a = 0"
  by (rule bit_word_eqI) (simp add: bit_load64)

lemma load64_store64 [simp]: "load64 (store64 m a v) a = v"
proof (rule bit_word_eqI)
  fix n assume n: "n < LENGTH(64)"
  then have "n div 8 < 8" by (simp add: less_mult_imp_div_less)
  moreover have "8 * (n div 8) + n mod 8 = n" by simp
  ultimately show "bit (load64 (store64 m a v) a) n \<longleftrightarrow> bit v n"
    using n by (simp add: bit_load64 store64_def bit_simps)
qed

lemma store64_other: "x < a \<or> a + 8 \<le> x \<Longrightarrow> store64 m a v x = m x"
  by (auto simp: store64_def)

lemma load64_store64_other: "b + 8 \<le> a \<or> a + 8 \<le> b \<Longrightarrow> load64 (store64 m a v) b = load64 m b"
  by (rule load64_cong) (auto intro: store64_other)

end
