(* ===== verification/Vm_Seg.thy ===== *)
theory Vm_Seg
  imports L5_Mem
begin

text \<open>
  The physical frame allocator, \<^verbatim>\<open>sys/vm/vm_seg.c\<close>.  Physical memory is a function from addresses to
  bytes, and the bitmap of used frames lies in that memory, as in the source: the allocator clears the
  frames it hands out, so that it does not clear its own bitmap is a theorem and not part of the
  model.  The memory map is the boot loader's and is an argument of the initialisation.  Indices and
  addresses of the memory map are natural numbers; the page counters, and the addresses of
  \<^verbatim>\<open>vm_free_frame\<close>, are 64-bit words.
\<close>

abbreviation DEFAULT_PAGESIZE :: nat where "DEFAULT_PAGESIZE \<equiv> 4096"

text \<open>The bitmap macros \<^verbatim>\<open>setbit\<close>, \<^verbatim>\<open>clrbit\<close> and \<^verbatim>\<open>testbit\<close> on the bytes at address \<open>a\<close>.\<close>

definition setbit :: "pmem \<Rightarrow> nat \<Rightarrow> nat \<Rightarrow> pmem" where
  "setbit m a b = m(a + b div 8 := m (a + b div 8) OR push_bit (b mod 8) 1)"

definition clrbit :: "pmem \<Rightarrow> nat \<Rightarrow> nat \<Rightarrow> pmem" where
  "clrbit m a b = m(a + b div 8 := m (a + b div 8) AND NOT (push_bit (b mod 8) 1))"

definition testbit :: "pmem \<Rightarrow> nat \<Rightarrow> nat \<Rightarrow> bool" where
  "testbit m a b \<longleftrightarrow> m (a + b div 8) AND push_bit (b mod 8) 1 \<noteq> 0"

section \<open>The state of the allocator\<close>

datatype memmap_type =
    MEMMAP_USABLE | MEMMAP_RESERVED | MEMMAP_ACPI_RECLAIMABLE | MEMMAP_ACPI_NVS | MEMMAP_BAD_MEMORY
  | MEMMAP_BOOTLOADER_RECLAIMABLE | MEMMAP_KERNEL_AND_MODULES | MEMMAP_FRAMEBUFFER

record memmap_entry =
  me_base :: nat
  me_length :: nat
  me_type :: memmap_type

text \<open>\<open>bitmap\<close> is the physical address behind the bitmap pointer, \<open>None\<close> while it is null.\<close>

record seg =
  pages_free :: u64
  pages_used :: u64
  pages_total :: u64
  highest_frame_idx :: nat
  bitmap_size :: nat
  bitmap_free_start :: nat
  last_idx :: nat
  bitmap :: "nat option"
  entries :: "memmap_entry list"
  mem :: pmem

section \<open>Initialisation\<close>

fun highest_loop :: "memmap_entry list \<Rightarrow> nat \<Rightarrow> nat" where
  "highest_loop [] h = h"
| "highest_loop (ent # es) h =
     (if me_type ent \<noteq> MEMMAP_USABLE then highest_loop es h
      else highest_loop es (max h (me_base ent + me_length ent)))"

fun alloc_bitmap_loop :: "memmap_entry list \<Rightarrow> 'a seg_scheme \<Rightarrow> memmap_entry list \<times> 'a seg_scheme" where
  "alloc_bitmap_loop [] s = ([], s)"
| "alloc_bitmap_loop (ent # es) s =
     (if me_type ent = MEMMAP_USABLE \<and> bitmap_size s \<le> me_length ent then
        (ent\<lparr>me_base := me_base ent + bitmap_size s, me_length := me_length ent - bitmap_size s\<rparr> # es,
         s\<lparr>bitmap := Some (me_base ent), mem := mem_set (mem s) (me_base ent) 0xFF (bitmap_size s)\<rparr>)
      else
        (let (es', s') = alloc_bitmap_loop es s in (ent # es', s')))"

definition physmem_alloc_bitmap :: "'a seg_scheme \<Rightarrow> 'a seg_scheme" where
  "physmem_alloc_bitmap s = (let (es, s) = alloc_bitmap_loop (entries s) s in s\<lparr>entries := es\<rparr>)"

function clear_loop :: "pmem \<Rightarrow> nat \<Rightarrow> nat \<Rightarrow> nat \<Rightarrow> nat \<Rightarrow> pmem" where
  "clear_loop m bm base len j =
     (if j < len then clear_loop (clrbit m bm ((base + j) div DEFAULT_PAGESIZE)) bm base len (j + DEFAULT_PAGESIZE)
      else m)"
  by pat_completeness auto
termination by (relation "measure (\<lambda>(m, bm, base, len, j). len - j)") auto

declare clear_loop.simps [simp del]

definition populate_entry :: "memmap_entry \<Rightarrow> 'a seg_scheme \<Rightarrow> 'a seg_scheme exec" where
  "populate_entry ent s =
     (let n = of_nat (me_length ent div DEFAULT_PAGESIZE);
          s = s\<lparr>pages_total := pages_total s + n\<rparr>
      in if me_type ent \<noteq> MEMMAP_USABLE then Ret (s\<lparr>pages_used := pages_used s + n\<rparr>)
         else
           (let s = (if bitmap_free_start s = 0
                     then s\<lparr>bitmap_free_start := me_base ent div DEFAULT_PAGESIZE\<rparr> else s)
            in case bitmap s of
                 None \<Rightarrow> if me_length ent = 0 then Ret (s\<lparr>pages_free := pages_free s + n\<rparr>) else Fault
               | Some bm \<Rightarrow>
                   Ret (s\<lparr>mem := clear_loop (mem s) bm (me_base ent) (me_length ent) 0,
                          pages_free := pages_free s + n\<rparr>)))"

fun populate_loop :: "memmap_entry list \<Rightarrow> 'a seg_scheme \<Rightarrow> 'a seg_scheme exec" where
  "populate_loop [] s = Ret s"
| "populate_loop (ent # es) s = exec_bind (populate_entry ent s) (populate_loop es)"

definition physmem_populate_bitmap :: "'a seg_scheme \<Rightarrow> 'a seg_scheme exec" where
  "physmem_populate_bitmap s = populate_loop (entries s) s"

definition physmem_init_bitmap :: "'a seg_scheme \<Rightarrow> 'a seg_scheme exec" where
  "physmem_init_bitmap s =
     (let highest_addr = highest_loop (entries s) 0;
          hi = highest_addr div DEFAULT_PAGESIZE;
          s = s\<lparr>highest_frame_idx := hi, bitmap_size := round_up (hi div 8) DEFAULT_PAGESIZE\<rparr>
      in physmem_populate_bitmap (physmem_alloc_bitmap s))"

definition vm_seg_init :: "memmap_entry list \<Rightarrow> 'a seg_scheme \<Rightarrow> ((u64 \<times> u64) \<times> 'a seg_scheme) exec" where
  "vm_seg_init resp s =
     exec_bind (physmem_init_bitmap (s\<lparr>entries := resp\<rparr>))
       (\<lambda>s. Ret ((pages_free s, pages_used s), s))"

section \<open>Allocation\<close>

text \<open>
  The search for \<open>count\<close> clear bits in a row from index \<open>i\<close>; \<open>idx\<close> is \<open>None\<close> for \<^verbatim>\<open>-1\<close>.
\<close>

function frame_search ::
  "pmem \<Rightarrow> nat \<Rightarrow> nat \<Rightarrow> nat \<Rightarrow> nat \<Rightarrow> nat option \<Rightarrow> nat \<Rightarrow> nat option \<times> nat" where
  "frame_search m bm hi count i idx frames =
     (if i < hi then
        if \<not> testbit m bm i then
          (let idx = (if idx = None then Some i else idx); frames = frames + 1
           in if count \<le> frames then (idx, frames) else frame_search m bm hi count (i + 1) idx frames)
        else frame_search m bm hi count (i + 1) None 0
      else (idx, frames))"
  by pat_completeness auto
termination by (relation "measure (\<lambda>(m, bm, hi, count, i, idx, frames). hi - i)") auto

declare frame_search.simps [simp del]

definition vm_alloc_frame1 :: "nat \<Rightarrow> 'a seg_scheme \<Rightarrow> (nat \<times> 'a seg_scheme) exec" where
  "vm_alloc_frame1 count s =
     (case bitmap s of
        None \<Rightarrow> if last_idx s < highest_frame_idx s then Fault else Ret (0, s)
      | Some bm \<Rightarrow>
          (case frame_search (mem s) bm (highest_frame_idx s) count (last_idx s) None 0 of
             (None, frames) \<Rightarrow> Ret (0, s)
           | (Some idx, frames) \<Rightarrow>
               if frames \<noteq> count then Ret (0, s)
               else
                 (let m = fold (\<lambda>i m. setbit m bm i) [idx..<idx + count] (mem s);
                      r = idx * DEFAULT_PAGESIZE
                  in Ret (r, s\<lparr>last_idx := idx, mem := mem_set m r 0 (count * DEFAULT_PAGESIZE)\<rparr>))))"

definition vm_alloc_frame :: "nat \<Rightarrow> 'a seg_scheme \<Rightarrow> (nat \<times> 'a seg_scheme) exec" where
  "vm_alloc_frame count s =
     exec_bind
       (exec_bind (vm_alloc_frame1 count s)
         (\<lambda>(r, s). if r = 0 then vm_alloc_frame1 count (s\<lparr>last_idx := 0\<rparr>) else Ret (r, s)))
       (\<lambda>(r, s). if r = 0 then Panic
          else Ret (r, s\<lparr>pages_used := pages_used s + of_nat count, pages_free := pages_free s - of_nat count\<rparr>))"

section \<open>Freeing\<close>

partial_function (option) free_loop :: "pmem \<Rightarrow> nat \<Rightarrow> u64 \<Rightarrow> u64 \<Rightarrow> pmem option" where
  "free_loop m bm p stop_at =
     (if p < stop_at then free_loop (clrbit m bm (unat p div DEFAULT_PAGESIZE)) bm (p + 4096) stop_at
      else Some m)"

text \<open>\<open>None\<close> is a loop that does not end.\<close>

definition vm_free_frame :: "u64 \<Rightarrow> u64 \<Rightarrow> 'a seg_scheme \<Rightarrow> 'a seg_scheme exec option" where
  "vm_free_frame base count s =
     (let stop_at = base + count * 4096;
          base = ALIGN_UP base 4096;
          counted = (\<lambda>s. s\<lparr>pages_used := pages_used s - count, pages_free := pages_free s + count\<rparr>)
      in case bitmap s of
           None \<Rightarrow> if base < stop_at then Some Fault else Some (Ret (counted s))
         | Some bm \<Rightarrow> map_option (\<lambda>m. Ret (counted (s\<lparr>mem := m\<rparr>))) (free_loop (mem s) bm base stop_at))"

section \<open>The bitmap\<close>

lemma testbit_bit: "testbit m a b \<longleftrightarrow> bit (m (a + b div 8)) (b mod 8)"
  by (simp add: testbit_def push_bit_eq_mult and_exp_eq_0_iff_not_bit)

lemma bit_pos_eq: "x div 8 = y div 8 \<Longrightarrow> x mod 8 = y mod 8 \<longleftrightarrow> x = y" for x y :: nat
  by (metis div_mult_mod_eq)

lemma testbit_setbit [simp]: "testbit (setbit m a i) a j \<longleftrightarrow> i = j \<or> testbit m a j"
proof (cases "i div 8 = j div 8")
  case True
  then show ?thesis
    using bit_pos_eq [OF True] by (auto simp: testbit_bit setbit_def bit_simps)
next
  case False
  then show ?thesis by (auto simp: testbit_bit setbit_def)
qed

lemma testbit_clrbit [simp]: "testbit (clrbit m a i) a j \<longleftrightarrow> i \<noteq> j \<and> testbit m a j"
proof (cases "i div 8 = j div 8")
  case True
  then show ?thesis
    using bit_pos_eq [OF True] by (auto simp: testbit_bit clrbit_def bit_simps)
next
  case False
  then show ?thesis by (auto simp: testbit_bit clrbit_def)
qed

lemma testbit_fold_setbit:
  "testbit (fold (\<lambda>i m. setbit m a i) xs m) a j \<longleftrightarrow> j \<in> set xs \<or> testbit m a j"
  by (induction xs arbitrary: m) auto

lemma fold_setbit_frame:
  "x < a \<or> (\<forall>i \<in> set xs. x \<noteq> a + i div 8) \<Longrightarrow> fold (\<lambda>i m. setbit m a i) xs m x = m x"
  by (induction xs arbitrary: m) (auto simp: setbit_def)

lemma testbit_mem_set:
  "a + j div 8 < p \<or> p + n \<le> a + j div 8 \<Longrightarrow> testbit (mem_set m p v n) a j = testbit m a j"
  by (auto simp: testbit_bit mem_set_def)

lemma testbit_mem_set_FF:
  assumes "j div 8 < n"
  shows "testbit (mem_set m a 0xFF n) a j"
proof -
  have "bit (0xFF :: u8) k" if "k < 8" for k
  proof -
    have "(0xFF :: u8) = mask 8" by (simp add: mask_eq_exp_minus_1)
    with that show ?thesis by (simp only: bit_mask_iff) simp
  qed
  then show ?thesis using assms by (simp add: testbit_bit mem_set_def)
qed

section \<open>The search\<close>

definition run_free :: "pmem \<Rightarrow> nat \<Rightarrow> nat \<Rightarrow> nat \<Rightarrow> bool" where
  "run_free m bm k n \<longleftrightarrow> (\<forall>i. k \<le> i \<and> i < k + n \<longrightarrow> \<not> testbit m bm i)"

lemma frame_search_sound:
  assumes "frame_search m bm hi count i idx frames = (Some k, count)" and "0 < count"
    and "case idx of None \<Rightarrow> frames = 0 | Some k \<Rightarrow> k + frames = i \<and> run_free m bm k frames"
    and "frames < count"
  shows "run_free m bm k count \<and> k + count \<le> hi \<and> (case idx of None \<Rightarrow> i \<le> k | Some k' \<Rightarrow> k' = k \<or> i \<le> k)"
  using assms
proof (induction m bm hi count i idx frames rule: frame_search.induct)
  case (1 m bm hi count i idx frames)
  show ?case
  proof (cases "i < hi")
    case False
    with "1.prems" show ?thesis by (simp add: frame_search.simps)
  next
    case lt: True
    show ?thesis
    proof (cases "testbit m bm i")
      case True
      then have "run_free m bm k count \<and> k + count \<le> hi \<and> Suc i \<le> k"
        using "1.IH"(2) [OF lt] "1.prems" lt by (simp add: frame_search.simps [of m bm hi count i])
      then show ?thesis by (auto split: option.splits)
    next
      case False
      define k' where "k' = (case idx of None \<Rightarrow> i | Some k \<Rightarrow> k)"
      have idx: "(if idx = None then Some i else idx) = Some k'" by (simp add: k'_def split: option.splits)
      have run: "k' + (frames + 1) = i + 1 \<and> run_free m bm k' (frames + 1)"
        using "1.prems"(3) False
        by (auto simp: k'_def run_free_def less_Suc_eq split: option.splits)
      show ?thesis
      proof (cases "count \<le> frames + 1")
        case True
        with "1.prems" lt False idx have "k = k'" "frames + 1 = count"
          by (simp_all add: frame_search.simps [of m bm hi count i])
        with run lt show ?thesis by (auto simp: k'_def split: option.splits)
      next
        case c: False
        have "run_free m bm k count \<and> k + count \<le> hi \<and> (k' = k \<or> i + 1 \<le> k)"
          using "1.IH"(1) [OF lt False refl refl c] "1.prems" run lt False idx c
          by (simp add: frame_search.simps [of m bm hi count i])
        then show ?thesis by (auto simp: k'_def split: option.splits)
      qed
    qed
  qed
qed

lemma frame_search_complete:
  assumes "run_free m bm r count" and "r + count \<le> hi" and "0 < count"
    and "case idx of None \<Rightarrow> frames = 0 \<and> i \<le> r | Some k \<Rightarrow> k + frames = i \<and> k \<le> r"
    and "frames < count"
  shows "\<exists>k. frame_search m bm hi count i idx frames = (Some k, count)"
  using assms
proof (induction m bm hi count i idx frames rule: frame_search.induct)
  case (1 m bm hi count i idx frames)
  have lt: "i < hi" using "1.prems" by (auto split: option.splits)
  show ?case
  proof (cases "testbit m bm i")
    case True
    have "\<not> (r \<le> i \<and> i < r + count)" using True "1.prems"(1) by (auto simp: run_free_def)
    then have "Suc i \<le> r" using "1.prems" by (auto split: option.splits)
    then show ?thesis
      using "1.IH"(2) [OF lt] True "1.prems" lt by (simp add: frame_search.simps [of m bm hi count i])
  next
    case False
    define k' where "k' = (case idx of None \<Rightarrow> i | Some k \<Rightarrow> k)"
    have idx: "(if idx = None then Some i else idx) = Some k'" by (simp add: k'_def split: option.splits)
    have k: "k' + (frames + 1) = i + 1" "k' \<le> r"
      using "1.prems"(4) by (auto simp: k'_def split: option.splits)
    show ?thesis
    proof (cases "count \<le> frames + 1")
      case True
      with "1.prems"(5) have "count = frames + 1" by simp
      with lt False idx show ?thesis by (subst frame_search.simps) simp
    next
      case c: False
      then show ?thesis
        using "1.IH"(1) [OF lt False refl refl c] "1.prems" k lt False idx
        by (simp add: frame_search.simps [of m bm hi count i])
    qed
  qed
qed

lemma frame_search_zero:
  assumes "frame_search m bm hi 0 i None 0 = (idx, frames)"
  shows "idx = None \<or> frames \<noteq> 0"
  using assms
proof (induction "hi - i" arbitrary: i)
  case 0
  then show ?case by (subst (asm) frame_search.simps) simp
next
  case (Suc n)
  have "n = hi - Suc i" using Suc.hyps(2) by simp
  from Suc.hyps(1) [OF this] Suc.prems show ?case
    by (subst (asm) (2) frame_search.simps) (auto simp: Let_def split: if_splits)
qed

section \<open>The invariant\<close>

text \<open>
  A frame is free when its bit is clear.  The invariant: the bitmap covers every index the search
  reads, free frames lie outside the bitmap, frame 0 (whose address is the failure value) is not free,
  and the counter of free pages is the number of free frames.
\<close>

definition frame_free :: "'a seg_scheme \<Rightarrow> nat \<Rightarrow> bool" where
  "frame_free s i \<longleftrightarrow>
     i < highest_frame_idx s \<and> (case bitmap s of None \<Rightarrow> False | Some bm \<Rightarrow> \<not> testbit (mem s) bm i)"

definition free_run :: "'a seg_scheme \<Rightarrow> nat \<Rightarrow> nat \<Rightarrow> bool" where
  "free_run s k n \<longleftrightarrow> (\<forall>i. k \<le> i \<and> i < k + n \<longrightarrow> frame_free s i)"

definition seg_inv :: "'a seg_scheme \<Rightarrow> bool" where
  "seg_inv s \<longleftrightarrow>
     (case bitmap s of
        None \<Rightarrow> False
      | Some bm \<Rightarrow>
          highest_frame_idx s \<le> 8 * bitmap_size s \<and> highest_frame_idx s < 2 ^ 52 \<and>
          (\<forall>i. frame_free s i \<longrightarrow> 0 < i \<and> (4096 * i + 4096 \<le> bm \<or> bm + bitmap_size s \<le> 4096 * i)) \<and>
          pages_free s = of_nat (card {i. frame_free s i}))"

lemma finite_free [simp]: "finite {i. frame_free s i}"
  by (rule finite_subset [of _ "{..<highest_frame_idx s}"]) (auto simp: frame_free_def)

lemma run_free_free_run:
  assumes "bitmap s = Some bm" and "0 < n"
  shows "run_free (mem s) bm k n \<and> k + n \<le> highest_frame_idx s \<longleftrightarrow> free_run s k n"
proof
  assume r: "free_run s k n"
  then have "frame_free s (k + n - 1)" using assms(2) by (simp add: free_run_def)
  then have "k + n \<le> highest_frame_idx s" using assms(2) by (auto simp: frame_free_def)
  with r show "run_free (mem s) bm k n \<and> k + n \<le> highest_frame_idx s"
    using assms(1) by (auto simp: free_run_def frame_free_def run_free_def)
qed (use assms in \<open>auto simp: free_run_def frame_free_def run_free_def\<close>)

section \<open>Handing out frames\<close>

definition take_frames :: "nat \<Rightarrow> nat \<Rightarrow> nat \<Rightarrow> 'a seg_scheme \<Rightarrow> 'a seg_scheme" where
  "take_frames bm k n s =
     s\<lparr>last_idx := k,
       mem := mem_set (fold (\<lambda>i m. setbit m bm i) [k..<k + n] (mem s)) (k * 4096) 0 (n * 4096)\<rparr>"

lemma vm_alloc_frame1_cases:
  assumes "bitmap s = Some bm" and "0 < n"
  obtains (found) k where "free_run s k n" "vm_alloc_frame1 n s = Ret (k * 4096, take_frames bm k n s)"
  | (none) "vm_alloc_frame1 n s = Ret (0, s)" "\<And>k. last_idx s \<le> k \<Longrightarrow> \<not> free_run s k n"
proof (cases "\<exists>k. frame_search (mem s) bm (highest_frame_idx s) n (last_idx s) None 0 = (Some k, n)")
  case True
  then obtain k where k: "frame_search (mem s) bm (highest_frame_idx s) n (last_idx s) None 0 = (Some k, n)"
    by blast
  then have "free_run s k n"
    using frame_search_sound [OF k assms(2)] run_free_free_run [OF assms, of k] assms(2) by simp
  moreover have "vm_alloc_frame1 n s = Ret (k * 4096, take_frames bm k n s)"
    using k assms(1) by (simp add: vm_alloc_frame1_def take_frames_def Let_def)
  ultimately show ?thesis by (rule found)
next
  case False
  have "vm_alloc_frame1 n s = Ret (0, s)"
    using False assms(1) by (auto simp: vm_alloc_frame1_def split: option.splits prod.splits)
  moreover have "\<not> free_run s k n" if "last_idx s \<le> k" for k
    using frame_search_complete [of "mem s" bm k n "highest_frame_idx s" 0 "last_idx s" None]
      run_free_free_run [OF assms, of k] False that assms(2) by auto
  ultimately show ?thesis by (rule none)
qed

lemma take_frames_free:
  assumes "seg_inv s" and "bitmap s = Some bm" and "free_run s k n" and "0 < n"
  shows "frame_free (take_frames bm k n s) i \<longleftrightarrow> frame_free s i \<and> \<not> (k \<le> i \<and> i < k + n)"
proof -
  have out: "bm + i div 8 < k * 4096 \<or> k * 4096 + n * 4096 \<le> bm + i div 8" if "i < highest_frame_idx s"
  proof (rule ccontr)
    assume c: "\<not> ?thesis"
    define f where "f = (bm + i div 8) div 4096"
    have "k \<le> f" "f < k + n" using c by (auto simp: f_def)
    then have "frame_free s f" using assms(3) by (simp add: free_run_def)
    then have "4096 * f + 4096 \<le> bm \<or> bm + bitmap_size s \<le> 4096 * f"
      using assms(1,2) by (simp add: seg_inv_def)
    moreover have "i div 8 < bitmap_size s" using that assms(1,2) by (auto simp: seg_inv_def)
    moreover have "4096 * f \<le> bm + i div 8" "bm + i div 8 < 4096 * f + 4096" by (simp_all add: f_def)
    ultimately show False by linarith
  qed
  show ?thesis
  proof (cases "i < highest_frame_idx s")
    case True
    from testbit_mem_set [OF out [OF True]] show ?thesis
      using True assms(2) by (auto simp: frame_free_def take_frames_def testbit_fold_setbit)
  qed (simp add: frame_free_def take_frames_def)
qed

lemma take_frames_card:
  assumes "seg_inv s" and "bitmap s = Some bm" and "free_run s k n" and "0 < n"
  shows "card {i. frame_free (take_frames bm k n s) i} = card {i. frame_free s i} - n"
    and "n \<le> card {i. frame_free s i}"
proof -
  have eq: "{i. frame_free (take_frames bm k n s) i} = {i. frame_free s i} - {k..<k + n}"
    by (auto simp: take_frames_free [OF assms])
  have sub: "{k..<k + n} \<subseteq> {i. frame_free s i}" using assms(3) by (auto simp: free_run_def)
  show "card {i. frame_free (take_frames bm k n s) i} = card {i. frame_free s i} - n"
    unfolding eq using sub by (subst card_Diff_subset) simp_all
  show "n \<le> card {i. frame_free s i}" using card_mono [OF finite_free sub] by simp
qed

lemma free_upd [simp]:
  "frame_free (s\<lparr>pages_free := a\<rparr>) = frame_free s" "frame_free (s\<lparr>pages_used := a\<rparr>) = frame_free s"
  "frame_free (s\<lparr>last_idx := b\<rparr>) = frame_free s"
  by (simp_all add: frame_free_def fun_eq_iff split: option.split)

lemma free_run_upd [simp]:
  "free_run (s\<lparr>pages_free := a\<rparr>) = free_run s" "free_run (s\<lparr>pages_used := a\<rparr>) = free_run s"
  "free_run (s\<lparr>last_idx := b\<rparr>) = free_run s"
  by (simp_all add: free_run_def fun_eq_iff)

text \<open>The effect of a successful allocation, and when it succeeds.\<close>

definition counted :: "nat \<Rightarrow> 'a seg_scheme \<Rightarrow> 'a seg_scheme" where
  "counted n s = s\<lparr>pages_used := pages_used s + of_nat n, pages_free := pages_free s - of_nat n\<rparr>"

lemma vm_alloc_frame1_zero: "vm_alloc_frame1 0 s = Ret (0, s) \<or> vm_alloc_frame1 0 s = Fault"
proof (cases "bitmap s")
  case (Some bm)
  obtain idx frames where
    eq: "frame_search (mem s) bm (highest_frame_idx s) 0 (last_idx s) None 0 = (idx, frames)" by fastforce
  from frame_search_zero [OF eq] show ?thesis
    by (cases idx) (simp_all add: vm_alloc_frame1_def Some eq)
qed (simp add: vm_alloc_frame1_def)

lemma vm_alloc_frame_zero: "vm_alloc_frame 0 s = Panic \<or> vm_alloc_frame 0 s = Fault"
  using vm_alloc_frame1_zero [of s] vm_alloc_frame1_zero [of "s\<lparr>last_idx := 0\<rparr>"]
  by (elim disjE) (simp_all add: vm_alloc_frame_def)

lemma vm_alloc_frame_cases:
  assumes "seg_inv s" and "bitmap s = Some bm" and "0 < n"
  obtains (found) k where "0 < k" "free_run s k n"
      "vm_alloc_frame n s = Ret (k * 4096, counted n (take_frames bm k n s))"
  | (none) "vm_alloc_frame n s = Panic" "\<And>k. \<not> free_run s k n"
proof -
  have pos: "0 < k" if "free_run s k n" for k
    using that assms by (auto simp: free_run_def seg_inv_def)
  show ?thesis
  proof (cases rule: vm_alloc_frame1_cases [OF assms(2,3), case_names found none])
    case (found k)
    with pos [of k] show ?thesis
      by (intro that(1) [of k]) (simp_all add: vm_alloc_frame_def counted_def)
  next
    case 1: none
    have "bitmap (s\<lparr>last_idx := 0\<rparr>) = Some bm" using assms(2) by simp
    note b = this
    show ?thesis
    proof (cases rule: vm_alloc_frame1_cases [OF b assms(3), case_names found none])
      case (found k)
      with 1 pos [of k] show ?thesis
        by (intro that(1) [of k]) (simp_all add: vm_alloc_frame_def counted_def take_frames_def)
    next
      case none
      with 1 show ?thesis by (intro that(2)) (simp_all add: vm_alloc_frame_def)
    qed
  qed
qed

lemma alloc_inv:
  assumes "seg_inv s" and "bitmap s = Some bm" and "free_run s k n" and "0 < n"
  shows "seg_inv (counted n (take_frames bm k n s))"
proof -
  note f = take_frames_free [OF assms]
  have upd: "bitmap (take_frames bm k n s) = Some bm" "bitmap_size (take_frames bm k n s) = bitmap_size s"
    "highest_frame_idx (take_frames bm k n s) = highest_frame_idx s"
    "pages_free (take_frames bm k n s) = pages_free s"
    using assms(2) by (simp_all add: take_frames_def)
  have "pages_free s - of_nat n = of_nat (card {i. frame_free (take_frames bm k n s) i})"
    using assms(1,2) take_frames_card [OF assms] by (simp add: seg_inv_def of_nat_diff)
  then have c: "pages_free (counted n (take_frames bm k n s)) =
      of_nat (card {i. frame_free (counted n (take_frames bm k n s)) i})"
    by (simp add: counted_def upd)
  show ?thesis
    using assms(1,2) unfolding seg_inv_def c by (simp add: counted_def upd f)
qed

section \<open>Taking frames back\<close>

lemma testbit_fold_clrbit:
  "testbit (fold (\<lambda>i m. clrbit m a i) xs m) a j \<longleftrightarrow> j \<notin> set xs \<and> testbit m a j"
  by (induction xs arbitrary: m) auto

lemma unat_page: "4096 * k < 2 ^ 64 \<Longrightarrow> unat (of_nat (4096 * k) :: u64) = 4096 * k"
  by (simp only: unat_of_nat) simp

lemma free_loop_run:
  assumes "4096 * (k + n) < 2 ^ 64"
  shows "free_loop m bm (of_nat (4096 * k)) (of_nat (4096 * (k + n))) =
    Some (fold (\<lambda>i m. clrbit m bm i) [k..<k + n] m)"
  using assms
proof (induction n arbitrary: k m)
  case 0
  then show ?case by (subst free_loop.simps) simp
next
  case (Suc n)
  let ?p = "of_nat (4096 * k) :: u64" and ?q = "of_nat (4096 * (k + Suc n)) :: u64"
  have "4096 * k < 2 ^ 64" using Suc.prems by simp
  from unat_page [OF this] unat_page [OF Suc.prems]
  have p: "unat ?p = 4096 * k" "unat ?q = 4096 * (k + Suc n)" .
  have lt: "?p < ?q" unfolding word_less_nat_alt p by simp
  have nx: "?p + 4096 = of_nat (4096 * Suc k)" by simp
  have "free_loop m bm ?p ?q = free_loop (clrbit m bm k) bm (of_nat (4096 * Suc k)) (of_nat (4096 * (Suc k + n)))"
    using lt by (subst free_loop.simps) (simp only: if_True p nx, simp)
  also have "\<dots> = Some (fold (\<lambda>i m. clrbit m bm i) [Suc k..<Suc k + n] (clrbit m bm k))"
    using Suc.prems by (intro Suc.IH) simp
  finally show ?case by (simp add: upt_conv_Cons del: upt_Suc)
qed

lemma ALIGN_UP_page:
  assumes "4096 * k + 4096 \<le> 2 ^ 64"
  shows "ALIGN_UP (of_nat (4096 * k)) 4096 = of_nat (4096 * k)"
proof -
  have u: "unat (of_nat (4096 * k) :: u64) = 4096 * k" using assms by (intro unat_page) simp
  have "unat (ALIGN_UP (of_nat (4096 * k)) (2 ^ 12)) = (4096 * k + 2 ^ 12 - 1) div 2 ^ 12 * 2 ^ 12"
    using assms by (subst ALIGN_UP_unat) (simp_all only: u, simp_all)
  then show ?thesis using u by (simp add: word_unat_eq_iff)
qed

definition give_frames :: "nat \<Rightarrow> nat \<Rightarrow> nat \<Rightarrow> 'a seg_scheme \<Rightarrow> 'a seg_scheme" where
  "give_frames bm k n s =
     s\<lparr>mem := fold (\<lambda>i m. clrbit m bm i) [k..<k + n] (mem s),
       pages_used := pages_used s - of_nat n, pages_free := pages_free s + of_nat n\<rparr>"

lemma vm_free_frame_run:
  assumes "bitmap s = Some bm" and "4096 * (k + n) < 2 ^ 64" and "0 < n"
  shows "vm_free_frame (of_nat (4096 * k)) (of_nat n) s = Some (Ret (give_frames bm k n s))"
proof -
  have st: "of_nat (4096 * k) + of_nat n * 4096 = (of_nat (4096 * (k + n)) :: u64)" by simp
  have al: "ALIGN_UP (of_nat (4096 * k)) 4096 = of_nat (4096 * k)"
    using assms(2,3) by (intro ALIGN_UP_page) simp
  show ?thesis
    unfolding vm_free_frame_def Let_def st al
    by (simp only: assms(1) option.case free_loop_run [OF assms(2)] option.map) (simp add: give_frames_def)
qed

text \<open>A run of frames that the allocator has handed out.\<close>

definition used_run :: "'a seg_scheme \<Rightarrow> nat \<Rightarrow> nat \<Rightarrow> bool" where
  "used_run s k n \<longleftrightarrow>
     (\<forall>i. k \<le> i \<and> i < k + n \<longrightarrow>
        i < highest_frame_idx s \<and> \<not> frame_free s i \<and> 0 < i \<and>
        (case bitmap s of None \<Rightarrow> True
         | Some bm \<Rightarrow> 4096 * i + 4096 \<le> bm \<or> bm + bitmap_size s \<le> 4096 * i))"

lemma used_not_free: "used_run s k n \<Longrightarrow> k \<le> i \<Longrightarrow> i < k + n \<Longrightarrow> \<not> frame_free s i"
  by (simp add: used_run_def)

lemma free_runD: "free_run s k n \<Longrightarrow> k \<le> i \<Longrightarrow> i < k + n \<Longrightarrow> frame_free s i"
  by (simp add: free_run_def)

lemma give_frames_free:
  assumes "bitmap s = Some bm" and "k + n \<le> highest_frame_idx s"
  shows "frame_free (give_frames bm k n s) i \<longleftrightarrow> frame_free s i \<or> (k \<le> i \<and> i < k + n)"
  using assms by (auto simp: frame_free_def give_frames_def testbit_fold_clrbit)

lemma used_run_bound: "used_run s k n \<Longrightarrow> 0 < n \<Longrightarrow> k + n \<le> highest_frame_idx s"
  unfolding used_run_def by (drule spec [of _ "k + n - 1"]) auto

lemma free_inv:
  assumes "seg_inv s" and "bitmap s = Some bm" and "used_run s k n" and "0 < n"
  shows "seg_inv (give_frames bm k n s)"
proof -
  note f = give_frames_free [OF assms(2) used_run_bound [OF assms(3,4)]]
  have upd: "bitmap (give_frames bm k n s) = Some bm" "bitmap_size (give_frames bm k n s) = bitmap_size s"
    "highest_frame_idx (give_frames bm k n s) = highest_frame_idx s"
    "pages_free (give_frames bm k n s) = pages_free s + of_nat n"
    using assms(2) by (simp_all add: give_frames_def)
  have eq: "{i. frame_free (give_frames bm k n s) i} = {i. frame_free s i} \<union> {k..<k + n}"
    by (auto simp: f)
  have "card {i. frame_free (give_frames bm k n s) i} = card {i. frame_free s i} + n"
    unfolding eq using assms(3) by (subst card_Un_disjoint) (auto simp: used_run_def)
  then have c: "pages_free (give_frames bm k n s) = of_nat (card {i. frame_free (give_frames bm k n s) i})"
    using assms(1,2) by (simp add: upd seg_inv_def)
  have "0 < i \<and> (4096 * i + 4096 \<le> bm \<or> bm + bitmap_size s \<le> 4096 * i)"
    if "frame_free (give_frames bm k n s) i" for i
    using that [unfolded f]
  proof
    assume "frame_free s i"
    with assms(1,2) show ?thesis by (simp add: seg_inv_def)
  next
    assume "k \<le> i \<and> i < k + n"
    with assms(2,3) show ?thesis by (simp add: used_run_def)
  qed
  then show ?thesis
    using assms(1,2) unfolding seg_inv_def c by (simp add: upd)
qed

section \<open>The allocator in use\<close>

text \<open>
  The allocator with its clients: \<open>owned\<close> lists the runs handed out and not given back, as first frame
  and number of frames.
\<close>

inductive seg_reach :: "'a seg_scheme \<Rightarrow> 'a seg_scheme \<Rightarrow> (nat \<times> nat) list \<Rightarrow> bool" for s0 where
  boot: "seg_reach s0 s0 []"
| alloc: "seg_reach s0 s owned \<Longrightarrow> vm_alloc_frame n s = Ret (a, s') \<Longrightarrow>
    seg_reach s0 s' ((a div 4096, n) # owned)"
| free: "seg_reach s0 s owned \<Longrightarrow> (k, n) \<in> set owned \<Longrightarrow>
    vm_free_frame (of_nat (4096 * k)) (of_nat n) s = Some (Ret s') \<Longrightarrow>
    seg_reach s0 s' (remove1 (k, n) owned)"

abbreviation run_set :: "nat \<times> nat \<Rightarrow> nat set" where
  "run_set r \<equiv> {fst r..<fst r + snd r}"

definition disjoint_runs :: "nat \<times> nat \<Rightarrow> nat \<times> nat \<Rightarrow> bool" where
  "disjoint_runs r r' \<longleftrightarrow> run_set r \<inter> run_set r' = {}"

lemma symp_disjoint_runs: "symp disjoint_runs"
  by (auto simp: symp_def disjoint_runs_def)

definition owned_ok :: "'a seg_scheme \<Rightarrow> (nat \<times> nat) list \<Rightarrow> bool" where
  "owned_ok s owned \<longleftrightarrow>
     seg_inv s \<and> (\<forall>r \<in> set owned. 0 < snd r \<and> used_run s (fst r) (snd r)) \<and>
     sorted_wrt disjoint_runs owned"

lemma disjoint_runsD:
  assumes "disjoint_runs (k, n) r" and "k \<le> i" and "i < k + n"
  shows "i < fst r \<or> fst r + snd r \<le> i"
proof (rule ccontr)
  assume "\<not> ?thesis"
  with assms(2,3) have "i \<in> run_set (k, n) \<inter> run_set r" by auto
  with assms(1) show False by (simp add: disjoint_runs_def)
qed

lemma disjoint_runsI:
  assumes "\<And>i. fst r \<le> i \<Longrightarrow> i < fst r + snd r \<Longrightarrow> fst r' \<le> i \<Longrightarrow> i < fst r' + snd r' \<Longrightarrow> False"
  shows "disjoint_runs r r'"
  unfolding disjoint_runs_def by (rule equals0I) (use assms in \<open>force simp only: Int_iff atLeastLessThan_iff\<close>)

lemma frame_free_hi: "frame_free s i \<Longrightarrow> i < highest_frame_idx s"
  by (simp add: frame_free_def)

lemma sorted_wrt_remove1: "sorted_wrt P xs \<Longrightarrow> sorted_wrt P (remove1 x xs)"
  by (induction xs) (auto dest: notin_set_remove1)

lemma sorted_wrt_member:
  assumes "sorted_wrt P xs" and "r \<in> set (remove1 x xs)" and "x \<in> set xs" and "symp P"
  shows "P x r"
  using assms by (induction xs) (auto simp: symp_def split: if_splits)

lemma owned_ok_alloc:
  assumes "owned_ok s owned" and "vm_alloc_frame n s = Ret (a, s')"
  shows "owned_ok s' ((a div 4096, n) # owned)"
proof -
  have inv: "seg_inv s" using assms(1) by (simp add: owned_ok_def)
  obtain bm where bm: "bitmap s = Some bm" using inv by (auto simp: seg_inv_def split: option.splits)
  have n: "0 < n" using assms(2) vm_alloc_frame_zero [of s] by (cases n) auto
  show ?thesis
  proof (cases rule: vm_alloc_frame_cases [OF inv bm n, case_names found none])
    case none
    with assms(2) show ?thesis by simp
  next
    case (found k)
    note f = take_frames_free [OF inv bm found(2) n]
    from found assms(2) have s': "s' = counted n (take_frames bm k n s)" and a: "a div 4096 = k" by simp_all
    have upd: "bitmap s' = Some bm" "bitmap_size s' = bitmap_size s"
        "highest_frame_idx s' = highest_frame_idx s"
        "\<And>i. frame_free s' i \<longleftrightarrow> frame_free s i \<and> \<not> (k \<le> i \<and> i < k + n)"
      using bm by (simp_all add: s' counted_def take_frames_def f [unfolded take_frames_def])
    have "used_run s' k n"
      using found(2) inv bm by (auto simp: used_run_def upd free_run_def seg_inv_def dest: frame_free_hi)
    moreover have "used_run s' (fst r) (snd r) \<and> disjoint_runs (k, n) r" if "r \<in> set owned" for r
    proof -
      have u: "used_run s (fst r) (snd r)" using that assms(1) by (simp add: owned_ok_def)
      then have "used_run s' (fst r) (snd r)" using bm by (auto simp: used_run_def upd)
      moreover have "disjoint_runs (k, n) r"
        using used_not_free [OF u] free_runD [OF found(2)] by (intro disjoint_runsI) (metis fst_conv snd_conv)
      ultimately show ?thesis by simp
    qed
    ultimately show ?thesis
      using assms(1) alloc_inv [OF inv bm found(2) n] n
      by (simp add: owned_ok_def a s' [symmetric])
  qed
qed

lemma owned_ok_free:
  assumes "owned_ok s owned" and "(k, n) \<in> set owned"
    and "vm_free_frame (of_nat (4096 * k)) (of_nat n) s = Some (Ret s')"
  shows "owned_ok s' (remove1 (k, n) owned)"
proof -
  have inv: "seg_inv s" and u: "used_run s k n" and n: "0 < n"
    using assms(1,2) by (auto simp: owned_ok_def)
  obtain bm where bm: "bitmap s = Some bm" using inv by (auto simp: seg_inv_def split: option.splits)
  have "k + n < 2 ^ 52" using used_run_bound [OF u n] inv bm by (simp add: seg_inv_def)
  then have s': "s' = give_frames bm k n s"
    using vm_free_frame_run [OF bm _ n, of k] assms(3) by simp
  note f = give_frames_free [OF bm used_run_bound [OF u n]]
  have "used_run s' (fst r) (snd r)" if r: "r \<in> set (remove1 (k, n) owned)" for r
  proof -
    have o: "used_run s (fst r) (snd r)" using r assms(1) notin_set_remove1 by (fastforce simp: owned_ok_def)
    have "disjoint_runs (k, n) r"
      by (rule sorted_wrt_member [OF _ r assms(2) symp_disjoint_runs]) (use assms(1) in \<open>simp add: owned_ok_def\<close>)
    note d = disjoint_runsD [OF this]
    have upd: "bitmap s' = Some bm" "bitmap_size s' = bitmap_size s" "highest_frame_idx s' = highest_frame_idx s"
      using bm by (simp_all add: s' give_frames_def)
    have "\<not> frame_free s' i" if "fst r \<le> i" "i < fst r + snd r" for i
      using o that d [of i] by (auto simp: used_run_def s' f)
    then show ?thesis
      using o bm by (simp add: used_run_def upd)
  qed
  then show ?thesis
    using assms(1) free_inv [OF inv bm u n] sorted_wrt_remove1
    by (auto simp: owned_ok_def s' dest: notin_set_remove1)
qed

lemma alloc_mem:
  assumes "seg_inv s" and "bitmap s = Some bm" and "free_run s k n"
  shows "4096 * k \<le> a \<Longrightarrow> a < 4096 * (k + n) \<Longrightarrow> mem (counted n (take_frames bm k n s)) a = 0"
    and "\<not> (4096 * k \<le> a \<and> a < 4096 * (k + n)) \<Longrightarrow> \<not> (bm \<le> a \<and> a < bm + bitmap_size s) \<Longrightarrow>
      mem (counted n (take_frames bm k n s)) a = mem s a"
proof -
  show "mem (counted n (take_frames bm k n s)) a = 0" if "4096 * k \<le> a" "a < 4096 * (k + n)"
    using that by (simp add: counted_def take_frames_def mem_set_def)
  show "mem (counted n (take_frames bm k n s)) a = mem s a"
    if "\<not> (4096 * k \<le> a \<and> a < 4096 * (k + n))" "\<not> (bm \<le> a \<and> a < bm + bitmap_size s)"
  proof -
    have "i div 8 < bitmap_size s" if "i \<in> set [k..<k + n]" for i
      using that free_runD [OF assms(3), of i] assms(1,2)
      by (auto simp: seg_inv_def dest!: frame_free_hi)
    then have "fold (\<lambda>i m. setbit m bm i) [k..<k + n] (mem s) a = mem s a"
      using that(2) by (intro fold_setbit_frame) fastforce
    then show ?thesis using that(1) by (auto simp: counted_def take_frames_def mem_set_def)
  qed
qed

text \<open>
  C23 (allocation of frames).  In a state with the invariant an allocation of \<open>n > 0\<close> frames succeeds
  exactly when \<open>n\<close> free frames in a row exist, wherever the last search ended; otherwise it panics.
  On success the address is that of such a run and not 0, exactly these frames stop being free, they
  are filled with zeros, no byte outside them and the bitmap changes, and the invariant still holds.
\<close>

theorem vm_alloc_frame_spec:
  assumes "seg_inv s" and "0 < n"
  shows "if \<exists>k. free_run s k n
    then \<exists>k s'. vm_alloc_frame n s = Ret (4096 * k, s') \<and> 0 < k \<and> free_run s k n \<and> seg_inv s' \<and>
      (\<forall>i. frame_free s' i \<longleftrightarrow> frame_free s i \<and> \<not> (k \<le> i \<and> i < k + n)) \<and>
      (\<forall>a. mem s' a = (if 4096 * k \<le> a \<and> a < 4096 * (k + n) then 0
         else if the (bitmap s) \<le> a \<and> a < the (bitmap s) + bitmap_size s then mem s' a else mem s a)) \<and>
      pages_free s' = pages_free s - of_nat n \<and> pages_used s' = pages_used s + of_nat n
    else vm_alloc_frame n s = Panic"
proof -
  obtain bm where bm: "bitmap s = Some bm" using assms(1) by (auto simp: seg_inv_def split: option.splits)
  show ?thesis
  proof (cases rule: vm_alloc_frame_cases [OF assms(1) bm assms(2), case_names found none])
    case (found k)
    have r: "frame_free (counted n (take_frames bm k n s)) i \<longleftrightarrow> frame_free s i \<and> \<not> (k \<le> i \<and> i < k + n)" for i
      using take_frames_free [OF assms(1) bm found(2) assms(2)] by (simp add: counted_def)
    note m = alloc_mem [OF assms(1) bm found(2)]
    have "pages_free (counted n (take_frames bm k n s)) = pages_free s - of_nat n"
      "pages_used (counted n (take_frames bm k n s)) = pages_used s + of_nat n"
      by (simp_all add: counted_def take_frames_def)
    then show ?thesis
      using found r m alloc_inv [OF assms(1) bm found(2) assms(2)] bm
      by (intro if_P [THEN iffD2] exI [of _ k] exI [of _ "counted n (take_frames bm k n s)"])
        (auto simp: mult.commute)
  next
    case none
    then show ?thesis by simp
  qed
qed

lemma alloc_pages:
  assumes "owned_ok s owned" and "vm_alloc_frame n s = Ret (a, s')"
  shows "pages_free s' = pages_free s - of_nat n"
proof -
  have inv: "seg_inv s" using assms(1) by (simp add: owned_ok_def)
  obtain bm where bm: "bitmap s = Some bm" using inv by (auto simp: seg_inv_def split: option.splits)
  have n: "0 < n" using assms(2) vm_alloc_frame_zero [of s] by (cases n) auto
  show ?thesis
    by (cases rule: vm_alloc_frame_cases [OF inv bm n, case_names found none])
      (use assms(2) in \<open>auto simp: counted_def take_frames_def\<close>)
qed

lemma free_pages:
  assumes "owned_ok s owned" and "(k, n) \<in> set owned"
    and "vm_free_frame (of_nat (4096 * k)) (of_nat n) s = Some (Ret s')"
  shows "pages_free s' = pages_free s + of_nat n"
  using assms(3) by (auto simp: vm_free_frame_def Let_def split: option.splits if_splits)

text \<open>
  C24 (frames are never shared).  In every state reached from one with the invariant by allocations
  and by giving back owned runs, the runs that are owned are pairwise disjoint, none of their frames is
  free or part of the bitmap, and the counter of free pages is lower by exactly their total.
\<close>

theorem frames_never_shared:
  assumes "seg_reach s0 s owned" and "seg_inv s0"
  shows "sorted_wrt disjoint_runs owned \<and> (\<forall>(k, n) \<in> set owned. used_run s k n) \<and> seg_inv s \<and>
    pages_free s + of_nat (sum_list (map snd owned)) = pages_free s0"
proof -
  have "owned_ok s owned \<and> pages_free s + of_nat (sum_list (map snd owned)) = pages_free s0"
    using assms
  proof (induction rule: seg_reach.induct)
    case boot
    then show ?case by (simp add: owned_ok_def)
  next
    case (alloc s owned n a s')
    then have ok: "owned_ok s owned" by simp
    from alloc.IH alloc.prems alloc_pages [OF ok alloc.hyps(2)] owned_ok_alloc [OF ok alloc.hyps(2)] show ?case
      by simp
  next
    case (free s owned k n s')
    then have ok: "owned_ok s owned" by simp
    from free.IH free.prems free_pages [OF ok free.hyps(2,3)] owned_ok_free [OF ok free.hyps(2,3)]
      sum_list_map_remove1 [OF free.hyps(2), of snd] show ?case
      by (simp add: add.assoc)
  qed
  then show ?thesis by (auto simp: owned_ok_def)
qed

section \<open>Correctness of the initialisation\<close>

abbreviation usable :: "memmap_entry \<Rightarrow> bool" where
  "usable e \<equiv> me_type e = MEMMAP_USABLE"

definition pages_of :: "memmap_entry \<Rightarrow> nat set" where
  "pages_of e = {me_base e div 4096..<(me_base e + me_length e) div 4096}"

definition usable_pages :: "memmap_entry list \<Rightarrow> nat set" where
  "usable_pages es = (\<Union>e \<in> {e \<in> set es. usable e}. pages_of e)"

text \<open>
  What the boot protocol promises of the memory map: usable regions are page aligned, do not start at
  address 0, end below \<open>2 ^ 64\<close> and do not overlap.
\<close>

definition entry_aligned :: "memmap_entry \<Rightarrow> bool" where
  "entry_aligned e \<longleftrightarrow> 4096 dvd me_base e \<and> 4096 dvd me_length e \<and> 0 < me_base e \<and> me_base e + me_length e < 2 ^ 64"

definition memmap_ok :: "memmap_entry list \<Rightarrow> bool" where
  "memmap_ok es \<longleftrightarrow>
     (\<forall>e \<in> set es. usable e \<longrightarrow> entry_aligned e) \<and>
     sorted_wrt (\<lambda>e f. usable e \<and> usable f \<longrightarrow> pages_of e \<inter> pages_of f = {}) es"

lemma page_index: "(4096 * b + 4096 * t) div 4096 = b + (t :: nat)"
  by (simp only: distrib_left [symmetric]) simp

lemma clear_loop_bits:
  "testbit (clear_loop m bm (4096 * b) (4096 * n) (4096 * t)) bm j \<longleftrightarrow>
     testbit m bm j \<and> \<not> (b + t \<le> j \<and> j < b + n)"
proof (induction "n - t" arbitrary: m t)
  case 0
  then show ?case by (subst clear_loop.simps) auto
next
  case (Suc d)
  have d: "d = n - Suc t" using Suc.hyps(2) by simp
  have lt: "4096 * t < 4096 * n" using Suc.hyps(2) by simp
  have ix: "(4096 * b + 4096 * t) div 4096 = b + t" by (rule page_index)
  have "clear_loop m bm (4096 * b) (4096 * n) (4096 * t) =
      clear_loop (clrbit m bm (b + t)) bm (4096 * b) (4096 * n) (4096 * Suc t)"
    using lt ix by (subst clear_loop.simps) (simp add: add.commute)
  then show ?case
    using Suc.hyps(1) [OF d, of "clrbit m bm (b + t)"] Suc.hyps(2) by auto
qed

lemma clear_entry:
  assumes "entry_aligned e"
  shows "testbit (clear_loop m bm (me_base e) (me_length e) 0) bm j \<longleftrightarrow> testbit m bm j \<and> j \<notin> pages_of e"
proof -
  obtain b n where "me_base e = 4096 * b" "me_length e = 4096 * n" using assms by (auto simp: entry_aligned_def elim!: dvdE)
  then show ?thesis using clear_loop_bits [of m bm b n 0 j]
    by (simp add: pages_of_def page_index)
qed

lemma card_pages:
  assumes "entry_aligned e"
  shows "card (pages_of e) = me_length e div 4096"
proof -
  obtain b n where "me_base e = 4096 * b" "me_length e = 4096 * n" using assms by (auto simp: entry_aligned_def elim!: dvdE)
  then show ?thesis by (simp add: pages_of_def page_index)
qed

definition usable_count :: "memmap_entry list \<Rightarrow> nat" where
  "usable_count es = sum_list (map (\<lambda>e. me_length e div 4096) (filter usable es))"

lemma usable_pages_simps [simp]:
  "usable_pages [] = {}"
  "usable_pages (e # es) = (if usable e then pages_of e \<union> usable_pages es else usable_pages es)"
  by (auto simp: usable_pages_def)

lemma finite_usable [simp]: "finite (usable_pages es)"
  by (auto simp: usable_pages_def pages_of_def)

lemma card_usable_pages:
  assumes "memmap_ok es"
  shows "card (usable_pages es) = usable_count es"
  using assms
proof (induction es)
  case Nil
  then show ?case by (simp add: usable_count_def)
next
  case (Cons e es)
  have IH: "card (usable_pages es) = usable_count es" using Cons by (simp add: memmap_ok_def)
  show ?case
  proof (cases "usable e")
    case True
    have "pages_of e \<inter> usable_pages es = {}"
      using Cons.prems True by (fastforce simp: memmap_ok_def usable_pages_def)
    then have "card (pages_of e \<union> usable_pages es) = card (pages_of e) + card (usable_pages es)"
      by (intro card_Un_disjoint) (simp_all add: pages_of_def)
    then show ?thesis
      using IH True Cons.prems card_pages [of e] by (simp add: usable_count_def memmap_ok_def)
  qed (use IH in \<open>simp add: usable_count_def\<close>)
qed

lemma populate_usable:
  assumes "usable e" and "bitmap s = Some bm"
  obtains s1 where "populate_entry e s = Ret s1" "bitmap s1 = Some bm" "bitmap_size s1 = bitmap_size s"
    "highest_frame_idx s1 = highest_frame_idx s"
    "mem s1 = clear_loop (mem s) bm (me_base e) (me_length e) 0"
    "pages_free s1 = pages_free s + of_nat (me_length e div 4096)"
proof -
  obtain s1 where p: "populate_entry e s = Ret s1" using assms
    by (cases "bitmap_free_start s = 0") (simp_all add: populate_entry_def Let_def)
  show ?thesis
    by (rule that [OF p]; use p assms in \<open>cases "bitmap_free_start s = 0"\<close>)
      (auto simp: populate_entry_def Let_def)
qed

lemma populate_loop_result:
  assumes "\<forall>e \<in> set es. usable e \<longrightarrow> entry_aligned e" and "bitmap s = Some bm"
  shows "\<exists>s'. populate_loop es s = Ret s' \<and> bitmap s' = Some bm \<and> bitmap_size s' = bitmap_size s \<and>
    highest_frame_idx s' = highest_frame_idx s \<and>
    (\<forall>j. testbit (mem s') bm j \<longleftrightarrow> testbit (mem s) bm j \<and> j \<notin> usable_pages es) \<and>
    pages_free s' = pages_free s + of_nat (usable_count es)"
  using assms
proof (induction es arbitrary: s)
  case Nil
  then show ?case by (simp add: usable_count_def)
next
  case (Cons e es)
  show ?case
  proof (cases "usable e")
    case False
    define s1 where "s1 = s\<lparr>pages_total := pages_total s + of_nat (me_length e div 4096),
      pages_used := pages_used s + of_nat (me_length e div 4096)\<rparr>"
    have p: "populate_entry e s = Ret s1" using False by (simp add: populate_entry_def s1_def Let_def)
    have u: "bitmap s1 = Some bm" "bitmap_size s1 = bitmap_size s" "highest_frame_idx s1 = highest_frame_idx s"
      "mem s1 = mem s" "pages_free s1 = pages_free s" using Cons.prems by (simp_all add: s1_def)
    from Cons.IH [OF _ u(1)] Cons.prems(1) show ?thesis using False
      by (simp add: p u usable_count_def)
  next
    case True
    then have al: "entry_aligned e" using Cons.prems(1) by simp
    obtain s1 where p: "populate_entry e s = Ret s1" and u: "bitmap s1 = Some bm" "bitmap_size s1 = bitmap_size s"
      "highest_frame_idx s1 = highest_frame_idx s"
      "mem s1 = clear_loop (mem s) bm (me_base e) (me_length e) 0"
      "pages_free s1 = pages_free s + of_nat (me_length e div 4096)"
      using populate_usable [OF True Cons.prems(2)] .
    from Cons.IH [OF _ u(1)] Cons.prems(1) obtain s' where "populate_loop es s1 = Ret s'" "bitmap s' = Some bm"
      "bitmap_size s' = bitmap_size s1" "highest_frame_idx s' = highest_frame_idx s1"
      "\<forall>j. testbit (mem s') bm j \<longleftrightarrow> testbit (mem s1) bm j \<and> j \<notin> usable_pages es"
      "pages_free s' = pages_free s1 + of_nat (usable_count es)" by auto
    then show ?thesis
      using True p u clear_entry [OF al] by (auto simp: usable_count_def add.assoc)
  qed
qed

lemma memmap_ok_Cons:
  "memmap_ok (e # es) \<longleftrightarrow>
     (usable e \<longrightarrow> entry_aligned e \<and> pages_of e \<inter> usable_pages es = {}) \<and> memmap_ok es"
  by (fastforce simp: memmap_ok_def usable_pages_def)

lemma pages_of_eq: "me_base e = 4096 * x \<Longrightarrow> me_length e = 4096 * y \<Longrightarrow> pages_of e = {x..<x + y}"
  by (simp add: pages_of_def page_index)

lemma shift_entry:
  assumes "entry_aligned e" and "4096 dvd bs" and "bs \<le> me_length e" and "usable e"
  defines "e' \<equiv> e\<lparr>me_base := me_base e + bs, me_length := me_length e - bs\<rparr>"
    and "B \<equiv> {me_base e div 4096..<(me_base e + bs) div 4096}"
  shows "entry_aligned e'" "usable e'" "pages_of e' = pages_of e - B" "B \<subseteq> pages_of e"
proof -
  obtain b n k where bnk: "me_base e = 4096 * b" "me_length e = 4096 * n" "bs = 4096 * k"
    using assms(1,2) by (auto simp: entry_aligned_def elim!: dvdE)
  have le: "k \<le> n" using assms(3) bnk by simp
  have e': "me_base e' = 4096 * (b + k)" "me_length e' = 4096 * (n - k)"
    by (simp_all add: e'_def bnk right_diff_distrib')
  have "me_base e' + me_length e' = me_base e + me_length e"
    using assms(3) by (simp add: e'_def)
  moreover have "0 < b" using assms(1) bnk by (simp add: entry_aligned_def)
  ultimately show "entry_aligned e'" using assms(1) by (simp add: entry_aligned_def e')
  show "usable e'" using assms(4) by (simp add: e'_def)
  have p: "pages_of e' = {b + k..<b + k + (n - k)}" "pages_of e = {b..<b + n}" "B = {b..<b + k}"
    by (rule pages_of_eq [OF e'], rule pages_of_eq [OF bnk(1,2)]) (simp add: B_def bnk page_index)
  show "pages_of e' = pages_of e - B" "B \<subseteq> pages_of e" unfolding p using le by auto
qed

lemma alloc_bitmap_result:
  assumes "memmap_ok es" and "\<exists>e \<in> set es. usable e \<and> bitmap_size s \<le> me_length e" and "4096 dvd bitmap_size s"
  shows "\<exists>es' bm. alloc_bitmap_loop es s =
      (es', s\<lparr>bitmap := Some bm, mem := mem_set (mem s) bm 0xFF (bitmap_size s)\<rparr>) \<and> memmap_ok es' \<and>
    4096 dvd bm \<and> {bm div 4096..<(bm + bitmap_size s) div 4096} \<subseteq> usable_pages es \<and>
    usable_pages es' = usable_pages es - {bm div 4096..<(bm + bitmap_size s) div 4096}"
  using assms(1,2)
proof (induction es)
  case (Cons e es)
  have ok: "memmap_ok es" using Cons.prems(1) by (simp add: memmap_ok_Cons)
  show ?case
  proof (cases "usable e \<and> bitmap_size s \<le> me_length e")
    case True
    have al: "entry_aligned e" and dis: "pages_of e \<inter> usable_pages es = {}"
      using Cons.prems(1) True by (simp_all add: memmap_ok_Cons)
    note sh = shift_entry [OF al assms(3) conjunct2 [OF True] conjunct1 [OF True]]
    let ?e = "e\<lparr>me_base := me_base e + bitmap_size s, me_length := me_length e - bitmap_size s\<rparr>"
    have "memmap_ok (?e # es)" using sh ok dis by (auto simp: memmap_ok_Cons)
    moreover have "4096 dvd me_base e" using al by (simp add: entry_aligned_def)
    ultimately show ?thesis
      using True sh dis by (intro exI [of _ "?e # es"] exI [of _ "me_base e"]) auto
  next
    case False
    with Cons obtain es' bm where r: "alloc_bitmap_loop es s =
        (es', s\<lparr>bitmap := Some bm, mem := mem_set (mem s) bm 0xFF (bitmap_size s)\<rparr>)" "memmap_ok es'"
      "4096 dvd bm" "{bm div 4096..<(bm + bitmap_size s) div 4096} \<subseteq> usable_pages es"
      "usable_pages es' = usable_pages es - {bm div 4096..<(bm + bitmap_size s) div 4096}"
      using ok by auto
    have "memmap_ok (e # es')" using Cons.prems(1) r by (auto simp: memmap_ok_Cons)
    moreover have "usable_pages (e # es') = usable_pages (e # es) - {bm div 4096..<(bm + bitmap_size s) div 4096}"
      using Cons.prems(1) r by (auto simp: memmap_ok_Cons)
    moreover have "{bm div 4096..<(bm + bitmap_size s) div 4096} \<subseteq> usable_pages (e # es)"
      using r(4) by auto
    moreover have "alloc_bitmap_loop (e # es) s =
        (e # es', s\<lparr>bitmap := Some bm, mem := mem_set (mem s) bm 0xFF (bitmap_size s)\<rparr>)"
      using False r(1) by auto
    ultimately show ?thesis using r(3) by (intro exI conjI)
  qed
qed simp

lemma highest_loop_ge: "h \<le> highest_loop es h"
  by (induction es arbitrary: h) (auto intro: order_trans [OF max.cobounded1])

lemma highest_loop_bound:
  assumes "e \<in> set es" and "usable e"
  shows "me_base e + me_length e \<le> highest_loop es h"
  using assms
proof (induction es arbitrary: h)
  case (Cons f es)
  then show ?case
    using order_trans [OF max.cobounded2 highest_loop_ge] by (cases "e = f") auto
qed simp

lemma highest_loop_less:
  "memmap_ok es \<Longrightarrow> h < 2 ^ 64 \<Longrightarrow> highest_loop es h < 2 ^ 64"
  by (induction es arbitrary: h) (auto simp: memmap_ok_Cons entry_aligned_def)

lemma usable_pages_bound:
  assumes "i \<in> usable_pages es"
  shows "i < highest_loop es 0 div 4096"
proof -
  obtain e where e: "e \<in> set es" "usable e" "i \<in> pages_of e" using assms by (auto simp: usable_pages_def)
  then have "i < (me_base e + me_length e) div 4096" by (simp add: pages_of_def)
  also have "\<dots> \<le> highest_loop es 0 div 4096" using highest_loop_bound [OF e(1,2)] by (rule div_le_mono)
  finally show ?thesis .
qed

lemma usable_pages_pos:
  assumes "memmap_ok es" and "i \<in> usable_pages es"
  shows "0 < i"
proof -
  obtain e where e: "e \<in> set es" "usable e" "i \<in> pages_of e" using assms(2) by (auto simp: usable_pages_def)
  then have "0 < me_base e" "4096 dvd me_base e" using assms(1) by (auto simp: memmap_ok_def entry_aligned_def)
  then have "0 < me_base e div 4096" by (auto elim!: dvdE)
  with e(3) show ?thesis by (simp add: pages_of_def)
qed

text \<open>
  C25 (initialisation of the frame allocator).  For a memory map as the boot protocol promises it, with
  a usable region large enough for the bitmap and a bitmap that covers every frame, the initialisation
  succeeds and establishes the invariant: exactly the usable frames outside the bitmap are free, and
  the counter of free pages is their number.
\<close>

theorem vm_seg_init_spec:
  assumes "memmap_ok es" and "hi = highest_loop es 0 div 4096" and "bs = round_up (hi div 8) 4096"
    and "hi \<le> 8 * bs" and "\<exists>e \<in> set es. usable e \<and> bs \<le> me_length e" and "pages_free s = 0"
  shows "\<exists>s' bm. vm_seg_init es s = Ret ((pages_free s', pages_used s'), s') \<and> bitmap s' = Some bm \<and>
    seg_inv s' \<and> (\<forall>i. frame_free s' i \<longleftrightarrow> i \<in> usable_pages es \<and> \<not> (bm \<le> 4096 * i \<and> 4096 * i < bm + bs)) \<and>
    pages_free s' = of_nat (card (usable_pages es) - bs div 4096)"
proof -
  define s1 where "s1 = s\<lparr>entries := es, highest_frame_idx := hi, bitmap_size := bs\<rparr>"
  have dv: "4096 dvd bs" by (simp add: assms(3) round_up_dvd)
  obtain es' bm where r: "alloc_bitmap_loop es s1 =
      (es', s1\<lparr>bitmap := Some bm, mem := mem_set (mem s1) bm 0xFF bs\<rparr>)" "memmap_ok es'" "4096 dvd bm"
    "{bm div 4096..<(bm + bs) div 4096} \<subseteq> usable_pages es"
    "usable_pages es' = usable_pages es - {bm div 4096..<(bm + bs) div 4096}"
    using alloc_bitmap_result [OF assms(1), of s1] assms(5) dv by (auto simp: s1_def)
  define s2 where "s2 = s1\<lparr>bitmap := Some bm, mem := mem_set (mem s1) bm 0xFF bs, entries := es'\<rparr>"
  have s2: "physmem_alloc_bitmap s1 = s2" "bitmap s2 = Some bm" "bitmap_size s2 = bs"
      "highest_frame_idx s2 = hi" "pages_free s2 = 0" "mem s2 = mem_set (mem s) bm 0xFF bs" "entries s2 = es'"
    using r(1) assms(6) by (simp_all add: physmem_alloc_bitmap_def s2_def s1_def)
  have al: "\<forall>e \<in> set es'. usable e \<longrightarrow> entry_aligned e" using r(2) by (simp add: memmap_ok_def)
  obtain s' where s': "populate_loop es' s2 = Ret s'" "bitmap s' = Some bm" "bitmap_size s' = bs"
      "highest_frame_idx s' = hi" "pages_free s' = of_nat (usable_count es')"
      "\<And>j. testbit (mem s') bm j \<longleftrightarrow> testbit (mem s2) bm j \<and> j \<notin> usable_pages es'"
    using populate_loop_result [OF al s2(2)] s2 by auto
  have init: "vm_seg_init es s = Ret ((pages_free s', pages_used s'), s')"
    using s'(1) s2(1,7)
    by (simp add: vm_seg_init_def physmem_init_bitmap_def physmem_populate_bitmap_def Let_def s1_def
        flip: assms(2,3))
  have ff: "frame_free s' i \<longleftrightarrow> i \<in> usable_pages es'" for i
  proof -
    have "i \<in> usable_pages es' \<Longrightarrow> i < hi" using usable_pages_bound [of i es] r(5) assms(2) by auto
    moreover have "i < hi \<Longrightarrow> testbit (mem s2) bm i"
      using assms(4) by (auto simp: s2(6) intro!: testbit_mem_set_FF)
    ultimately show ?thesis by (auto simp: frame_free_def s')
  qed
  obtain b k where bk: "bm = 4096 * b" "bs = 4096 * k" using r(3) dv by (auto elim!: dvdE)
  have B: "{bm div 4096..<(bm + bs) div 4096} = {b..<b + k}" unfolding bk page_index by simp
  have out: "i \<in> {b..<b + k} \<longleftrightarrow> bm \<le> 4096 * i \<and> 4096 * i < bm + bs" for i
    unfolding bk by auto
  have FS: "Collect (frame_free s') = usable_pages es'" by (auto simp: ff)
  have "card (usable_pages es') = card (usable_pages es) - k"
    using r(4) unfolding r(5) B by (subst card_Diff_subset) simp_all
  then have cnt: "pages_free s' = of_nat (card (usable_pages es) - bs div 4096)"
    "pages_free s' = of_nat (card {i. frame_free s' i})"
    using card_usable_pages [OF r(2)] by (simp_all add: s'(5) FS bk)
  have "hi < 2 ^ 52" using highest_loop_less [OF assms(1), of 0] assms(2) by simp
  moreover have "0 < i \<and> (4096 * i + 4096 \<le> bm \<or> bm + bs \<le> 4096 * i)" if "i \<in> usable_pages es'" for i
  proof -
    have "i \<notin> {b..<b + k}" using that r(5) B by simp
    then have "i < b \<or> b + k \<le> i" by auto
    then have "4096 * i + 4096 \<le> bm \<or> bm + bs \<le> 4096 * i" unfolding bk by auto
    then show ?thesis using usable_pages_pos [OF r(2) that] by simp
  qed
  ultimately have "seg_inv s'" using assms(4) cnt(2) by (simp add: seg_inv_def s'(2-4) ff FS)
  moreover have "\<forall>i. frame_free s' i \<longleftrightarrow> i \<in> usable_pages es \<and> \<not> (bm \<le> 4096 * i \<and> 4096 * i < bm + bs)"
    using ff r(5) B out by auto
  ultimately show ?thesis using init s'(2) cnt(1) by blast
qed

definition seg_zero :: seg where
  "seg_zero = \<lparr>pages_free = 0, pages_used = 0, pages_total = 0, highest_frame_idx = 0, bitmap_size = 0,
     bitmap_free_start = 0, last_idx = 0, bitmap = None, entries = [], mem = (\<lambda>_. 0)\<rparr>"

definition memmap_demo :: "memmap_entry list" where
  "memmap_demo = [\<lparr>me_base = 0, me_length = 4096, me_type = MEMMAP_RESERVED\<rparr>,
     \<lparr>me_base = 4096, me_length = 16384, me_type = MEMMAP_USABLE\<rparr>,
     \<lparr>me_base = 20480, me_length = 65536, me_type = MEMMAP_USABLE\<rparr>]"

theorem vm_seg_init_spec_witness:
  "\<exists>s' bm. vm_seg_init memmap_demo seg_zero = Ret ((pages_free s', pages_used s'), s') \<and> seg_inv s' \<and>
     pages_free s' = 19"
proof -
  have ok: "memmap_ok memmap_demo" by (simp add: memmap_ok_Cons memmap_demo_def entry_aligned_def pages_of_def) (simp add: memmap_ok_def)
  have hi: "highest_loop memmap_demo 0 div 4096 = 21" by (simp add: memmap_demo_def)
  have bs: "round_up (21 div 8) 4096 = 4096" by (simp add: round_up_def)
  have fit: "\<exists>e \<in> set memmap_demo. usable e \<and> 4096 \<le> me_length e" by (simp add: memmap_demo_def)
  have "card (usable_pages memmap_demo) = 20"
    using card_usable_pages [OF ok] by (simp add: usable_count_def memmap_demo_def)
  with vm_seg_init_spec [OF ok hi [symmetric] bs [symmetric] _ fit, of seg_zero] show ?thesis
    by (auto simp: seg_zero_def)
qed

definition seg_demo :: seg where
  "seg_demo = seg_zero\<lparr>highest_frame_idx := 3, bitmap_size := 4096, bitmap := Some 4096, pages_free := 1,
     mem := (\<lambda>_. 0)(4096 := 0xFB)\<rparr>"

lemma seg_demo_free: "frame_free seg_demo i \<longleftrightarrow> i = 2"
proof -
  consider "i = 0" | "i = 1" | "i = 2" | "3 \<le> i" by linarith
  then show ?thesis
    by cases (simp_all add: frame_free_def seg_demo_def testbit_def)
qed

lemma seg_demo_inv: "seg_inv seg_demo"
proof -
  have "Collect (frame_free seg_demo) = {2}" by (auto simp: seg_demo_free)
  moreover have "bitmap seg_demo = Some 4096" "bitmap_size seg_demo = 4096" "highest_frame_idx seg_demo = 3"
    "pages_free seg_demo = 1" by (simp_all add: seg_demo_def)
  ultimately show ?thesis by (simp add: seg_inv_def seg_demo_free)
qed

lemma seg_demo_run: "free_run seg_demo k n \<longleftrightarrow> n = 0 \<or> n = 1 \<and> k = 2"
proof
  assume r: "free_run seg_demo k n"
  have "n \<le> 1"
  proof (rule ccontr)
    assume "\<not> n \<le> 1"
    then show False using free_runD [OF r, of k] free_runD [OF r, of "k + 1"] by (simp add: seg_demo_free)
  qed
  then show "n = 0 \<or> n = 1 \<and> k = 2" using free_runD [OF r, of k] by (cases n) (simp_all add: seg_demo_free)
qed (auto simp: free_run_def seg_demo_free)

theorem vm_alloc_frame_spec_witness:
  "(\<exists>s'. vm_alloc_frame 1 seg_demo = Ret (8192, s') \<and> seg_inv s' \<and> pages_free s' = 0) \<and>
   vm_alloc_frame 2 seg_demo = Panic"
  using vm_alloc_frame_spec [OF seg_demo_inv, of 1] vm_alloc_frame_spec [OF seg_demo_inv, of 2]
  by (auto simp: seg_demo_run) (simp add: seg_demo_def)

theorem frames_never_shared_witness:
  "\<exists>s'. seg_reach seg_demo s' [(2, 1)] \<and> used_run s' 2 1 \<and> pages_free s' = 0"
proof -
  have bm: "bitmap seg_demo = Some 4096" by (simp add: seg_demo_def)
  obtain s' where a: "vm_alloc_frame 1 seg_demo = Ret (8192, s')"
  proof (cases rule: vm_alloc_frame_cases [OF seg_demo_inv bm zero_less_one, case_names found none])
    case (found k)
    then show thesis by (intro that) (simp add: seg_demo_run)
  next
    case none
    then show thesis using none(2) [of 2] by (simp add: seg_demo_run)
  qed
  have "seg_reach seg_demo s' [(8192 div 4096, 1)]" by (rule seg_reach.alloc [OF seg_reach.boot a])
  then have r: "seg_reach seg_demo s' [(2, 1)]" by simp
  from frames_never_shared [OF r seg_demo_inv] r show ?thesis by (auto simp: seg_demo_def)
qed

section \<open>What clients of the allocator rely on\<close>

text \<open>
  The interface the paging code uses: an allocation of one frame, the memory, and the addresses that
  are private to the allocator.  Clients may write any other byte.
\<close>

locale frame_source =
  fixes alloc :: "'s \<Rightarrow> (nat \<times> 's) exec"
    and inv :: "'s \<Rightarrow> bool"
    and free_at :: "'s \<Rightarrow> nat \<Rightarrow> bool"
    and memory :: "'s \<Rightarrow> pmem"
    and priv :: "'s \<Rightarrow> nat \<Rightarrow> bool"
    and put :: "pmem \<Rightarrow> 's \<Rightarrow> 's"
  assumes alloc_no_fault: "inv s \<Longrightarrow> alloc s \<noteq> Fault"
    and alloc_keeps_inv: "inv s \<Longrightarrow> alloc s = Ret (a, s') \<Longrightarrow> inv s'"
    and alloc_addr: "inv s \<Longrightarrow> alloc s = Ret (a, s') \<Longrightarrow> \<exists>k. a = 4096 * k \<and> 0 < k \<and> k < 2 ^ 52 \<and> free_at s k"
    and alloc_free: "inv s \<Longrightarrow> alloc s = Ret (a, s') \<Longrightarrow> free_at s' i \<longleftrightarrow> free_at s i \<and> i \<noteq> a div 4096"
    and alloc_zero: "inv s \<Longrightarrow> alloc s = Ret (a, s') \<Longrightarrow> x div 4096 = a div 4096 \<Longrightarrow> memory s' x = 0"
    and alloc_frame: "inv s \<Longrightarrow> alloc s = Ret (a, s') \<Longrightarrow> x div 4096 \<noteq> a div 4096 \<Longrightarrow> \<not> priv s x \<Longrightarrow>
      memory s' x = memory s x"
    and alloc_priv: "inv s \<Longrightarrow> alloc s = Ret (a, s') \<Longrightarrow> priv s' = priv s"
    and free_not_priv: "inv s \<Longrightarrow> free_at s (x div 4096) \<Longrightarrow> \<not> priv s x"
    and put_laws: "inv s \<Longrightarrow> (\<And>x. priv s x \<Longrightarrow> m x = memory s x) \<Longrightarrow>
      inv (put m s) \<and> free_at (put m s) = free_at s \<and> priv (put m s) = priv s"
    and memory_put: "memory (put m s) = m"
begin

lemma used_kept:
  assumes "inv s" and "alloc s = Ret (a, s')" and "\<not> free_at s (x div 4096)" and "\<not> priv s x"
  shows "memory s' x = memory s x"
proof -
  have "x div 4096 \<noteq> a div 4096" using alloc_addr [OF assms(1,2)] assms(3) by auto
  then show ?thesis by (rule alloc_frame [OF assms(1,2) _ assms(4)])
qed

lemma fresh_not_priv:
  assumes "inv s" and "alloc s = Ret (a, s')" and "x div 4096 = a div 4096"
  shows "\<not> priv s' x"
  using alloc_addr [OF assms(1,2)] free_not_priv [OF assms(1)] assms(3)
  by (auto simp: alloc_priv [OF assms(1,2)])

lemma fresh_not_free: "inv s \<Longrightarrow> alloc s = Ret (a, s') \<Longrightarrow> \<not> free_at s' (a div 4096)"
  by (simp add: alloc_free)

end

definition seg_priv :: "'a seg_scheme \<Rightarrow> nat \<Rightarrow> bool" where
  "seg_priv s x \<longleftrightarrow> (case bitmap s of None \<Rightarrow> False | Some bm \<Rightarrow> bm \<le> x \<and> x < bm + bitmap_size s)"

definition put_mem :: "pmem \<Rightarrow> 'a seg_scheme \<Rightarrow> 'a seg_scheme" where
  "put_mem m s = s\<lparr>mem := m\<rparr>"

lemma alloc_one:
  assumes "seg_inv s" and "vm_alloc_frame 1 s = Ret (a, s')"
  obtains bm k where "bitmap s = Some bm" "0 < k" "free_run s k 1" "a = 4096 * k"
    "s' = counted 1 (take_frames bm k 1 s)"
proof -
  obtain bm where bm: "bitmap s = Some bm" using assms(1) by (auto simp: seg_inv_def split: option.splits)
  show ?thesis
  proof (cases rule: vm_alloc_frame_cases [OF assms(1) bm zero_less_one, case_names found none])
    case (found k)
    with assms(2) show ?thesis by (intro that [OF bm found(1,2)]) simp_all
  qed (use assms(2) in simp)
qed

lemma seg_inv_put:
  assumes "seg_inv s" and "\<And>x. seg_priv s x \<Longrightarrow> m x = mem s x"
  shows "seg_inv (put_mem m s) \<and> frame_free (put_mem m s) = frame_free s \<and> seg_priv (put_mem m s) = seg_priv s"
proof -
  obtain bm where bm: "bitmap s = Some bm" using assms(1) by (auto simp: seg_inv_def split: option.splits)
  have "testbit m bm i = testbit (mem s) bm i" if "i < highest_frame_idx s" for i
  proof -
    have "i div 8 < bitmap_size s" using that assms(1) bm by (auto simp: seg_inv_def)
    then have "m (bm + i div 8) = mem s (bm + i div 8)" using assms(2) bm by (simp add: seg_priv_def)
    then show ?thesis by (simp add: testbit_bit)
  qed
  then have f: "frame_free (put_mem m s) = frame_free s"
    by (auto simp: frame_free_def put_mem_def bm fun_eq_iff)
  have u: "bitmap (put_mem m s) = bitmap s" "bitmap_size (put_mem m s) = bitmap_size s"
    "highest_frame_idx (put_mem m s) = highest_frame_idx s" "pages_free (put_mem m s) = pages_free s"
    by (simp_all add: put_mem_def)
  have "seg_priv (put_mem m s) = seg_priv s" unfolding fun_eq_iff seg_priv_def u by simp
  moreover have "seg_inv (put_mem m s)" using assms(1) unfolding seg_inv_def u f .
  ultimately show ?thesis using f by simp
qed

lemma page_of_iff: "x div 4096 = k \<longleftrightarrow> 4096 * k \<le> x \<and> x < 4096 * k + (4096 :: nat)"
  by auto

interpretation kframes: frame_source "vm_alloc_frame 1" seg_inv frame_free mem seg_priv put_mem
proof unfold_locales
  fix s s' :: "'a seg_scheme" and a x i m
  show "vm_alloc_frame 1 s \<noteq> Fault" if inv: "seg_inv s"
  proof -
    obtain bm where bm: "bitmap s = Some bm" using inv by (auto simp: seg_inv_def split: option.splits)
    show ?thesis by (cases rule: vm_alloc_frame_cases [OF inv bm zero_less_one]) simp_all
  qed
  show "\<not> seg_priv s x" if inv: "seg_inv s" and free: "frame_free s (x div 4096)"
  proof -
    obtain bm where bm: "bitmap s = Some bm" using inv by (auto simp: seg_inv_def split: option.splits)
    then have "4096 * (x div 4096) + 4096 \<le> bm \<or> bm + bitmap_size s \<le> 4096 * (x div 4096)"
      using inv free by (simp add: seg_inv_def)
    then show ?thesis by (simp add: seg_priv_def bm) linarith
  qed
  show "seg_inv (put_mem m s) \<and> frame_free (put_mem m s) = frame_free s \<and> seg_priv (put_mem m s) = seg_priv s"
    if "seg_inv s" "\<And>x. seg_priv s x \<Longrightarrow> m x = mem s x" using that by (rule seg_inv_put)
  show "mem (put_mem m s) = m" by (simp add: put_mem_def)
  assume inv: "seg_inv s" and al: "vm_alloc_frame 1 s = Ret (a, s')"
  from alloc_one [OF inv al] obtain bm k where r: "bitmap s = Some bm" "0 < k" "free_run s k 1" "a = 4096 * k"
    "s' = counted 1 (take_frames bm k 1 s)" .
  have f: "frame_free s k" using r(3) by (simp add: free_run_def)
  show "seg_inv s'" unfolding r(5) by (rule alloc_inv [OF inv r(1,3)]) simp
  show "\<exists>k. a = 4096 * k \<and> 0 < k \<and> k < 2 ^ 52 \<and> frame_free s k"
  proof -
    have "highest_frame_idx s < 2 ^ 52" using inv r(1) by (simp add: seg_inv_def)
    then have "k < 2 ^ 52" by (rule less_trans [OF frame_free_hi [OF f]])
    then show ?thesis using r(2,4) f by blast
  qed
  show "frame_free s' i \<longleftrightarrow> frame_free s i \<and> i \<noteq> a div 4096"
    using take_frames_free [OF inv r(1,3) zero_less_one, of i] by (simp add: r(4,5) counted_def) auto
  show "mem s' x = 0" if "x div 4096 = a div 4096"
    using that alloc_mem(1) [OF inv r(1,3), of x] by (simp add: r(4,5) page_of_iff)
  show "mem s' x = mem s x" if "x div 4096 \<noteq> a div 4096" "\<not> seg_priv s x"
    using that alloc_mem(2) [OF inv r(1,3), of x] r(1) by (simp add: r(4,5) page_of_iff seg_priv_def add.commute)
  show "seg_priv s' = seg_priv s"
    using r(1) by (simp add: r(5) seg_priv_def counted_def take_frames_def fun_eq_iff)
qed

end
