(* ===== verification/Mmu.thy ===== *)
theory Mmu
  imports Vm_Seg "HOL-Library.Sublist"
begin

text \<open>
  The amd64 paging code, \<^verbatim>\<open>sys/arch/amd64/cpu/mmu.c\<close>.  The state extends that of the frame allocator with
  the control registers, the kernel's address space and the translation look-aside buffer, here the
  pages that may have a cached translation.  Page tables are read and written in the physical memory:
  \<^verbatim>\<open>PHYS_TO_VIRT(p)\<close> denotes the byte at the physical address \<open>p\<close> through the direct map at \<open>hhdm\<close>.
\<close>

section \<open>State\<close>

record mmu = seg +
  cr3 :: u64
  cr4 :: u64
  kvas_cr3 :: u64
  hhdm :: u64
  tlb :: "u64 \<Rightarrow> bool"

definition PTE_ADDR_MASK :: u64 where "PTE_ADDR_MASK = 0x000FFFFFFFFFF000"
definition PTE_P :: u64 where "PTE_P = 1"
definition PTE_RW :: u64 where "PTE_RW = 2"
definition PTE_US :: u64 where "PTE_US = 4"
definition PTE_PWT :: u64 where "PTE_PWT = 8"
definition PTE_PCD :: u64 where "PTE_PCD = 16"
definition PTE_GLOBAL :: u64 where "PTE_GLOBAL = 256"
definition PTE_NX :: u64 where "PTE_NX = 0x8000000000000000"

abbreviation PROT_READ :: u32 where "PROT_READ \<equiv> 1"
abbreviation PROT_WRITE :: u32 where "PROT_WRITE \<equiv> 2"
abbreviation PROT_EXEC :: u32 where "PROT_EXEC \<equiv> 4"
abbreviation PROT_USER :: u32 where "PROT_USER \<equiv> 8"

abbreviation ISSET :: "'a::len word \<Rightarrow> 'a word \<Rightarrow> bool" where
  "ISSET v f \<equiv> v AND f \<noteq> 0"

datatype pglvl = MMU_OFF | MMU_TBL | MMU_L2 | MMU_L3 | MMU_L4 | MMU_L5

fun pglvl_num :: "pglvl \<Rightarrow> nat" where
  "pglvl_num MMU_OFF = 0"
| "pglvl_num MMU_TBL = 1"
| "pglvl_num MMU_L2 = 2"
| "pglvl_num MMU_L3 = 3"
| "pglvl_num MMU_L4 = 4"
| "pglvl_num MMU_L5 = 5"

fun pglvl_dec :: "pglvl \<Rightarrow> pglvl" where
  "pglvl_dec MMU_L5 = MMU_L4"
| "pglvl_dec MMU_L4 = MMU_L3"
| "pglvl_dec MMU_L3 = MMU_L2"
| "pglvl_dec MMU_L2 = MMU_TBL"
| "pglvl_dec MMU_TBL = MMU_OFF"
| "pglvl_dec MMU_OFF = MMU_OFF"

record mmu_map =
  va :: u64
  pa :: u64

section \<open>Operations\<close>

definition prot_to_pte :: "u32 \<Rightarrow> u64" where
  "prot_to_pte prot =
     (let f = PTE_NX;
          f = (if ISSET prot PROT_READ then f OR PTE_P else f);
          f = (if ISSET prot PROT_WRITE then f OR PTE_RW else f);
          f = (if ISSET prot PROT_USER then f OR PTE_US else f)
      in if ISSET prot PROT_EXEC then f AND NOT PTE_NX else f)"

definition invlpg :: "u64 \<Rightarrow> 'a mmu_scheme \<Rightarrow> 'a mmu_scheme" where
  "invlpg ptr s = s\<lparr>tlb := (tlb s)(ALIGN_UP ptr 4096 := False)\<rparr>"

definition mmu_write_cr3 :: "u64 \<Rightarrow> 'a mmu_scheme \<Rightarrow> 'a mmu_scheme" where
  "mmu_write_cr3 v s = s\<lparr>cr3 := v, tlb := (\<lambda>_. False)\<rparr>"

definition mmu_pg_level :: "'a mmu_scheme \<Rightarrow> pglvl" where
  "mmu_pg_level s = (if ISSET (cr4 s) 0x1000 then MMU_L5 else MMU_L4)"

fun mmu_get_level :: "u64 \<Rightarrow> pglvl \<Rightarrow> nat" where
  "mmu_get_level a MMU_L5 = unat (drop_bit 48 a AND 0x1FF)"
| "mmu_get_level a MMU_L4 = unat (drop_bit 39 a AND 0x1FF)"
| "mmu_get_level a MMU_L3 = unat (drop_bit 30 a AND 0x1FF)"
| "mmu_get_level a MMU_L2 = unat (drop_bit 21 a AND 0x1FF)"
| "mmu_get_level a MMU_TBL = unat (drop_bit 12 a AND 0x1FF)"
| "mmu_get_level a MMU_OFF = unat (a AND 0x1FF)"

declare mmu_get_level.simps [simp del]

text \<open>
  The descent of \<^verbatim>\<open>mmu_read_level\<close>: \<open>cur\<close> is the physical address of the current table; the result is
  that of the table at the desired level.
\<close>

function read_level_loop ::
  "u64 \<Rightarrow> pglvl \<Rightarrow> bool \<Rightarrow> nat \<Rightarrow> pglvl \<Rightarrow> 'a mmu_scheme \<Rightarrow> (nat res \<times> 'a mmu_scheme) exec" where
  "read_level_loop v lvl a cur cur_level s =
     (if pglvl_num lvl < pglvl_num cur_level then
        (let slot = cur + 8 * mmu_get_level v cur_level;
             addr = load64 (mem s) slot
         in if ISSET addr PTE_P then
              read_level_loop v lvl a (unat (addr AND PTE_ADDR_MASK)) (pglvl_dec cur_level) s
            else if \<not> a then Ret (Inl EPIPE, s)
            else
              (case vm_alloc_frame 1 s of
                 Panic \<Rightarrow> Panic
               | Fault \<Rightarrow> Fault
               | Ret (f, s) \<Rightarrow>
                   if f = 0 then Panic
                   else
                     (let s = s\<lparr>mem := store64 (mem s) slot (of_nat f OR PTE_P OR PTE_RW OR PTE_US)\<rparr>
                      in read_level_loop v lvl a f (pglvl_dec cur_level) (invlpg (of_nat f + hhdm s) s))))
      else Ret (Inr cur, s))"
  by pat_completeness auto
termination
proof (relation "measure (\<lambda>(v, lvl, a, cur, cur_level, s). pglvl_num cur_level)", goal_cases)
  case (2 v lvl a cur cur_level s)
  then show ?case by (cases cur_level) simp_all
next
  case (3 v lvl a cur cur_level s)
  then show ?case by (cases cur_level) simp_all
qed simp

declare read_level_loop.simps [simp del]

definition mmu_read_level ::
  "u64 \<Rightarrow> u64 \<Rightarrow> pglvl \<Rightarrow> bool \<Rightarrow> 'a mmu_scheme \<Rightarrow> (nat res \<times> 'a mmu_scheme) exec" where
  "mmu_read_level vas v lvl a s =
     read_level_loop v lvl a (unat (vas AND PTE_ADDR_MASK)) (mmu_pg_level s) s"

definition mmu_this_vas :: "'a mmu_scheme \<Rightarrow> u64" where
  "mmu_this_vas s = cr3 s"

definition mmu_map_single ::
  "u64 \<Rightarrow> mmu_map \<Rightarrow> u32 \<Rightarrow> 'a mmu_scheme \<Rightarrow> (unit res \<times> 'a mmu_scheme) exec" where
  "mmu_map_single vas spec prot s =
     (let pte_flags = prot_to_pte prot
      in case mmu_read_level vas (va spec) MMU_TBL True s of
           Panic \<Rightarrow> Panic
         | Fault \<Rightarrow> Fault
         | Ret (Inl e, s) \<Rightarrow> Ret (Inl e, s)
         | Ret (Inr pte, s) \<Rightarrow>
             (let index = mmu_get_level (va spec) MMU_TBL;
                  s = s\<lparr>mem := store64 (mem s) (pte + 8 * index) (if prot = 0 then 0 else pte_flags OR pa spec)\<rparr>
              in Ret (Inr (), invlpg (va spec) s)))"

fun copy_half :: "pmem \<Rightarrow> nat \<Rightarrow> nat \<Rightarrow> nat list \<Rightarrow> pmem" where
  "copy_half m dest src [] = m"
| "copy_half m dest src (i # is) =
     copy_half (store64 m (dest + 8 * i) (if i < 256 then 0 else load64 m (src + 8 * i))) dest src is"

definition mmu_new_vas :: "'a mmu_scheme \<Rightarrow> (u64 res \<times> 'a mmu_scheme) exec" where
  "mmu_new_vas s =
     (let src = unat (kvas_cr3 s AND PTE_ADDR_MASK)
      in case vm_alloc_frame 1 s of
           Panic \<Rightarrow> Panic
         | Fault \<Rightarrow> Fault
         | Ret (frame, s) \<Rightarrow>
             if frame = 0 then Ret (Inl ENOMEM, s)
             else Ret (Inr (of_nat frame), s\<lparr>mem := copy_half (mem s) frame src [0..<512]\<rparr>))"

definition mmu_write_vas :: "u64 \<Rightarrow> 'a mmu_scheme \<Rightarrow> unit res \<times> 'a mmu_scheme" where
  "mmu_write_vas vas s = (if vas = 0 then (Inl EINVAL, s) else (Inr (), mmu_write_cr3 vas s))"

text \<open>\<^verbatim>\<open>mmu_free_vas\<close> returns the cleared address space with the state.\<close>

definition mmu_free_vas :: "u64 \<Rightarrow> 'a mmu_scheme \<Rightarrow> (u64 \<times> 'a mmu_scheme) exec option" where
  "mmu_free_vas vas s = map_option (\<lambda>r. exec_bind r (\<lambda>s. Ret (0, s))) (vm_free_frame vas 1 s)"

text \<open>
  \<^verbatim>\<open>mmu_set_cache\<close> uses three local variables before it assigns them: \<open>flags\<close>, \<open>pa0\<close> and \<open>idx\<close> are what
  they hold.
\<close>

definition mmu_set_cache ::
  "u32 \<Rightarrow> u64 \<Rightarrow> nat \<Rightarrow> u64 \<Rightarrow> u64 \<Rightarrow> u16 \<Rightarrow> 'a mmu_scheme \<Rightarrow> (unit res \<times> 'a mmu_scheme) exec" where
  "mmu_set_cache flags pa0 idx vas v attr s =
     (case mmu_read_level vas v MMU_TBL True s of
        Panic \<Rightarrow> Panic
      | Fault \<Rightarrow> Fault
      | Ret (Inl e, s) \<Rightarrow> Ret (Inl EINVAL, s)
      | Ret (Inr pte, s) \<Rightarrow>
          (let (flags, attr) =
                 (if ISSET attr 1
                  then ((flags OR ucast PTE_PCD) AND NOT (ucast PTE_PWT), attr AND NOT 2) else (flags, attr));
               flags = (if ISSET attr 2 then (flags AND NOT (ucast PTE_PCD)) OR ucast PTE_PWT else flags);
               flags = (if \<not> ISSET attr 4 then flags AND NOT (ucast PTE_GLOBAL) else flags);
               s = s\<lparr>mem := store64 (mem s) (pte + 8 * idx) (pa0 OR ucast flags)\<rparr>
           in Ret (Inr (), invlpg v s)))"

definition mmu_init :: "'a mmu_scheme \<Rightarrow> 'a mmu_scheme exec" where
  "mmu_init s = (if mmu_pg_level s \<noteq> MMU_L4 then Panic else Ret (s\<lparr>kvas_cr3 := cr3 s\<rparr>))"

section \<open>Page tables as a tree\<close>

text \<open>
  The table reached from the table at \<open>t\<close> along a list of indices, and the last-level entry of an
  address (0 where a table is missing).
\<close>

fun table_at :: "pmem \<Rightarrow> nat \<Rightarrow> nat list \<Rightarrow> nat option" where
  "table_at m t [] = Some t"
| "table_at m t (i # p) =
     (let e = load64 m (t + 8 * i)
      in if ISSET e PTE_P then table_at m (unat (e AND PTE_ADDR_MASK)) p else None)"

definition va_path :: "u64 \<Rightarrow> nat list" where
  "va_path v = map (mmu_get_level v) [MMU_L4, MMU_L3, MMU_L2]"

definition pte :: "pmem \<Rightarrow> nat \<Rightarrow> u64 \<Rightarrow> u64" where
  "pte m root v =
     (case table_at m root (va_path v) of None \<Rightarrow> 0 | Some t \<Rightarrow> load64 m (t + 8 * mmu_get_level v MMU_TBL))"

definition path :: "nat list \<Rightarrow> bool" where
  "path p \<longleftrightarrow> length p \<le> 3 \<and> (\<forall>i \<in> set p. i < 512)"

text \<open>
  The invariant of an address space: every table lies in a used frame outside the bitmap, and no frame
  holds two tables.  Physical addresses have 52 bits.  Every present entry above the last level is a table, as
  \<^verbatim>\<open>mmu_read_level\<close> takes it to be, so an address space with the invariant has no large pages.
\<close>

definition pt_inv :: "'a seg_scheme \<Rightarrow> nat \<Rightarrow> bool" where
  "pt_inv s root \<longleftrightarrow>
     seg_inv s \<and> highest_frame_idx s \<le> 2 ^ 40 \<and>
     (\<forall>p t. path p \<and> table_at (mem s) root p = Some t \<longrightarrow>
        4096 dvd t \<and> \<not> frame_free s (t div 4096) \<and> (\<forall>x. x div 4096 = t div 4096 \<longrightarrow> \<not> seg_priv s x)) \<and>
     (\<forall>p q t. path p \<and> path q \<and> table_at (mem s) root p = Some t \<and> table_at (mem s) root q = Some t \<longrightarrow> p = q)"

definition tables :: "'a seg_scheme \<Rightarrow> nat \<Rightarrow> nat set" where
  "tables s root = {t div 4096 | p t. path p \<and> table_at (mem s) root p = Some t}"

lemma get_level_bound: "mmu_get_level v l < 512"
proof -
  have m: "(0x1FF :: u64) = mask 9" by (simp add: mask_eq_exp_minus_1)
  have "unat (w AND mask 9 :: u64) < 512" for w
    by (simp add: and_mask_less' word_less_nat_alt [symmetric] take_bit_eq_mask [symmetric] unsigned_take_bit_eq)
      (simp add: take_bit_eq_mod)
  then show ?thesis by (cases l) (simp_all only: mmu_get_level.simps m)
qed

lemma path_va_path: "path (va_path v)"
  by (simp add: path_def va_path_def get_level_bound)

lemma table_at_snoc:
  "table_at m t (p @ [i]) =
     (case table_at m t p of None \<Rightarrow> None
      | Some u \<Rightarrow> (let e = load64 m (u + 8 * i) in if ISSET e PTE_P then Some (unat (e AND PTE_ADDR_MASK)) else None))"
  by (induction p arbitrary: t) (simp_all add: Let_def)

lemma path_snoc: "path (p @ [i]) \<longleftrightarrow> path p \<and> length p \<le> 2 \<and> i < 512"
  by (auto simp: path_def)

lemma slot_page: "4096 dvd t \<Longrightarrow> i < 512 \<Longrightarrow> k < 8 \<Longrightarrow> (t + 8 * i + k) div 4096 = t div (4096 :: nat)"
  by (auto elim!: dvdE)

lemma slots_apart:
  assumes "4096 dvd t" and "4096 dvd u" and "i < 512" and "j < 512" and "(t :: nat) \<noteq> u \<or> i \<noteq> j"
  shows "u + 8 * j + 8 \<le> t + 8 * i \<or> t + 8 * i + 8 \<le> u + 8 * j"
proof (cases "t = u")
  case True
  with assms(5) show ?thesis by auto
next
  case False
  obtain a b where "t = 4096 * a" "u = 4096 * b" using assms(1,2) by (auto elim!: dvdE)
  moreover from this False have "a + 1 \<le> b \<or> b + 1 \<le> a" by auto
  ultimately show ?thesis using assms(3,4) by auto
qed

section \<open>One step of the descent\<close>

lemma pt_inv_table:
  assumes "pt_inv s root" and "path p" and "table_at (mem s) root p = Some t"
  shows "4096 dvd t" "\<not> frame_free s (t div 4096)" "x div 4096 = t div 4096 \<Longrightarrow> \<not> seg_priv s x"
  using assms by (auto simp: pt_inv_def)

lemma pt_inv_unique:
  assumes "pt_inv s root" and "path p" and "path q"
    and "table_at (mem s) root p = Some t" and "table_at (mem s) root q = Some t"
  shows "p = q"
  using assms unfolding pt_inv_def by blast

lemma PTE_ADDR_MASK_eq: "PTE_ADDR_MASK = push_bit 12 (mask 40)"
  by (simp add: PTE_ADDR_MASK_def mask_eq_exp_minus_1)

lemma page_word: "of_nat (4096 * k) = (push_bit 12 (of_nat k) :: u64)"
  by (simp add: push_bit_eq_mult mult.commute)

lemma new_entry:
  assumes "k < 2 ^ 40"
  defines "e \<equiv> of_nat (4096 * k) OR PTE_P OR PTE_RW OR PTE_US :: u64"
  shows "ISSET e PTE_P" "unat (e AND PTE_ADDR_MASK) = 4096 * k"
proof -
  have b: "bit e 0" by (simp add: e_def page_word PTE_P_def PTE_RW_def PTE_US_def bit_simps)
  have "bit (e AND PTE_P) 0" using b by (simp add: PTE_P_def bit_simps)
  then show "ISSET e PTE_P" by auto
  have tk: "bit (of_nat k :: u64) n \<Longrightarrow> n < 40" for n
  proof -
    assume a: "bit (of_nat k :: u64) n"
    have "bit (take_bit 40 (of_nat k) :: u64) n"
    proof -
      have "take_bit 40 (of_nat k) = (of_nat k :: u64)"
        using assms(1) by (simp add: take_bit_of_nat take_bit_nat_eq_self)
      then show ?thesis using a by simp
    qed
    then show "n < 40" by (simp add: bit_simps)
  qed
  have f: "PTE_P OR (PTE_RW OR PTE_US) = mask 3"
    by (simp add: PTE_P_def PTE_RW_def PTE_US_def mask_eq_exp_minus_1)
  have "e AND PTE_ADDR_MASK = of_nat (4096 * k)"
  proof (rule bit_word_eqI)
    fix n assume "n < LENGTH(64)"
    then show "bit (e AND PTE_ADDR_MASK) n \<longleftrightarrow> bit (of_nat (4096 * k) :: u64) n"
      unfolding e_def or.assoc f page_word PTE_ADDR_MASK_eq using tk [of "n - 12"]
      by (auto simp: bit_simps)
  qed
  moreover have "4096 * k < 2 ^ 64" using assms(1) by simp
  ultimately show "unat (e AND PTE_ADDR_MASK) = 4096 * k" by (simp only: unat_page)
qed

text \<open>What an allocation leaves of the tables, and what the new entry adds.\<close>

lemma alloc_load:
  assumes "pt_inv s root" and "path p" and "table_at (mem s) root p = Some t" and "i < 512"
    and "vm_alloc_frame 1 s = Ret (f, s1)"
  shows "load64 (mem s1) (t + 8 * i) = load64 (mem s) (t + 8 * i)"
proof (rule load64_cong)
  fix k :: nat assume "k < 8"
  note tb = pt_inv_table [OF assms(1-3)]
  have pg: "(t + 8 * i + k) div 4096 = t div 4096" by (rule slot_page [OF tb(1) assms(4) \<open>k < 8\<close>])
  have "seg_inv s" using assms(1) by (simp add: pt_inv_def)
  then show "mem s1 (t + 8 * i + k) = mem s (t + 8 * i + k)"
    using tb pg by (intro kframes.used_kept [OF _ assms(5)]) simp_all
qed

lemma new_table_at:
  assumes inv: "pt_inv s root" and p: "path p" "length p \<le> 2" "table_at (mem s) root p = Some cur"
    and i: "i < 512" and absent: "\<not> ISSET (load64 (mem s) (cur + 8 * i)) PTE_P"
    and al: "vm_alloc_frame 1 s = Ret (f, s1)"
  defines "m2 \<equiv> store64 (mem s1) (cur + 8 * i) (of_nat f OR PTE_P OR PTE_RW OR PTE_US)"
  assumes q: "path q"
  shows "table_at m2 root q =
    (if prefix (p @ [i]) q then if q = p @ [i] then Some f else None else table_at (mem s) root q)"
  using q
proof (induction q rule: rev_induct)
  case (snoc j q)
  have sinv: "seg_inv s" using inv by (simp add: pt_inv_def)
  obtain k where k: "f = 4096 * k" "frame_free s k" using kframes.alloc_addr [OF sinv al] by blast
  have "k < 2 ^ 40" using frame_free_hi [OF k(2)] inv by (simp add: pt_inv_def)
  note ne = new_entry [OF this, folded k(1)]
  have q: "path q" "length q \<le> 2" "j < 512" using snoc.prems by (simp_all add: path_snoc)
  note cur = pt_inv_table [OF inv p(1,3)]
  have fdv: "4096 dvd f" by (simp add: k(1))
  have fcur: "f \<noteq> cur" using cur(2) k by auto
  have other: "load64 m2 (t + 8 * j) = load64 (mem s) (t + 8 * j)"
    if "table_at (mem s) root q = Some t" "t \<noteq> cur \<or> j \<noteq> i" for t
  proof -
    have "load64 m2 (t + 8 * j) = load64 (mem s1) (t + 8 * j)"
      unfolding m2_def using slots_apart [OF cur(1) pt_inv_table(1) [OF inv q(1) that(1)] i q(3)] that(2)
      by (intro load64_store64_other) auto
    then show ?thesis using alloc_load [OF inv q(1) that(1) q(3) al] by simp
  qed
  have zero: "load64 m2 (f + 8 * j) = 0"
  proof -
    have "load64 m2 (f + 8 * j) = load64 (mem s1) (f + 8 * j)"
      unfolding m2_def using slots_apart [OF cur(1) fdv i q(3)] fcur by (intro load64_store64_other) auto
    also have "\<dots> = 0"
      using slot_page [OF fdv q(3)] by (intro load64_zero kframes.alloc_zero [OF sinv al]) simp
    finally show ?thesis .
  qed
  show ?case
  proof (cases "prefix (p @ [i]) q")
    case True
    then have pq: "prefix (p @ [i]) (q @ [j])" "q @ [j] \<noteq> p @ [i]" by (auto simp: prefix_def)
    have "table_at m2 root (q @ [j]) = None"
      using snoc.IH [OF q(1)] True zero by (simp add: table_at_snoc Let_def)
    then show ?thesis using pq by simp
  next
    case False
    then have same: "table_at m2 root q = table_at (mem s) root q" using snoc.IH [OF q(1)] by simp
    have pre: "prefix (p @ [i]) (q @ [j]) \<longleftrightarrow> q @ [j] = p @ [i]"
      using False by (auto simp: prefix_snoc)
    show ?thesis
    proof (cases "q @ [j] = p @ [i]")
      case True
      then have "q = p" "j = i" by simp_all
      moreover have "load64 m2 (cur + 8 * i) = of_nat f OR PTE_P OR PTE_RW OR PTE_US" by (simp add: m2_def)
      ultimately show ?thesis using same p(3) ne by (simp add: table_at_snoc Let_def)
    next
      case ne': False
      show ?thesis
      proof (cases "table_at (mem s) root q")
        case None
        then show ?thesis using pre ne' same by (simp add: table_at_snoc)
      next
        case (Some t)
        have "t \<noteq> cur \<or> j \<noteq> i" using pt_inv_unique [OF inv q(1) p(1)] Some p(3) ne' by auto
        from other [OF Some this] show ?thesis using pre ne' same Some by (auto simp: table_at_snoc)
      qed
    qed
  qed
qed (simp add: prefix_def)

lemma pt_inv_same:
  assumes "mem s' = mem s" "bitmap s' = bitmap s" "bitmap_size s' = bitmap_size s"
    "highest_frame_idx s' = highest_frame_idx s" "pages_free s' = pages_free s"
  shows "seg_inv s' = seg_inv s" "frame_free s' = frame_free s" "seg_priv s' = seg_priv s"
    "pt_inv s' root = pt_inv s root" "tables s' root = tables s root"
proof -
  show f: "frame_free s' = frame_free s" and v: "seg_priv s' = seg_priv s"
    unfolding frame_free_def seg_priv_def fun_eq_iff assms by simp_all
  show i: "seg_inv s' = seg_inv s" unfolding seg_inv_def f assms ..
  show "pt_inv s' root = pt_inv s root" unfolding pt_inv_def i f v assms ..
  show "tables s' root = tables s root" unfolding tables_def assms ..
qed

text \<open>
  \<open>grows s s' root\<close>: from \<open>s\<close> to \<open>s'\<close> only empty tables have been added to the address space.
\<close>

definition grows :: "'a seg_scheme \<Rightarrow> 'a seg_scheme \<Rightarrow> nat \<Rightarrow> bool" where
  "grows s s' root \<longleftrightarrow>
     pt_inv s' root \<and> (\<forall>v. pte (mem s') root v = pte (mem s) root v) \<and> seg_priv s' = seg_priv s \<and>
     (\<forall>i. frame_free s' i \<longrightarrow> frame_free s i) \<and>
     (\<forall>i. i \<in> tables s' root \<longrightarrow> i \<in> tables s root \<or> frame_free s i) \<and>
     (\<forall>x. \<not> frame_free s (x div 4096) \<and> \<not> seg_priv s x \<and> x div 4096 \<notin> tables s root \<longrightarrow> mem s' x = mem s x)"

lemma grows_refl: "pt_inv s root \<Longrightarrow> grows s s root"
  by (simp add: grows_def)

lemma grows_trans: "grows s s1 root \<Longrightarrow> grows s1 s2 root \<Longrightarrow> grows s s2 root"
  unfolding grows_def by metis

lemma new_table_grows:
  assumes inv: "pt_inv s root" and p: "path p" "length p \<le> 2" "table_at (mem s) root p = Some cur"
    and i: "i < 512" and absent: "\<not> ISSET (load64 (mem s) (cur + 8 * i)) PTE_P"
    and al: "vm_alloc_frame 1 s = Ret (f, s1)"
  defines "s2 \<equiv> s1\<lparr>mem := store64 (mem s1) (cur + 8 * i) (of_nat f OR PTE_P OR PTE_RW OR PTE_US)\<rparr>"
  shows "grows s s2 root" "table_at (mem s2) root (p @ [i]) = Some f" "frame_free s2 = frame_free s1"
proof -
  have sinv: "seg_inv s" using inv by (simp add: pt_inv_def)
  note cur = pt_inv_table [OF inv p(1,3)]
  note T = new_table_at [OF inv p i absent al]
  have T2: "table_at (mem s2) root q = (if prefix (p @ [i]) q then if q = p @ [i] then Some f else None
      else table_at (mem s) root q)" if "path q" for q using T [OF that] by (simp add: s2_def)
  have path: "path (p @ [i])" using p i by (simp add: path_snoc)
  show "table_at (mem s2) root (p @ [i]) = Some f" using T2 [OF path] by simp
  have slot: "(cur + 8 * i + k) div 4096 = cur div 4096" if "k < 8" for k by (rule slot_page [OF cur(1) i that])
  have st: "mem s2 x = mem s1 x" if "x div 4096 \<noteq> cur div 4096" for x
  proof -
    have "x < cur + 8 * i \<or> cur + 8 * i + 8 \<le> x"
    proof (rule ccontr)
      assume "\<not> ?thesis"
      then have "x = cur + 8 * i + (x - (cur + 8 * i))" "x - (cur + 8 * i) < 8" by auto
      with slot that show False by metis
    qed
    then show ?thesis by (simp add: s2_def store64_other)
  qed
  have priv1: "seg_priv s1 = seg_priv s" by (rule kframes.alloc_priv [OF sinv al])
  have "\<not> seg_priv s1 x" if "x div 4096 = cur div 4096" for x using cur(3) that by (simp add: priv1)
  then have "seg_inv (put_mem (mem s2) s1) \<and> frame_free (put_mem (mem s2) s1) = frame_free s1 \<and>
      seg_priv (put_mem (mem s2) s1) = seg_priv s1"
    using st by (intro seg_inv_put kframes.alloc_keeps_inv [OF sinv al]) blast
  moreover have "put_mem (mem s2) s1 = s2" by (simp add: put_mem_def s2_def)
  ultimately have i2: "seg_inv s2" "frame_free s2 = frame_free s1" "seg_priv s2 = seg_priv s"
    by (simp_all add: priv1)
  have fr: "frame_free s2 j \<longleftrightarrow> frame_free s j \<and> j \<noteq> f div 4096" for j
    unfolding i2(2) by (rule kframes.alloc_free [OF sinv al])
  obtain k where k: "f = 4096 * k" "frame_free s k" using kframes.alloc_addr [OF sinv al] by blast
  have fp: "\<not> seg_priv s x" if "x div 4096 = f div 4096" for x
    using kframes.fresh_not_priv [OF sinv al that] by (simp add: priv1)
  have tb: "4096 dvd t \<and> \<not> frame_free s2 (t div 4096) \<and> (\<forall>x. x div 4096 = t div 4096 \<longrightarrow> \<not> seg_priv s2 x)"
    if "path q" "table_at (mem s2) root q = Some t" for q t
  proof (cases "prefix (p @ [i]) q")
    case True
    with that T2 have "t = f" by (auto split: if_splits)
    then show ?thesis using fp by (simp add: fr k i2(3))
  next
    case False
    with that T2 have "table_at (mem s) root q = Some t" by simp
    from pt_inv_table [OF inv that(1) this] show ?thesis by (simp add: fr i2(3))
  qed
  have used: "t \<noteq> f" if "path q" "table_at (mem s) root q = Some t" for q t
    using pt_inv_table(2) [OF inv that] k by auto
  have uq: "q = r" if "path q" "path r" "table_at (mem s2) root q = Some t" "table_at (mem s2) root r = Some t" for q r t
    using that T2 [OF that(1)] T2 [OF that(2)] used pt_inv_unique [OF inv that(1,2)] by (auto split: if_splits)
  have hi: "highest_frame_idx s2 \<le> 2 ^ 40"
  proof -
    from alloc_one [OF sinv al] obtain bm k where "s1 = counted 1 (take_frames bm k 1 s)" by blast
    then have "highest_frame_idx s2 = highest_frame_idx s" by (simp add: s2_def counted_def take_frames_def)
    then show ?thesis using inv by (simp add: pt_inv_def)
  qed
  have inv2: "pt_inv s2 root" unfolding pt_inv_def using i2(1) hi tb uq by blast
  have pte: "pte (mem s2) root v = pte (mem s) root v" for v
  proof (cases "prefix (p @ [i]) (va_path v)")
    case True
    let ?j = "mmu_get_level v MMU_TBL"
    have "table_at (mem s) root (va_path v) = None"
    proof -
      have "table_at (mem s) root (p @ [i]) = None" using p(3) absent by (simp add: table_at_snoc)
      moreover obtain r where "va_path v = (p @ [i]) @ r" using True by (auto simp: prefix_def)
      moreover have "table_at m t (a @ b) = None" if "table_at m t a = None" for m t a b
        using that by (induction a arbitrary: t) (simp_all add: Let_def split: if_splits)
      ultimately show ?thesis by metis
    qed
    moreover have "load64 (mem s2) (f + 8 * ?j) = 0"
    proof (rule load64_zero)
      fix k' :: nat assume "k' < 8"
      have pg: "(f + 8 * ?j + k') div 4096 = f div 4096"
        by (rule slot_page [OF _ get_level_bound \<open>k' < 8\<close>]) (simp add: k)
      have "f div 4096 \<noteq> cur div 4096" using cur(2) k by auto
      then show "mem s2 (f + 8 * ?j + k') = 0"
        using st [of "f + 8 * ?j + k'"] pg kframes.alloc_zero [OF sinv al pg] by simp
    qed
    ultimately show ?thesis using T2 [OF path_va_path, of v] True by (simp add: pte_def)
  next
    case False
    then have same: "table_at (mem s2) root (va_path v) = table_at (mem s) root (va_path v)"
      using T2 [OF path_va_path, of v] by simp
    show ?thesis
    proof (cases "table_at (mem s) root (va_path v)")
      case (Some t)
      let ?j = "mmu_get_level v MMU_TBL"
      have "t \<noteq> cur"
        using pt_inv_unique [OF inv path_va_path p(1) Some] p(2,3) by (auto simp: va_path_def)
      then have "load64 (mem s2) (t + 8 * ?j) = load64 (mem s1) (t + 8 * ?j)"
        unfolding s2_def using slots_apart [OF cur(1) pt_inv_table(1) [OF inv path_va_path Some] i get_level_bound]
        by (auto intro!: load64_store64_other)
      then show ?thesis
        using alloc_load [OF inv path_va_path Some get_level_bound al] same Some by (simp add: pte_def)
    qed (simp add: pte_def same)
  qed
  have tabs: "j \<in> tables s root \<or> frame_free s j" if "j \<in> tables s2 root" for j
  proof -
    from that obtain q t where "path q" "table_at (mem s2) root q = Some t" "j = t div 4096" by (auto simp: tables_def)
    with T2 k show ?thesis by (auto simp: tables_def split: if_splits)
  qed
  have curt: "cur div 4096 \<in> tables s root" using p by (auto simp: tables_def)
  have kept: "mem s2 x = mem s x" if "\<not> frame_free s (x div 4096)" "\<not> seg_priv s x" "x div 4096 \<notin> tables s root" for x
    using st [of x] curt that kframes.used_kept [OF sinv al that(1,2)] by metis
  show "frame_free s2 = frame_free s1" by (rule i2(2))
  from kept show "grows s s2 root" unfolding grows_def using inv2 pte i2(3) fr tabs by blast
qed

section \<open>Mapping a page\<close>

lemma invlpg_fields [simp]:
  "mem (invlpg v s) = mem s" "bitmap (invlpg v s) = bitmap s" "bitmap_size (invlpg v s) = bitmap_size s"
  "highest_frame_idx (invlpg v s) = highest_frame_idx s" "pages_free (invlpg v s) = pages_free s"
  "cr4 (invlpg v s) = cr4 s"
  by (simp_all add: invlpg_def)

lemma grows_invlpg: "grows s (invlpg v s') root = grows s s' root"
  using pt_inv_same [of "invlpg v s'" s'] by (simp add: grows_def)

definition idx_of :: "u64 \<Rightarrow> pglvl \<Rightarrow> nat list" where
  "idx_of v l = take (4 - pglvl_num l) (va_path v)"

lemma idx_of_dec:
  assumes "l \<in> {MMU_L4, MMU_L3, MMU_L2}"
  shows "idx_of v (pglvl_dec l) = idx_of v l @ [mmu_get_level v l]" "path (idx_of v l)" "length (idx_of v l) \<le> 2"
    "pglvl_num MMU_TBL < pglvl_num l" "pglvl_dec l \<in> {MMU_L3, MMU_L2, MMU_TBL}"
  using assms get_level_bound
  by (auto simp: idx_of_def va_path_def path_def)

lemma alloc_panic:
  assumes "seg_inv s" and "vm_alloc_frame 1 s = Panic"
  shows "card {i. frame_free s i} = 0"
proof -
  obtain bm where bm: "bitmap s = Some bm" using assms(1) by (auto simp: seg_inv_def split: option.splits)
  have "\<not> free_run s k 1" for k
    by (cases rule: vm_alloc_frame_cases [OF assms(1) bm zero_less_one, case_names found none]) (use assms(2) in simp_all)
  then have "\<not> frame_free s k" for k by (auto simp: free_run_def less_Suc_eq_le dest: le_antisym)
  then show ?thesis by simp
qed

lemma alloc_card:
  assumes "seg_inv s" and "vm_alloc_frame 1 s = Ret (f, s1)"
  shows "card {i. frame_free s i} = Suc (card {i. frame_free s1 i})"
proof -
  obtain k where k: "f = 4096 * k" "frame_free s k" using kframes.alloc_addr [OF assms] by blast
  have "{i. frame_free s i} = insert k {i. frame_free s1 i}" "k \<notin> {i. frame_free s1 i}"
    using k kframes.alloc_free [OF assms] by auto
  then show ?thesis by (metis card_insert_disjoint finite_free)
qed

lemma alloc_cr4:
  assumes "seg_inv s" and "vm_alloc_frame 1 s = Ret (f, s1)"
  shows "cr4 s1 = cr4 s"
proof -
  from alloc_one [OF assms] obtain bm k where "s1 = counted 1 (take_frames bm k 1 s)" by blast
  then show ?thesis by (simp add: counted_def take_frames_def)
qed

lemma read_level_ok:
  assumes "pt_inv s root" and "table_at (mem s) root (idx_of v l) = Some cur" and "l \<in> {MMU_L4, MMU_L3, MMU_L2, MMU_TBL}"
  shows "read_level_loop v MMU_TBL True cur l s = Panic \<and> card {i. frame_free s i} < pglvl_num l - 1 \<or>
    (\<exists>t s'. read_level_loop v MMU_TBL True cur l s = Ret (Inr t, s') \<and> grows s s' root \<and>
       table_at (mem s') root (va_path v) = Some t \<and> cr4 s' = cr4 s \<and>
       card {i. frame_free s i} \<le> card {i. frame_free s' i} + (pglvl_num l - 1))"
  using assms
proof (induction "pglvl_num l" arbitrary: l cur s rule: less_induct)
  case less
  show ?case
  proof (cases "l = MMU_TBL")
    case True
    with less.prems show ?thesis
      by (subst (1 2) read_level_loop.simps) (simp add: grows_refl idx_of_def va_path_def)
  next
    case False
    then have l: "l \<in> {MMU_L4, MMU_L3, MMU_L2}" using less.prems(3) by simp
    note d = idx_of_dec [OF l]
    have nd: "pglvl_num l - 1 = Suc (pglvl_num (pglvl_dec l) - 1)" using l by auto
    have dec: "pglvl_num (pglvl_dec l) < pglvl_num l" "pglvl_dec l \<in> {MMU_L4, MMU_L3, MMU_L2, MMU_TBL}"
      using l by auto
    let ?i = "mmu_get_level v l"
    let ?slot = "cur + 8 * ?i"
    show ?thesis
    proof (cases "ISSET (load64 (mem s) ?slot) PTE_P")
      case True
      let ?t = "unat (load64 (mem s) ?slot AND PTE_ADDR_MASK)"
      have "read_level_loop v MMU_TBL True cur l s = read_level_loop v MMU_TBL True ?t (pglvl_dec l) s"
        using True d(4) by (subst read_level_loop.simps) (simp add: Let_def)
      moreover have "table_at (mem s) root (idx_of v (pglvl_dec l)) = Some ?t"
        using less.prems(2) True by (simp add: d(1) table_at_snoc Let_def)
      ultimately show ?thesis
        using less.hyps [OF dec(1) less.prems(1) _ dec(2), of ?t] nd by (force intro: le_trans)
    next
      case absent: False
      have sinv: "seg_inv s" using less.prems(1) by (simp add: pt_inv_def)
      show ?thesis
      proof (cases "vm_alloc_frame 1 s")
        case Fault
        with kframes.alloc_no_fault [OF sinv] show ?thesis by simp
      next
        case Panic
        have "card {i. frame_free s i} < pglvl_num l - 1"
          unfolding nd alloc_panic [OF sinv Panic] by simp
        moreover have "read_level_loop v MMU_TBL True cur l s = Panic"
          using Panic absent d(4) by (subst read_level_loop.simps) (simp add: Let_def)
        ultimately show ?thesis by blast
      next
        case (Ret r)
        obtain f s1 where r: "r = (f, s1)" by (cases r)
        note al = Ret [unfolded r]
        define s2 where "s2 = s1\<lparr>mem := store64 (mem s1) ?slot (of_nat f OR PTE_P OR PTE_RW OR PTE_US)\<rparr>"
        have f0: "f \<noteq> 0" using kframes.alloc_addr [OF sinv al] by auto
        note g = new_table_grows [OF less.prems(1) d(2,3) less.prems(2) get_level_bound absent al, folded s2_def]
        have i3: "frame_free (invlpg x s2) = frame_free s1" for x
          using g(3) pt_inv_same(2) [of "invlpg x s2" s2] by simp
        define s3 where "s3 = invlpg (of_nat f + hhdm s2) s2"
        have g3: "grows s s3 root" using g(1) by (simp add: s3_def grows_invlpg)
        have eq: "read_level_loop v MMU_TBL True cur l s = read_level_loop v MMU_TBL True f (pglvl_dec l) s3"
          using absent d(4) al f0 by (subst read_level_loop.simps) (simp add: Let_def s3_def s2_def)
        have "pt_inv s3 root" using g3 by (simp add: grows_def)
        moreover have "table_at (mem s3) root (idx_of v (pglvl_dec l)) = Some f" using g(2) by (simp add: d(1) s3_def)
        moreover have "card {i. frame_free s i} = Suc (card {i. frame_free s3 i})"
        proof -
          have "frame_free s3 = frame_free s1" unfolding s3_def by (rule i3)
          then show ?thesis using alloc_card [OF sinv al] by simp
        qed
        moreover have "cr4 s3 = cr4 s"
          using alloc_cr4 [OF sinv al] by (simp add: s3_def s2_def)
        ultimately show ?thesis
          using less.hyps [OF dec(1) _ _ dec(2), of s3 f] grows_trans [OF g3] eq nd by auto
      qed
    qed
  qed
qed

text \<open>A store to a last-level entry.\<close>

lemma leaf_store:
  fixes e :: u64
  assumes inv: "pt_inv s root" and t: "table_at (mem s) root (va_path v) = Some t"
  defines "s' \<equiv> s\<lparr>mem := store64 (mem s) (t + 8 * mmu_get_level v MMU_TBL) e\<rparr>"
  shows "pt_inv s' root" "pte (mem s') root v = e" "tables s' root = tables s root"
    "frame_free s' = frame_free s" "seg_priv s' = seg_priv s"
    "va_path w \<noteq> va_path v \<or> mmu_get_level w MMU_TBL \<noteq> mmu_get_level v MMU_TBL \<Longrightarrow>
       pte (mem s') root w = pte (mem s) root w"
    "x div 4096 \<noteq> t div 4096 \<Longrightarrow> mem s' x = mem s x"
proof -
  let ?j = "mmu_get_level v MMU_TBL"
  note tb = pt_inv_table [OF inv path_va_path t]
  have out: "mem s' x = mem s x" if "x div 4096 \<noteq> t div 4096" for x
  proof -
    have "x < t + 8 * ?j \<or> t + 8 * ?j + 8 \<le> x"
    proof (rule ccontr)
      assume "\<not> ?thesis"
      then have "x = t + 8 * ?j + (x - (t + 8 * ?j))" "x - (t + 8 * ?j) < 8" by auto
      with slot_page [OF tb(1) get_level_bound] that show False by metis
    qed
    then show ?thesis by (simp add: s'_def store64_other)
  qed
  then show "x div 4096 \<noteq> t div 4096 \<Longrightarrow> mem s' x = mem s x" .
  have sinv: "seg_inv s" using inv by (simp add: pt_inv_def)
  have "seg_inv (put_mem (mem s') s) \<and> frame_free (put_mem (mem s') s) = frame_free s \<and>
      seg_priv (put_mem (mem s') s) = seg_priv s"
    using out tb(3) by (intro seg_inv_put sinv) blast
  moreover have "put_mem (mem s') s = s'" by (simp add: put_mem_def s'_def)
  ultimately have i: "seg_inv s'" and ff: "frame_free s' = frame_free s" and pv: "seg_priv s' = seg_priv s" by simp_all
  show "frame_free s' = frame_free s" "seg_priv s' = seg_priv s" by (fact ff pv)+
  have ta: "table_at (mem s') root q = table_at (mem s) root q" if "path q" for q
    using that
  proof (induction q rule: rev_induct)
    case (snoc k q)
    have q: "path q" "length q \<le> 2" "k < 512" using snoc.prems by (simp_all add: path_snoc)
    show ?case
    proof (cases "table_at (mem s) root q")
      case (Some u)
      have "u \<noteq> t" using pt_inv_unique [OF inv q(1) path_va_path Some] t q(2)
        by (auto simp: va_path_def)
      then have "load64 (mem s') (u + 8 * k) = load64 (mem s) (u + 8 * k)"
        unfolding s'_def using slots_apart [OF tb(1) pt_inv_table(1) [OF inv q(1) Some] get_level_bound q(3)]
        by (auto intro!: load64_store64_other)
      then show ?thesis using snoc.IH [OF q(1)] Some by (simp add: table_at_snoc)
    qed (use snoc.IH [OF q(1)] in \<open>simp add: table_at_snoc\<close>)
  qed simp
  have "highest_frame_idx s' = highest_frame_idx s" by (simp add: s'_def)
  then show "pt_inv s' root" using inv i ta by (simp add: pt_inv_def ff pv cong: conj_cong)
  show "tables s' root = tables s root"
    unfolding tables_def using ta by (intro Collect_cong) metis
  show "pte (mem s') root v = e"
    using ta [OF path_va_path, of v] t by (simp add: pte_def s'_def)
  show "pte (mem s') root w = pte (mem s) root w"
    if ne: "va_path w \<noteq> va_path v \<or> mmu_get_level w MMU_TBL \<noteq> mmu_get_level v MMU_TBL"
  proof (cases "table_at (mem s) root (va_path w)")
    case (Some u)
    have "u \<noteq> t \<or> mmu_get_level w MMU_TBL \<noteq> ?j"
      using pt_inv_unique [OF inv path_va_path path_va_path Some, of v] t ne by blast
    then have "load64 (mem s') (u + 8 * mmu_get_level w MMU_TBL) = load64 (mem s) (u + 8 * mmu_get_level w MMU_TBL)"
      unfolding s'_def
      using slots_apart [OF tb(1) pt_inv_table(1) [OF inv path_va_path Some] get_level_bound [of v MMU_TBL]
          get_level_bound [of w MMU_TBL]]
      by (auto intro!: load64_store64_other)
    then show ?thesis using ta [OF path_va_path, of w] Some by (simp add: pte_def)
  qed (use ta [OF path_va_path, of w] in \<open>simp add: pte_def\<close>)
qed

lemma and_mask_unat_12: "unat (v AND 0xFFF :: u64) = unat v mod 4096"
proof -
  have "(0xFFF :: u64) = mask 12" by (simp add: mask_eq_exp_minus_1)
  then show ?thesis by (simp only: take_bit_eq_mask [symmetric] unsigned_take_bit_eq) (simp add: take_bit_eq_mod)
qed

text \<open>The page number of an address in a 48-bit address space.\<close>

definition page_no :: "u64 \<Rightarrow> u64" where
  "page_no v = take_bit 36 (drop_bit 12 v)"

lemma level_bits:
  fixes a b :: u64
  assumes "unat (drop_bit k a AND 0x1FF) = unat (drop_bit k b AND 0x1FF :: u64)" and "n < 9"
  shows "bit a (k + n) = bit (b :: u64) (k + n)"
proof -
  have m: "(0x1FF :: u64) = mask 9" by (simp add: mask_eq_exp_minus_1)
  have "drop_bit k a AND mask 9 = drop_bit k b AND (mask 9 :: u64)"
    using assms(1) unfolding m by (simp only: word_unat_eq_iff)
  then have "bit (drop_bit k a AND mask 9) n = bit (drop_bit k b AND (mask 9 :: u64)) n" by simp
  then show ?thesis using assms(2) by (simp add: bit_simps)
qed

lemma page_no_indices:
  assumes "va_path w = va_path v" and "mmu_get_level w MMU_TBL = mmu_get_level v MMU_TBL"
  shows "page_no w = page_no v"
proof (rule bit_word_eqI)
  fix n :: nat
  assume "n < LENGTH(64)"
  have l: "mmu_get_level w l = mmu_get_level v l" if "l \<in> {MMU_L4, MMU_L3, MMU_L2, MMU_TBL}" for l
    using that assms by (auto simp: va_path_def)
  note b = level_bits [OF l [of MMU_L4, unfolded mmu_get_level.simps]]
    level_bits [OF l [of MMU_L3, unfolded mmu_get_level.simps]]
    level_bits [OF l [of MMU_L2, unfolded mmu_get_level.simps]]
    level_bits [OF l [of MMU_TBL, unfolded mmu_get_level.simps]]
  have "bit w (n + 12) = bit v (n + 12)" if "n < 36"
  proof -
    consider "n < 9" | "9 \<le> n" "n < 18" | "18 \<le> n" "n < 27" | "27 \<le> n" "n < 36" using \<open>n < 36\<close> by linarith
    then show ?thesis
    proof cases
      case 1
      then show ?thesis using b(4) [of n] by (simp add: add.commute)
    next
      case 2
      then show ?thesis using b(3) [of "n - 9"] by (simp add: add.commute)
    next
      case 3
      then show ?thesis using b(2) [of "n - 18"] by (simp add: add.commute)
    next
      case 4
      then show ?thesis using b(1) [of "n - 27"] by (simp add: add.commute)
    qed
  qed
  then show "bit (page_no w) n = bit (page_no v) n" by (auto simp: page_no_def bit_simps add.commute)
qed

lemma map_single_ok:
  assumes "pt_inv s root" and "root = unat (vas AND PTE_ADDR_MASK)" and "\<not> ISSET (cr4 s) 0x1000"
  shows "mmu_map_single vas spec prot s = Panic \<and> card {i. frame_free s i} < 3 \<or>
    (\<exists>s'. mmu_map_single vas spec prot s = Ret (Inr (), s') \<and> pt_inv s' root \<and> cr4 s' = cr4 s \<and>
       card {i. frame_free s i} \<le> card {i. frame_free s' i} + 3 \<and>
       pte (mem s') root (va spec) = (if prot = 0 then 0 else prot_to_pte prot OR pa spec) \<and>
       (\<forall>w. page_no w \<noteq> page_no (va spec) \<longrightarrow> pte (mem s') root w = pte (mem s) root w) \<and>
       (\<forall>x. \<not> frame_free s (x div 4096) \<and> \<not> seg_priv s x \<and> x div 4096 \<notin> tables s root \<longrightarrow> mem s' x = mem s x) \<and>
       (va spec AND 0xFFF = 0 \<longrightarrow> \<not> tlb s' (va spec)))"
proof -
  have "table_at (mem s) root (idx_of (va spec) MMU_L4) = Some root" by (simp add: idx_of_def)
  from read_level_ok [OF assms(1) this] consider
      (panic) "mmu_read_level vas (va spec) MMU_TBL True s = Panic" "card {i. frame_free s i} < 3"
    | (ok) t s1 where "mmu_read_level vas (va spec) MMU_TBL True s = Ret (Inr t, s1)" "grows s s1 root"
        "table_at (mem s1) root (va_path (va spec)) = Some t" "cr4 s1 = cr4 s"
        "card {i. frame_free s i} \<le> card {i. frame_free s1 i} + 3"
    using assms(2,3) by (auto simp: mmu_read_level_def mmu_pg_level_def)
  then show ?thesis
  proof cases
    case panic
    then show ?thesis by (simp add: mmu_map_single_def)
  next
    case ok
    define e where "e = (if prot = 0 then 0 else prot_to_pte prot OR pa spec)"
    define s2 where "s2 = s1\<lparr>mem := store64 (mem s1) (t + 8 * mmu_get_level (va spec) MMU_TBL) e\<rparr>"
    have r: "mmu_map_single vas spec prot s = Ret (Inr (), invlpg (va spec) s2)"
      by (simp add: mmu_map_single_def ok(1) Let_def s2_def e_def)
    have inv1: "pt_inv s1 root" using ok(2) by (simp add: grows_def)
    note L = leaf_store [OF inv1 ok(3), where e = e, folded s2_def]
    have tt: "t div 4096 \<in> tables s root \<or> frame_free s (t div 4096)"
    proof -
      have "t div 4096 \<in> tables s1 root" using ok(3) path_va_path by (auto simp: tables_def)
      then show ?thesis using ok(2) by (simp add: grows_def)
    qed
    have "mem s2 x = mem s x" if "\<not> frame_free s (x div 4096)" "\<not> seg_priv s x" "x div 4096 \<notin> tables s root" for x
    proof -
      have "mem s2 x = mem s1 x" using L(7) [of x] tt that by metis
      then show ?thesis using ok(2) that by (simp add: grows_def)
    qed
    moreover have "pte (mem s2) root w = pte (mem s) root w" if "page_no w \<noteq> page_no (va spec)" for w
      using L(6) [of w] page_no_indices [of w "va spec"] that ok(2) by (auto simp: grows_def)
    moreover have "\<not> tlb (invlpg (va spec) s2) (va spec)" if al: "va spec AND 0xFFF = 0"
    proof -
      have "ALIGN_UP (va spec) 4096 = va spec"
      proof -
        have "unat (va spec) mod 4096 = 0"
          using al by (metis and_mask_unat_12 unat_0)
        then obtain k where k: "unat (va spec) = 4096 * k" by auto
        have "unat (va spec) < 2 ^ 64" using unsigned_less [of "va spec"] by simp
        then have "4096 * k + 4096 \<le> 2 ^ 64" using k by simp
        from ALIGN_UP_page [OF this] show ?thesis by (simp flip: k)
      qed
      then show ?thesis by (simp add: invlpg_def)
    qed
    moreover have "cr4 (invlpg (va spec) s2) = cr4 s" "frame_free (invlpg (va spec) s2) = frame_free s1"
      using ok(4) L(4) pt_inv_same(2) [of "invlpg (va spec) s2" s2] by (simp_all add: s2_def)
    ultimately show ?thesis
      using r L(1,2) pt_inv_same [of "invlpg (va spec) s2" s2] ok(5) by (auto simp: e_def)
  qed
qed

text \<open>The rights and the frame an entry grants, read off its bits.\<close>

definition grants :: "u64 \<Rightarrow> u32 \<Rightarrow> u64 \<Rightarrow> bool" where
  "grants e prot frame \<longleftrightarrow>
     e AND PTE_ADDR_MASK = frame \<and> (ISSET e PTE_P \<longleftrightarrow> ISSET prot PROT_READ) \<and>
     (ISSET e PTE_RW \<longleftrightarrow> ISSET prot PROT_WRITE) \<and> (ISSET e PTE_US \<longleftrightarrow> ISSET prot PROT_USER) \<and>
     (ISSET e PTE_NX \<longleftrightarrow> \<not> ISSET prot PROT_EXEC)"

lemmas pte_bits = PTE_P_def PTE_RW_def PTE_US_def PTE_NX_def PTE_ADDR_MASK_def

lemma prot_to_pte_grants:
  assumes "frame AND PTE_ADDR_MASK = frame"
  shows "grants (prot_to_pte prot OR frame) prot frame"
proof -
  have z: "frame AND F = 0" if "PTE_ADDR_MASK AND F = 0" for F
    using assms that by (metis and.assoc and_zero_eq)
  have f: "(w OR frame) AND F = w AND F" if "PTE_ADDR_MASK AND F = 0" for w F
    using z [OF that] by (simp add: bit.conj_disj_distrib2)
  have "prot_to_pte prot AND PTE_ADDR_MASK = 0" by (simp add: prot_to_pte_def pte_bits Let_def bit.conj_disj_distrib2)
  then have "(prot_to_pte prot OR frame) AND PTE_ADDR_MASK = frame" using assms by (simp add: bit.conj_disj_distrib2)
  moreover have "ISSET (prot_to_pte prot) PTE_P \<longleftrightarrow> ISSET prot PROT_READ"
    "ISSET (prot_to_pte prot) PTE_RW \<longleftrightarrow> ISSET prot PROT_WRITE"
    "ISSET (prot_to_pte prot) PTE_US \<longleftrightarrow> ISSET prot PROT_USER"
    "ISSET (prot_to_pte prot) PTE_NX \<longleftrightarrow> \<not> ISSET prot PROT_EXEC"
    by (simp_all add: prot_to_pte_def pte_bits Let_def)
  ultimately show ?thesis by (simp add: grants_def f pte_bits)
qed

text \<open>
  C9 (mapping a page).  In an address space with the invariant, mapping one page succeeds when
  three frames are free, and otherwise may panic for want of a frame.  On success the entry of the address is exactly the flags and the physical
  address asked for (0 for no protection), so for a page frame it grants exactly the rights asked for; the entry of every address in another page is unchanged,
  no byte of a used frame that is not a page table of this address space has changed, the invariant
  holds again, and a page-aligned address has no stale cached translation.
\<close>

theorem mmu_map_single_spec:
  assumes "pt_inv s root" and "root = unat (vas AND PTE_ADDR_MASK)" and "\<not> ISSET (cr4 s) 0x1000"
  shows "mmu_map_single vas spec prot s = Panic \<and> card {i. frame_free s i} < 3 \<or>
    (\<exists>s'. mmu_map_single vas spec prot s = Ret (Inr (), s') \<and> pt_inv s' root \<and>
       pte (mem s') root (va spec) = (if prot = 0 then 0 else prot_to_pte prot OR pa spec) \<and>
       (prot \<noteq> 0 \<and> pa spec AND PTE_ADDR_MASK = pa spec \<longrightarrow> grants (pte (mem s') root (va spec)) prot (pa spec)) \<and>
       (\<forall>w. page_no w \<noteq> page_no (va spec) \<longrightarrow> pte (mem s') root w = pte (mem s) root w) \<and>
       (\<forall>x. \<not> frame_free s (x div 4096) \<and> \<not> seg_priv s x \<and> x div 4096 \<notin> tables s root \<longrightarrow> mem s' x = mem s x) \<and>
       (va spec AND 0xFFF = 0 \<longrightarrow> \<not> tlb s' (va spec)))"
  using map_single_ok [OF assms, of spec prot] prot_to_pte_grants [of "pa spec" prot] by auto

definition mmu_demo :: mmu where
  "mmu_demo = \<lparr>pages_free = 4, pages_used = 4, pages_total = 8, highest_frame_idx = 8, bitmap_size = 4096,
     bitmap_free_start = 2, last_idx = 0, bitmap = Some 4096, entries = [], mem = (\<lambda>_. 0)(4096 := 0xC3),
     cr3 = 24576, cr4 = 0, kvas_cr3 = 24576, hhdm = 0xFFFF800000000000, tlb = (\<lambda>_. True)\<rparr>"

lemma mmu_demo_free: "frame_free mmu_demo i \<longleftrightarrow> i \<in> {2, 3, 4, 5}"
proof -
  consider "i = 0" | "i = 1" | "i = 2" | "i = 3" | "i = 4" | "i = 5" | "i = 6" | "i = 7" | "8 \<le> i" by linarith
  then show ?thesis by cases (simp_all add: frame_free_def mmu_demo_def testbit_def)
qed

lemma mmu_demo_fields: "bitmap mmu_demo = Some 4096" "bitmap_size mmu_demo = 4096"
    "highest_frame_idx mmu_demo = 8" "pages_free mmu_demo = 4" "mem mmu_demo = (\<lambda>_. 0)(4096 := 0xC3)"
    "cr4 mmu_demo = 0"
  by (simp_all add: mmu_demo_def)

lemma mmu_demo_inv: "pt_inv mmu_demo 24576"
proof -
  have "Collect (frame_free mmu_demo) = {2, 3, 4, 5}" by (auto simp: mmu_demo_free)
  then have inv: "seg_inv mmu_demo"
    by (auto simp: seg_inv_def mmu_demo_free mmu_demo_fields)
  have ld: "load64 (mem mmu_demo) (24576 + 8 * i) = 0" for i
    by (rule load64_zero) (simp add: mmu_demo_fields)
  have ta: "table_at (mem mmu_demo) 24576 p = (if p = [] then Some 24576 else None)" for p
    by (cases p) (simp_all add: ld)
  show ?thesis
    unfolding pt_inv_def ta using inv
    by (auto simp: mmu_demo_free mmu_demo_fields seg_priv_def split: if_splits)
qed

theorem mmu_map_single_spec_witness:
  "\<exists>s'. mmu_map_single 24576 \<lparr>va = 0x400000, pa = 0x7000\<rparr> PROT_READ mmu_demo = Ret (Inr (), s') \<and>
     pte (mem s') 24576 0x400000 = 0x8000000000007001 \<and> \<not> tlb s' 0x400000"
proof -
  have root: "24576 = unat ((24576 :: u64) AND PTE_ADDR_MASK)" by (simp add: PTE_ADDR_MASK_def)
  have "Collect (frame_free mmu_demo) = {2, 3, 4, 5}" by (auto simp: mmu_demo_free)
  moreover have "prot_to_pte PROT_READ OR 0x7000 = 0x8000000000007001"
    by (simp add: prot_to_pte_def PTE_NX_def PTE_P_def)
  ultimately show ?thesis
    using mmu_map_single_spec [OF mmu_demo_inv root, of "\<lparr>va = 0x400000, pa = 0x7000\<rparr>" PROT_READ]
    by (auto simp: mmu_demo_fields)
qed

section \<open>New address spaces\<close>

lemma copy_half_out:
  assumes "4096 dvd dest" and "\<forall>i \<in> set is. i < 512" and "x div 4096 \<noteq> dest div 4096"
  shows "copy_half m dest src is x = m x"
  using assms(2)
proof (induction "is" arbitrary: m)
  case (Cons i "is")
  have "x < dest + 8 * i \<or> dest + 8 * i + 8 \<le> x"
  proof (rule ccontr)
    assume "\<not> ?thesis"
    then have "x = dest + 8 * i + (x - (dest + 8 * i))" "x - (dest + 8 * i) < 8" by auto
    with slot_page [OF assms(1), of i] Cons.prems assms(3) show False by (metis list.set_intros(1))
  qed
  with Cons show ?case by (simp add: store64_other)
qed simp

lemma copy_half_load:
  assumes "4096 dvd dest" and "4096 dvd src" and "dest \<noteq> src" and "\<forall>i \<in> set is. i < 512" and "j < 512" and "distinct is"
  shows "load64 (copy_half m dest src is) (dest + 8 * j) =
    (if j \<in> set is then if j < 256 then 0 else load64 m (src + 8 * j) else load64 m (dest + 8 * j))"
  using assms(4,6)
proof (induction "is" arbitrary: m)
  case (Cons i "is")
  let ?m = "store64 m (dest + 8 * i) (if i < 256 then 0 else load64 m (src + 8 * i))"
  have i: "i < 512" using Cons.prems(1) by simp
  have "load64 ?m (src + 8 * j) = load64 m (src + 8 * j)"
    using slots_apart [OF assms(1,2) i assms(5)] assms(3) by (intro load64_store64_other) auto
  moreover have "load64 ?m (dest + 8 * j) =
      (if i = j then if i < 256 then 0 else load64 m (src + 8 * i) else load64 m (dest + 8 * j))"
    using slots_apart [OF assms(1,1) i assms(5)] by (auto intro!: load64_store64_other)
  ultimately show ?case using Cons by auto
qed simp

text \<open>A change of the memory that keeps the used frames keeps every address space with the invariant.\<close>

lemma tables_kept:
  assumes "pt_inv s root" and "\<And>x. \<not> frame_free s (x div 4096) \<Longrightarrow> \<not> seg_priv s x \<Longrightarrow> m x = mem s x"
    and "path p" and "table_at (mem s) root p = Some t" and "i < 512"
  shows "load64 m (t + 8 * i) = load64 (mem s) (t + 8 * i)"
proof (rule load64_cong)
  fix k :: nat assume "k < 8"
  from slot_page [OF pt_inv_table(1) [OF assms(1,3,4)] assms(5) this]
  show "m (t + 8 * i + k) = mem s (t + 8 * i + k)"
    using pt_inv_table(2,3) [OF assms(1,3,4)] by (intro assms(2)) simp_all
qed

lemma table_at_kept:
  assumes "pt_inv s root" and "\<And>x. \<not> frame_free s (x div 4096) \<Longrightarrow> \<not> seg_priv s x \<Longrightarrow> m x = mem s x"
  shows "path p \<Longrightarrow> table_at m root p = table_at (mem s) root p"
proof (induction p rule: rev_induct)
  case (snoc i p)
  then have p: "path p" "i < 512" by (simp_all add: path_snoc)
  show ?case
    using snoc.IH [OF p(1)] tables_kept [OF assms p(1) _ p(2)]
    by (cases "table_at (mem s) root p") (simp_all add: table_at_snoc)
qed simp

lemma pte_kept:
  assumes "pt_inv s root" and "\<And>x. \<not> frame_free s (x div 4096) \<Longrightarrow> \<not> seg_priv s x \<Longrightarrow> m x = mem s x"
  shows "pte m root v = pte (mem s) root v"
  using table_at_kept [OF assms path_va_path, of v] tables_kept [OF assms path_va_path, of v]
  by (cases "table_at (mem s) root (va_path v)") (simp_all add: pte_def get_level_bound)

text \<open>A table with the upper half of another one and an empty lower half translates like it above, and not below.\<close>

lemma pte_half:
  assumes "\<And>i. i < 512 \<Longrightarrow> load64 m (f + 8 * i) = (if i < 256 then 0 else load64 m (src + 8 * i))"
  shows "pte m f v = (if mmu_get_level v MMU_L4 < 256 then 0 else pte m src v)"
  using assms [OF get_level_bound, of v MMU_L4] by (simp add: pte_def va_path_def)

text \<open>
  C27 (new address spaces).  When the table of the kernel's address space that \<^verbatim>\<open>mmu_init\<close> has saved lies in a used
  frame outside the bitmap, \<^verbatim>\<open>mmu_new_vas\<close> returns a new table, in a frame that was free, that has the 256 upper
  entries of the kernel's table and is empty in its lower half; no byte of a used frame outside the bitmap changes,
  and the invariant of the allocator still holds.  So an address in the upper half has the same last-level
  entry as in the kernel's address space and an address in the lower half has none, and the last-level entries of
  every address space with the invariant, among them the current one, stay as they were.  It panics only when no
  frame is free.
\<close>

theorem mmu_new_vas_spec:
  assumes "seg_inv s" and "src = unat (kvas_cr3 s AND PTE_ADDR_MASK)" and "4096 dvd src"
    and "\<not> frame_free s (src div 4096)" and "\<And>x. x div 4096 = src div 4096 \<Longrightarrow> \<not> seg_priv s x"
  shows "mmu_new_vas s = Panic \<and> (\<forall>i. \<not> frame_free s i) \<or>
    (\<exists>f s'. mmu_new_vas s = Ret (Inr (of_nat f), s') \<and> frame_free s (f div 4096) \<and> \<not> frame_free s' (f div 4096) \<and>
       seg_inv s' \<and>
       (\<forall>i < 512. load64 (mem s') (f + 8 * i) = (if i < 256 then 0 else load64 (mem s) (src + 8 * i)) \<and>
                  load64 (mem s') (src + 8 * i) = load64 (mem s) (src + 8 * i)) \<and>
       (\<forall>x. \<not> frame_free s (x div 4096) \<and> \<not> seg_priv s x \<longrightarrow> mem s' x = mem s x) \<and>
       (\<forall>root v. pt_inv s root \<longrightarrow> pte (mem s') root v = pte (mem s) root v) \<and>
       (pt_inv s src \<longrightarrow> (\<forall>v. pte (mem s') f v = (if mmu_get_level v MMU_L4 < 256 then 0 else pte (mem s) src v))))"
proof (cases "vm_alloc_frame 1 s")
  case Fault
  with kframes.alloc_no_fault [OF assms(1)] show ?thesis by simp
next
  case Panic
  from alloc_panic [OF assms(1) this] show ?thesis using Panic by (simp add: mmu_new_vas_def)
next
  case (Ret r)
  obtain f s1 where r: "r = (f, s1)" by (cases r)
  note al = Ret [unfolded r]
  obtain k where k: "f = 4096 * k" "0 < k" "frame_free s k" using kframes.alloc_addr [OF assms(1) al] by blast
  define s2 where "s2 = s1\<lparr>mem := copy_half (mem s1) f src [0..<512]\<rparr>"
  have res: "mmu_new_vas s = Ret (Inr (of_nat f), s2)"
    using al k by (simp add: mmu_new_vas_def s2_def Let_def flip: assms(2))
  have fs: "f \<noteq> src" using k assms(4) by auto
  have fdv: "4096 dvd f" by (simp add: k)
  have out: "mem s2 x = mem s1 x" if "x div 4096 \<noteq> f div 4096" for x
    using copy_half_out [OF fdv _ that, of "[0..<512]"] by (simp add: s2_def)
  have "seg_inv (put_mem (mem s2) s1) \<and> frame_free (put_mem (mem s2) s1) = frame_free s1 \<and>
      seg_priv (put_mem (mem s2) s1) = seg_priv s1"
    using out kframes.fresh_not_priv [OF assms(1) al]
    by (intro seg_inv_put kframes.alloc_keeps_inv [OF assms(1) al]) blast
  moreover have "put_mem (mem s2) s1 = s2" by (simp add: put_mem_def s2_def)
  ultimately have i2: "seg_inv s2" "frame_free s2 = frame_free s1" by simp_all
  have src: "load64 (mem s1) (src + 8 * i) = load64 (mem s) (src + 8 * i)" if "i < 512" for i
    using slot_page [OF assms(3) that] assms(4,5)
    by (intro load64_cong kframes.used_kept [OF assms(1) al]) auto
  have pg: "src div 4096 \<noteq> f div 4096" using k assms(4) by auto
  have src2: "load64 (mem s2) (src + 8 * i) = load64 (mem s) (src + 8 * i)" if "i < 512" for i
    using slot_page [OF assms(3) that] pg src [OF that] out by (subst load64_cong [of "mem s2" _ "mem s1"]) auto
  have "frame_free s (f div 4096)" "\<not> frame_free s2 (f div 4096)"
    using k kframes.fresh_not_free [OF assms(1) al] i2(2) by simp_all
  moreover have "load64 (mem s2) (f + 8 * i) = (if i < 256 then 0 else load64 (mem s) (src + 8 * i))" if "i < 512" for i
    using copy_half_load [OF fdv assms(3) fs _ that, of "[0..<512]"] src [OF that] that by (simp add: s2_def)
  moreover have kept: "mem s2 x = mem s x" if "\<not> frame_free s (x div 4096)" "\<not> seg_priv s x" for x
  proof -
    have "x div 4096 \<noteq> f div 4096" using that(1) k by auto
    then show ?thesis using out kframes.used_kept [OF assms(1) al that] by simp
  qed
  moreover have "pte (mem s2) root v = pte (mem s) root v" if "pt_inv s root" for root v
    using pte_kept [OF that kept] .
  moreover from calculation(3) have "pte (mem s2) f v = (if mmu_get_level v MMU_L4 < 256 then 0 else pte (mem s2) src v)" for v
    by (intro pte_half) (simp add: src2)
  ultimately show ?thesis using res i2(1) src2
    by (intro disjI2 exI [of _ f] exI [of _ s2]) simp
qed

theorem mmu_new_vas_spec_witness:
  "\<exists>f s'. mmu_new_vas mmu_demo = Ret (Inr (of_nat f), s') \<and> seg_inv s' \<and>
     pte (mem s') f 0xFFFF800000000000 = pte (mem mmu_demo) 24576 0xFFFF800000000000 \<and>
     pte (mem s') f 0x400000 = 0 \<and> pte (mem s') 24576 0x400000 = pte (mem mmu_demo) 24576 0x400000"
proof -
  have inv: "seg_inv mmu_demo" using mmu_demo_inv by (simp add: pt_inv_def)
  have src: "24576 = unat (kvas_cr3 mmu_demo AND PTE_ADDR_MASK)" by (simp add: PTE_ADDR_MASK_def mmu_demo_def)
  have dv: "4096 dvd (24576 :: nat)" and used: "\<not> frame_free mmu_demo (24576 div 4096)"
    by (simp_all add: mmu_demo_free)
  have priv: "\<not> seg_priv mmu_demo x" if "x div 4096 = 24576 div 4096" for x
    using that by (auto simp: seg_priv_def mmu_demo_fields)
  have "frame_free mmu_demo 2" by (simp add: mmu_demo_free)
  with mmu_new_vas_spec [OF inv src dv used priv] obtain f s' where
    r: "mmu_new_vas mmu_demo = Ret (Inr (of_nat f), s')" "seg_inv s'"
    "\<forall>root v. pt_inv mmu_demo root \<longrightarrow> pte (mem s') root v = pte (mem mmu_demo) root v"
    "pt_inv mmu_demo 24576 \<longrightarrow>
      (\<forall>v. pte (mem s') f v = (if mmu_get_level v MMU_L4 < 256 then 0 else pte (mem mmu_demo) 24576 v))"
    by blast
  have "mmu_get_level 0xFFFF800000000000 MMU_L4 = 256" "mmu_get_level 0x400000 MMU_L4 = 0"
    by (simp_all add: mmu_get_level.simps drop_bit_eq_div)
  with r mmu_demo_inv show ?thesis by (intro exI [of _ f] exI [of _ s']) simp
qed

end
