(* ===== verification/Omar.thy ===== *)
theory Omar
  imports L5_Kalloc "HOL-Library.Monad_Syntax"
begin

text \<open>
  The OMAR archive format: the host tool that writes and extracts archives (\<^verbatim>\<open>tools/omar/omar.c\<close>) and
  the kernel's reader of its initial ram disk (\<^verbatim>\<open>sys/os/os_omar.c\<close>).  An archive is a list of bytes;
  \<open>None\<close> is a read outside the image.  The main results: the kernel finds every file the tool
  archived, with its content, and the tool's own extraction gives back what was archived.
\<close>

section \<open>Headers\<close>

abbreviation OMAR_REG :: nat where "OMAR_REG \<equiv> 0"
abbreviation OMAR_DIR :: nat where "OMAR_DIR \<equiv> 1"
abbreviation OMAR_REV :: nat where "OMAR_REV \<equiv> 2"
abbreviation BLOCK_SIZE :: nat where "BLOCK_SIZE \<equiv> 512"

definition OMAR_MAGIC :: string where "OMAR_MAGIC = ''OMAR''"
definition OMAR_EOF :: string where "OMAR_EOF = ''RAMO''"

text \<open>The packed header; the integers are below \<open>2 ^ 8\<close>, \<open>2 ^ 8\<close>, \<open>2 ^ 32\<close>, \<open>2 ^ 8\<close>, \<open>2 ^ 32\<close>.\<close>

record omar_hdr =
  h_magic :: "char list"
  h_type :: nat
  h_namelen :: nat
  h_len :: nat
  h_rev :: nat
  h_mode :: nat

definition sizeof_omar_hdr :: nat where [simp]: "sizeof_omar_hdr = 15"

definition hdr_enc :: "omar_hdr \<Rightarrow> char list" where
  "hdr_enc h = h_magic h @ le_enc 1 (h_type h) @ le_enc 1 (h_namelen h) @ le_enc 4 (h_len h) @
     le_enc 1 (h_rev h) @ le_enc 4 (h_mode h)"

definition hdr_dec :: "char list \<Rightarrow> omar_hdr option" where
  "hdr_dec p =
     (if length p < sizeof_omar_hdr then None
      else Some \<lparr>h_magic = take 4 p, h_type = le_dec (take 1 (drop 4 p)),
                 h_namelen = le_dec (take 1 (drop 5 p)), h_len = le_dec (take 4 (drop 6 p)),
                 h_rev = le_dec (take 1 (drop 10 p)), h_mode = le_dec (take 4 (drop 11 p))\<rparr>)"

section \<open>Writing an archive\<close>

text \<open>
  The host: \<open>stat\<close> opens a path and describes the file (its mode, whether it is a directory, its size
  and content) or fails; \<open>readdir\<close> lists a directory.  \<open>malloc_ok\<close> tells whether the buffer for a file
  of the given size can be allocated, \<open>heap_byte\<close> gives the bytes of a new buffer, \<open>eof_mode\<close> is what the uninitialised mode of the last
  header holds.
\<close>

record hostfile =
  st_mode :: nat
  st_dir :: bool
  st_size :: nat
  st_data :: "char list"

datatype d_type = DT_DIR | DT_REG | DT_OTHER

record host =
  stat :: "char list \<Rightarrow> int + hostfile"
  readdir :: "char list \<Rightarrow> (char list \<times> d_type) list option"
  malloc_ok :: "nat \<Rightarrow> bool"
  heap_byte :: "nat \<Rightarrow> char"
  eof_mode :: nat

fun strip_root :: "char list \<Rightarrow> char list option" where
  "strip_root [] = None"
| "strip_root (c # p) = (if c = CHR ''/'' then Some p else strip_root p)"

text \<open>
  \<^verbatim>\<open>read\<close> of a regular file into a new buffer of \<open>n\<close> bytes: the number of bytes delivered, and the
  buffer.
\<close>

definition host_read :: "host \<Rightarrow> hostfile \<Rightarrow> nat \<Rightarrow> int \<times> char list" where
  "host_read hs f n =
     (let d = take n (st_data f) in (int (length d), d @ map (heap_byte hs) [length d..<n]))"

definition dir_pad :: "nat \<Rightarrow> nat" where
  "dir_pad len = BLOCK_SIZE - len mod BLOCK_SIZE"

definition file_push ::
  "host \<Rightarrow> char list option \<Rightarrow> char list \<Rightarrow> char list \<Rightarrow> int \<times> char list" where
  "file_push hs pathname name out =
     (case (case pathname of None \<Rightarrow> Inr None | Some p \<Rightarrow> map_sum id Some (stat hs p)) of
        Inl e \<Rightarrow> (e, out)
      | Inr None \<Rightarrow>
          (let hdr = \<lparr>h_magic = OMAR_EOF, h_type = OMAR_REG, h_namelen = length name mod 256,
                      h_len = 0, h_rev = OMAR_REV, h_mode = eof_mode hs\<rparr>
           in (0, out @ hdr_enc hdr @ take (h_namelen hdr) name))
      | Inr (Some sb) \<Rightarrow>
          (let hdr = \<lparr>h_magic = OMAR_MAGIC, h_type = (if st_dir sb then OMAR_DIR else OMAR_REG),
                      h_namelen = length name mod 256, h_len = st_size sb mod 2 ^ 32,
                      h_rev = OMAR_REV, h_mode = st_mode sb mod 2 ^ 32\<rparr>;
               out = out @ hdr_enc hdr @ take (h_namelen hdr) name
           in if h_type hdr = OMAR_DIR then
                (0, out @ replicate (dir_pad (sizeof_omar_hdr + h_namelen hdr)) NUL)
              else if \<not> malloc_ok hs (h_len hdr) then (- errno_code ENOMEM, out)
              else
                (case host_read hs sb (h_len hdr) of
                   (r, buf) \<Rightarrow>
                     if r \<le> 0 then (- errno_code EIO, out)
                     else
                       (let out = out @ buf;
                            len = sizeof_omar_hdr + (h_namelen hdr + h_len hdr);
                            rem = len mod BLOCK_SIZE
                        in (0, if rem \<noteq> 0 then out @ replicate (BLOCK_SIZE - rem) NUL else out)))))"

text \<open>\<^verbatim>\<open>snprintf(buf, 256, "%s/%s", a, b)\<close> of the host's C library.\<close>

definition join256 :: "char list \<Rightarrow> char list \<Rightarrow> char list" where
  "join256 a b = take 255 (a @ ''/'' @ b)"

text \<open>
  \<^verbatim>\<open>archive_create\<close> recurses into directories; \<open>fuel\<close> bounds the depth.  \<open>None\<close> is a tree that is
  deeper, or a name with no slash (\<^verbatim>\<open>strlen(NULL)\<close>).
\<close>

fun archive_create :: "nat \<Rightarrow> host \<Rightarrow> char list \<Rightarrow> char list \<Rightarrow> char list \<Rightarrow> (int \<times> char list) option"
  and archive_ents :: "nat \<Rightarrow> host \<Rightarrow> char list \<Rightarrow> char list \<Rightarrow> (char list \<times> d_type) list \<Rightarrow> char list \<Rightarrow> char list option"
where
  "archive_create 0 hs base dirname out = None"
| "archive_create (Suc fuel) hs base dirname out =
     (case readdir hs base of
        None \<Rightarrow> Some (- errno_code ENOENT, out)
      | Some ents \<Rightarrow> map_option (Pair 0) (archive_ents fuel hs base dirname ents out))"
| "archive_ents fuel hs base dirname [] out = Some out"
| "archive_ents fuel hs base dirname ((d_name, ty) # ents) out =
     (if take 1 d_name = ''.'' then archive_ents fuel hs base dirname ents out
      else
        (let pathbuf = join256 base d_name;
             namebuf = join256 dirname d_name
         in case ty of
              DT_DIR \<Rightarrow>
                (case strip_root namebuf of
                   None \<Rightarrow> None
                 | Some p1 \<Rightarrow>
                     (let (_, out) = file_push hs (Some pathbuf) p1 out
                      in case archive_create fuel hs pathbuf namebuf out of
                           None \<Rightarrow> None
                         | Some (_, out) \<Rightarrow> archive_ents fuel hs base dirname ents out))
            | DT_REG \<Rightarrow>
                (case strip_root namebuf of
                   None \<Rightarrow> None
                 | Some p1 \<Rightarrow>
                     (let (_, out) = file_push hs (Some pathbuf) p1 out
                      in archive_ents fuel hs base dirname ents out))
            | DT_OTHER \<Rightarrow> archive_ents fuel hs base dirname ents out))"

text \<open>The archive mode of \<^verbatim>\<open>main\<close>; \<open>name\<close> is the base name of the input path.\<close>

definition omar_archive :: "nat \<Rightarrow> host \<Rightarrow> char list \<Rightarrow> char list \<Rightarrow> (int \<times> char list) option" where
  "omar_archive fuel hs inpath name =
     do {
       (retval, out) \<leftarrow> archive_create fuel hs inpath name [];
       Some (retval, snd (file_push hs None ''EOF'' out))
     }"

section \<open>The kernel's reader\<close>

text \<open>The data pointer of a node is an offset into the image.\<close>

record initrd_node =
  n_data :: nat
  n_size :: nat
  n_mode :: nat

text \<open>
  The loop of \<^verbatim>\<open>initrd_get_file\<close> at offset \<open>p\<close> of the image.
\<close>

definition omar_next :: "omar_hdr \<Rightarrow> nat" where
  "omar_next h =
     (if h_type h = OMAR_DIR then 512
      else unat (ALIGN_UP (word_of_nat (sizeof_omar_hdr + h_namelen h + h_len h)) 512))"

lemma hdr_dec_bounds:
  assumes "hdr_dec p = Some h"
  shows "h_namelen h < 256" and "h_len h < 2 ^ 32" and "h_mode h < 2 ^ 32"
  using assms le_dec_bound [of "take 1 (drop 5 p)"] le_dec_bound [of "take 4 (drop 6 p)"]
    le_dec_bound [of "take 4 (drop 11 p)"]
  by (auto simp: hdr_dec_def split: if_splits)

lemma omar_next_eq:
  assumes "h_namelen h < 256" and "h_len h < 2 ^ 32"
  shows "omar_next h =
    (if h_type h = OMAR_DIR then 512 else round_up (sizeof_omar_hdr + h_namelen h + h_len h) 512)"
proof -
  have up: "unat (ALIGN_UP (word_of_nat n) 512) = round_up n 512" if "n < 2 ^ 33" for n
    using ALIGN_UP_unat [of 9 "word_of_nat n"] that by (simp add: unat_of_nat round_up_def)
  show ?thesis
    unfolding omar_next_def using assms up [of "sizeof_omar_hdr + h_namelen h + h_len h"] by simp
qed

lemma omar_next_pos: "hdr_dec p = Some h \<Longrightarrow> 0 < omar_next h"
proof -
  assume h: "hdr_dec p = Some h"
  let ?n = "sizeof_omar_hdr + h_namelen h + h_len h"
  have "?n \<le> round_up ?n 512" by (rule round_up_ge) simp
  then show ?thesis using omar_next_eq hdr_dec_bounds [OF h] by simp
qed

lemma hdr_dec_drop: "hdr_dec (drop p img) = Some h \<Longrightarrow> p < length img"
  by (auto simp: hdr_dec_def split: if_splits)

function get_file_loop ::
  "char list \<Rightarrow> char list \<Rightarrow> char list \<Rightarrow> nat \<Rightarrow> initrd_node res option" where
  "get_file_loop img path namebuf p =
     (case (strncmp (drop p img) (OMAR_EOF @ [NUL]) 5, strncmp (drop p img) (OMAR_MAGIC @ [NUL]) 4) of
        (Some eof, Some magic) \<Rightarrow>
          if eof = 0 then Some (Inl ENOENT)
          else if magic \<noteq> 0 then Some (Inl EINVAL)
          else
            (case hdr_dec (drop p img) of
               None \<Rightarrow> None
             | Some hdr \<Rightarrow>
                 if h_namelen hdr > 256 - 1 then Some (Inl EINVAL)
                 else
                   (case memcpy namebuf (drop (p + sizeof_omar_hdr) img) (h_namelen hdr) of
                      None \<Rightarrow> None
                    | Some namebuf \<Rightarrow>
                        (case buf_put namebuf (h_namelen hdr) NUL of
                           None \<Rightarrow> None
                         | Some namebuf \<Rightarrow>
                             (case strcmp namebuf (path @ [NUL]) of
                                None \<Rightarrow> None
                              | Some r \<Rightarrow>
                                  if r = 0 then
                                    Some (Inr \<lparr>n_data = p + sizeof_omar_hdr + h_namelen hdr,
                                               n_size = h_len hdr, n_mode = h_mode hdr\<rparr>)
                                  else
                                    get_file_loop img path (replicate 256 NUL)
                                      (p + omar_next hdr)))))
      | _ \<Rightarrow> None)"
  by pat_completeness auto
termination
  by (relation "measure (\<lambda>(img, path, namebuf, p). length img - p)")
    (auto dest: omar_next_pos hdr_dec_drop intro!: diff_less_mono2)

declare get_file_loop.simps [simp del]

text \<open>\<open>namebuf\<close>: the uninitialised local array.\<close>

definition initrd_get_file :: "char list \<Rightarrow> char list \<Rightarrow> char list \<Rightarrow> initrd_node res option" where
  "initrd_get_file img namebuf path = get_file_loop img path namebuf 0"

text \<open>The bytes copied before the end of the file is noticed stay in the destination.\<close>

fun initrd_read_loop ::
  "char list \<Rightarrow> initrd_node \<Rightarrow> nat \<Rightarrow> nat \<Rightarrow> nat \<Rightarrow> nat \<Rightarrow> char list \<Rightarrow> (int \<times> char list) option" where
  "initrd_read_loop img np off len 0 i dest = Some (int len, dest)"
| "initrd_read_loop img np off len (Suc k) i dest =
     (if i + off \<ge> n_size np then Some (0, dest)
      else
        (case buf_get img (n_data np + off + i) of
           None \<Rightarrow> None
         | Some c \<Rightarrow>
             (case buf_put dest i c of
                None \<Rightarrow> None
              | Some dest \<Rightarrow> initrd_read_loop img np off len k (i + 1) dest)))"

definition initrd_read ::
  "char list \<Rightarrow> initrd_node option \<Rightarrow> nat \<Rightarrow> nat \<Rightarrow> char list option \<Rightarrow> (int \<times> char list option) option" where
  "initrd_read img np off len data =
     (case (data, np) of
        (Some dest, Some np) \<Rightarrow>
          (let len = min len (n_size np)
           in map_option (map_prod id Some) (initrd_read_loop img np off len len 0 dest))
      | _ \<Rightarrow> Some (- errno_code EIO, data))"

text \<open>
  \<^verbatim>\<open>initrd_open\<close>: the size or a negative error, and the offset stored through \<^verbatim>\<open>res\<close> on success.
\<close>

definition initrd_open :: "char list \<Rightarrow> char list \<Rightarrow> char list option \<Rightarrow> (int \<times> nat option) option" where
  "initrd_open img namebuf path =
     (case path of
        None \<Rightarrow> Some (- errno_code EINVAL, None)
      | Some path \<Rightarrow>
          if take 1 path \<noteq> ''/'' then Some (- errno_code ENOENT, None)
          else
            do {
              r \<leftarrow> initrd_get_file img namebuf (tl path);
              Some (case r of
                      Inl e \<Rightarrow> (- errno_code e, None)
                    | Inr node \<Rightarrow> (int (n_size node), Some (n_data node)))
            })"

section \<open>The bytes of an entry\<close>

lemma hdr_enc_length: "length (h_magic h) = 4 \<Longrightarrow> length (hdr_enc h) = sizeof_omar_hdr"
  by (simp add: hdr_enc_def)

definition hdr_ok :: "omar_hdr \<Rightarrow> bool" where
  "hdr_ok h \<longleftrightarrow> length (h_magic h) = 4 \<and> h_type h < 256 \<and> h_namelen h < 256 \<and> h_len h < 2 ^ 32 \<and>
     h_rev h < 256 \<and> h_mode h < 2 ^ 32"

lemma hdr_dec_enc: "hdr_ok h \<Longrightarrow> hdr_dec (hdr_enc h @ r) = Some h"
  by (simp add: hdr_ok_def hdr_dec_def hdr_enc_def del: le_enc.simps)

type_synonym omar_entry = "char list \<times> hostfile"

definition entry_hdr :: "omar_entry \<Rightarrow> omar_hdr" where
  "entry_hdr e =
     \<lparr>h_magic = OMAR_MAGIC, h_type = (if st_dir (snd e) then OMAR_DIR else OMAR_REG),
      h_namelen = length (fst e), h_len = st_size (snd e), h_rev = OMAR_REV, h_mode = st_mode (snd e)\<rparr>"

definition entry_data :: "omar_entry \<Rightarrow> char list" where
  "entry_data e = (if st_dir (snd e) then [] else st_data (snd e))"

definition entry_bytes :: "omar_entry \<Rightarrow> char list" where
  "entry_bytes e =
     (let b = hdr_enc (entry_hdr e) @ fst e @ entry_data e
      in b @ replicate (round_up (length b) BLOCK_SIZE - length b) NUL)"

definition entry_ok :: "omar_entry \<Rightarrow> bool" where
  "entry_ok e \<longleftrightarrow> length (fst e) < 256 \<and> NUL \<notin> set (fst e) \<and> st_size (snd e) < 2 ^ 32 \<and>
     st_mode (snd e) < 2 ^ 32 \<and>
     (\<not> st_dir (snd e) \<longrightarrow> st_size (snd e) = length (st_data (snd e)) \<and> st_data (snd e) \<noteq> [])"

lemma entry_hdr_ok: "entry_ok e \<Longrightarrow> hdr_ok (entry_hdr e)"
  by (simp add: entry_ok_def hdr_ok_def entry_hdr_def OMAR_MAGIC_def)

lemma round_up_pad:
  assumes "0 < a"
  shows "round_up n a - n = (if n mod a = 0 then 0 else a - n mod a)"
proof (cases "n mod a = 0")
  case True
  then show ?thesis using round_up_id [OF assms, of n] by (simp add: dvd_eq_mod_eq_0)
next
  case False
  obtain q r where q: "q = n div a" and r: "r = n mod a" by blast
  have n: "n = r + a * q" and r_lt: "r < a" and r_pos: "0 < r" using q r False assms by simp_all
  have "n + a - 1 = (r - 1) + a * (q + 1)" using r_pos by (subst n) simp
  moreover have "((r - 1) + a * (q + 1)) div a = (q + 1) + (r - 1) div a"
    using assms by (intro div_mult_self2) simp
  ultimately have "(n + a - 1) div a = q + 1" using r_lt by simp
  then have "round_up n a = a * q + a" by (simp add: round_up_def algebra_simps)
  then have "round_up n a - n = a - r" using n r_lt by simp
  then show ?thesis using False by (simp only: r if_False)
qed
lemma file_push_entry:
  assumes "entry_ok (name, f)" and "stat hs p = Inr f" and "malloc_ok hs (st_size f)"
  shows "file_push hs (Some p) name out = (0, out @ entry_bytes (name, f))"
proof -
  have len: "length (hdr_enc (entry_hdr (name, f))) = 15"
    using entry_hdr_ok [OF assms(1)] hdr_enc_length by (simp add: hdr_ok_def)
  have name: "length name < 256" and sz: "st_size f < 2 ^ 32" "st_mode f < 2 ^ 32"
    using assms(1) by (simp_all add: entry_ok_def)
  show ?thesis
  proof (cases "st_dir f")
    case True
    have "(15 + length name) mod 512 = 15 + length name" using name by simp
    then have "dir_pad (15 + length name) = round_up (15 + length name) 512 - (15 + length name)"
      by (simp add: dir_pad_def round_up_pad)
    with True assms name sz len show ?thesis
      by (simp add: file_push_def entry_bytes_def entry_data_def entry_hdr_def Let_def)
  next
    case False
    then have d: "st_size f = length (st_data f)" "st_data f \<noteq> []" using assms(1) by (simp_all add: entry_ok_def)
    then have rd: "host_read hs f (st_size f) = (int (length (st_data f)), st_data f)"
      by (simp add: host_read_def Let_def)
    have pad: "replicate (round_up n 512 - n) NUL =
        (if n mod 512 \<noteq> 0 then replicate (512 - n mod 512) NUL else [])" for n
      by (simp add: round_up_pad)
    from False assms name sz d len rd pad [of "15 + (length name + length (st_data f))"] show ?thesis
      by (simp add: file_push_def entry_bytes_def entry_data_def entry_hdr_def Let_def)
  qed
qed

lemma entry_length:
  assumes "entry_ok e"
  shows "length (entry_bytes e) = omar_next (entry_hdr e)"
proof -
  have ok: "hdr_ok (entry_hdr e)" by (rule entry_hdr_ok [OF assms])
  then have len: "length (hdr_enc (entry_hdr e)) = 15" using hdr_enc_length by (simp add: hdr_ok_def)
  have ge: "n \<le> round_up n 512" for n by (rule round_up_ge) simp
  have next_eq: "omar_next (entry_hdr e) = (if st_dir (snd e) then 512
      else round_up (15 + length (fst e) + st_size (snd e)) 512)"
    using ok omar_next_eq [of "entry_hdr e"] by (simp add: hdr_ok_def entry_hdr_def)
  have dir: "round_up n 512 = 512" if "0 < n" "n \<le> 512" for n
    using that by (intro antisym round_up_least) (auto simp: round_up_def Suc_le_eq)
  show ?thesis
  proof (cases "st_dir (snd e)")
    case True
    have "length (fst e) < 256" using assms by (simp add: entry_ok_def)
    then have "round_up (15 + length (fst e)) 512 = 512" by (intro dir) simp_all
    then show ?thesis
      using True len next_eq \<open>length (fst e) < 256\<close> by (simp add: entry_bytes_def entry_data_def Let_def)
  next
    case False
    then have "st_size (snd e) = length (st_data (snd e))" using assms by (simp add: entry_ok_def)
    then show ?thesis
      using False len next_eq ge [of "15 + length (fst e) + length (st_data (snd e))"]
      by (simp add: entry_bytes_def entry_data_def Let_def add.assoc)
  qed
qed

text \<open>One entry of the image at its boundary.\<close>

lemma magic_tests:
  "\<exists>r. r \<noteq> 0 \<and> strncmp (OMAR_MAGIC @ t) (OMAR_EOF @ [NUL]) 5 = Some r"
  "strncmp (OMAR_MAGIC @ t) (OMAR_MAGIC @ [NUL]) 4 = Some 0"
  "strncmp (OMAR_EOF @ NUL # t) (OMAR_EOF @ [NUL]) 5 = Some 0"
  "\<exists>r. strncmp (OMAR_EOF @ NUL # t) (OMAR_MAGIC @ [NUL]) 4 = Some r"
  by (simp_all add: OMAR_MAGIC_def OMAR_EOF_def eval_nat_numeral)

lemma get_file_entry:
  assumes "entry_ok e" and "drop p img = entry_bytes e @ rest" and "length nb = 256" and "NUL \<notin> set path"
  shows "get_file_loop img path nb p =
    (if fst e = path
     then Some (Inr \<lparr>n_data = p + 15 + length path, n_size = st_size (snd e), n_mode = st_mode (snd e)\<rparr>)
     else get_file_loop img path (replicate 256 NUL) (p + length (entry_bytes e)))"
proof -
  have ok: "hdr_ok (entry_hdr e)" by (rule entry_hdr_ok [OF assms(1)])
  obtain body where eb: "entry_bytes e = hdr_enc (entry_hdr e) @ fst e @ body"
    by (simp add: entry_bytes_def Let_def)
  obtain t where t: "entry_bytes e @ rest = OMAR_MAGIC @ t"
    by (simp add: eb hdr_enc_def entry_hdr_def)
  have hd: "hdr_dec (drop p img) = Some (entry_hdr e)"
    unfolding assms(2) eb append_assoc by (rule hdr_dec_enc [OF ok])
  have "drop (p + 15) img = drop 15 (drop p img)" by (simp add: add.commute)
  then have dn: "drop (p + 15) img = fst e @ body @ rest"
    unfolding assms(2) eb using hdr_enc_length [of "entry_hdr e"] ok by (simp add: hdr_ok_def)
  have name: "length (fst e) < 256" "NUL \<notin> set (fst e)" using assms(1) by (simp_all add: entry_ok_def)
  have mc: "memcpy nb (drop (p + 15) img) (length (fst e)) = Some (fst e @ drop (length (fst e)) nb)"
    unfolding dn using memcpy_eq [of "length (fst e)" nb "fst e @ body @ rest"] assms(3) name by simp
  have bp: "buf_put (fst e @ drop (length (fst e)) nb) (length (fst e)) NUL =
      Some (fst e @ NUL # drop (Suc (length (fst e))) nb)"
    using assms(3) name by (simp add: buf_put_def list_update_append Cons_nth_drop_Suc [symmetric])
  let ?nb = "fst e @ NUL # drop (Suc (length (fst e))) nb"
  obtain r where r: "strcmp ?nb (path @ [NUL]) = Some r" using strcmp_defined [of ?nb "path @ [NUL]"] by auto
  have "r = 0 \<longleftrightarrow> fst e = path"
    using strcmp_0_iff [of ?nb "path @ [NUL]"] r name assms(4) by (simp add: cstr_id)
  moreover obtain q where q: "q \<noteq> 0" "strncmp (drop p img) (OMAR_EOF @ [NUL]) 5 = Some q"
    using magic_tests(1) [of t] unfolding assms(2) t by blast
  moreover have "strncmp (drop p img) (OMAR_MAGIC @ [NUL]) 4 = Some 0"
    unfolding assms(2) t by (rule magic_tests(2))
  ultimately show ?thesis
    using hd mc bp r name entry_length [OF assms(1)]
    by (subst get_file_loop.simps) (simp add: entry_hdr_def)
qed
section \<open>Images\<close>

definition eof_bytes :: "host \<Rightarrow> char list" where
  "eof_bytes hs =
     hdr_enc \<lparr>h_magic = OMAR_EOF, h_type = OMAR_REG, h_namelen = 3, h_len = 0, h_rev = OMAR_REV,
              h_mode = eof_mode hs\<rparr> @ ''EOF''"

fun locate :: "omar_entry list \<Rightarrow> char list \<Rightarrow> nat \<Rightarrow> (nat \<times> hostfile) option" where
  "locate [] path p = None"
| "locate (e # es) path p =
     (if fst e = path then Some (p + 15 + length path, snd e)
      else locate es path (p + length (entry_bytes e)))"

lemma char_of_0: "char_of (0 :: nat) = NUL"
  by (simp add: char_of_eq_iff)

lemma get_file_image:
  assumes "\<forall>e \<in> set es. entry_ok e" and "drop p img = concat (map entry_bytes es) @ eof_bytes hs"
    and "length nb = 256" and "NUL \<notin> set path"
  shows "get_file_loop img path nb p =
    Some (case locate es path p of
            None \<Rightarrow> Inl ENOENT
          | Some (off, f) \<Rightarrow> Inr \<lparr>n_data = off, n_size = st_size f, n_mode = st_mode f\<rparr>)"
  using assms
proof (induction es arbitrary: p nb)
  case Nil
  obtain t where t: "eof_bytes hs = OMAR_EOF @ NUL # t"
    by (simp add: eof_bytes_def hdr_enc_def char_of_0)
  obtain r where "strncmp (drop p img) (OMAR_MAGIC @ [NUL]) 4 = Some r"
    using magic_tests(4) [of t] Nil.prems(2) t by auto
  moreover have "strncmp (drop p img) (OMAR_EOF @ [NUL]) 5 = Some 0"
    using magic_tests(3) [of t] Nil.prems(2) t by simp
  ultimately show ?case by (subst get_file_loop.simps) simp
next
  case (Cons e es)
  have d: "drop p img = entry_bytes e @ (concat (map entry_bytes es) @ eof_bytes hs)"
    using Cons.prems(2) by simp
  have "drop (p + length (entry_bytes e)) img = drop (length (entry_bytes e)) (drop p img)"
    by (simp add: add.commute)
  also have "\<dots> = concat (map entry_bytes es) @ eof_bytes hs" unfolding d by simp
  finally have d': "drop (p + length (entry_bytes e)) img = concat (map entry_bytes es) @ eof_bytes hs" .
  have "entry_ok e" using Cons.prems(1) by simp
  from get_file_entry [OF this d Cons.prems(3,4)] Cons.IH [OF _ d' _ Cons.prems(4)] Cons.prems(1)
  show ?case by simp
qed

lemma locate_None: "locate es path p = None \<longleftrightarrow> path \<notin> fst ` set es"
  by (induction es arbitrary: p) auto

lemma locate_append:
  "path \<notin> fst ` set xs \<Longrightarrow>
   locate (xs @ e # ys) path p =
     (if fst e = path then Some (p + length (concat (map entry_bytes xs)) + 15 + length path, snd e)
      else locate ys path (p + length (concat (map entry_bytes xs)) + length (entry_bytes e)))"
  by (induction xs arbitrary: p) (auto simp: add_ac)

lemma entry_content:
  assumes "entry_ok e" and "\<not> st_dir (snd e)"
  shows "take (st_size (snd e)) (drop (15 + length (fst e)) (entry_bytes e @ r)) = st_data (snd e)"
proof -
  have "length (hdr_enc (entry_hdr e)) = 15"
    using entry_hdr_ok [OF assms(1)] hdr_enc_length by (simp add: hdr_ok_def)
  then show ?thesis
    using assms by (simp add: entry_bytes_def entry_data_def entry_ok_def Let_def)
qed

lemma image_content:
  assumes "img = concat (map entry_bytes (xs @ e # ys)) @ r" and "entry_ok e" and "\<not> st_dir (snd e)"
  shows "take (st_size (snd e)) (drop (length (concat (map entry_bytes xs)) + 15 + length (fst e)) img) =
    st_data (snd e)"
proof -
  let ?a = "concat (map entry_bytes xs)"
  have "drop (length ?a + 15 + length (fst e)) img = drop (15 + length (fst e)) (drop (length ?a) img)"
    by (simp add: add_ac)
  also have "drop (length ?a) img = entry_bytes e @ (concat (map entry_bytes ys) @ r)"
    using assms(1) by simp
  finally show ?thesis using entry_content [OF assms(2,3)] by (simp only:)
qed

section \<open>What the tool archives\<close>

text \<open>
  A finite directory tree, with what \<^verbatim>\<open>fstat\<close> says of each file and the entries of each directory in the order
  of \<^verbatim>\<open>readdir\<close>, and the host that shows it below a path.  Entries whose names start with a dot are never opened.
\<close>

datatype ftree = RegFile hostfile | Folder hostfile "(char list \<times> ftree) list" | Special

fun dirent_type :: "ftree \<Rightarrow> d_type" where
  "dirent_type (RegFile f) = DT_REG"
| "dirent_type (Folder f ts) = DT_DIR"
| "dirent_type Special = DT_OTHER"

definition listing :: "(char list \<times> ftree) list \<Rightarrow> (char list \<times> d_type) list" where
  "listing ts = map (\<lambda>(d, t). (d, dirent_type t)) ts"

abbreviation dotted :: "char list \<Rightarrow> bool" where "dotted d \<equiv> take 1 d = ''.''"

function shown :: "host \<Rightarrow> char list \<Rightarrow> (char list \<times> ftree) list \<Rightarrow> bool" where
  "shown hs base [] = True"
| "shown hs base ((d, RegFile f) # ts) = ((dotted d \<or> stat hs (join256 base d) = Inr f) \<and> shown hs base ts)"
| "shown hs base ((d, Folder f sub) # ts) =
     ((dotted d \<or> stat hs (join256 base d) = Inr f \<and> readdir hs (join256 base d) = Some (listing sub) \<and>
        shown hs (join256 base d) sub) \<and> shown hs base ts)"
| "shown hs base ((d, Special) # ts) = shown hs base ts"
  by pat_completeness auto
termination
  by (relation "measure (\<lambda>(hs, base, ts). size_list (size_prod (\<lambda>_. 0) size) ts)") simp_all

definition host_tree :: "host \<Rightarrow> char list \<Rightarrow> (char list \<times> ftree) list \<Rightarrow> bool" where
  "host_tree hs base ts \<longleftrightarrow> readdir hs base = Some (listing ts) \<and> shown hs base ts"

function height :: "(char list \<times> ftree) list \<Rightarrow> nat" where
  "height [] = 0"
| "height ((d, Folder f sub) # ts) = max (Suc (height sub)) (height ts)"
| "height ((d, RegFile f) # ts) = height ts"
| "height ((d, Special) # ts) = height ts"
  by pat_completeness auto
termination
  by (relation "measure (size_list (size_prod (\<lambda>_. 0) size))") simp_all

text \<open>The files in the order in which they are archived: host path, name in the archive, what \<^verbatim>\<open>fstat\<close> says.\<close>

definition arch_name :: "char list \<Rightarrow> char list \<Rightarrow> char list" where
  "arch_name dirname d = drop 1 (dropWhile ((\<noteq>) (CHR ''/'')) (join256 dirname d))"

function visit :: "char list \<Rightarrow> char list \<Rightarrow> (char list \<times> ftree) list \<Rightarrow> (char list \<times> omar_entry) list" where
  "visit base dirname [] = []"
| "visit base dirname ((d, RegFile f) # ts) =
     (if dotted d then [] else [(join256 base d, arch_name dirname d, f)]) @ visit base dirname ts"
| "visit base dirname ((d, Folder f sub) # ts) =
     (if dotted d then []
      else (join256 base d, arch_name dirname d, f) # visit (join256 base d) (join256 dirname d) sub) @ visit base dirname ts"
| "visit base dirname ((d, Special) # ts) = visit base dirname ts"
  by pat_completeness auto
termination
  by (relation "measure (\<lambda>(base, dirname, ts). size_list (size_prod (\<lambda>_. 0) size) ts)") simp_all

definition archived :: "char list \<Rightarrow> char list \<Rightarrow> (char list \<times> ftree) list \<Rightarrow> omar_entry list" where
  "archived base dirname ts = map snd (visit base dirname ts)"

definition push_all :: "host \<Rightarrow> (char list \<times> omar_entry) list \<Rightarrow> char list \<Rightarrow> char list" where
  "push_all hs ps out = foldl (\<lambda>out (p, e). snd (file_push hs (Some p) (fst e) out)) out ps"

lemma push_all_simps [simp]:
  "push_all hs [] out = out"
  "push_all hs ((p, e) # ps) out = push_all hs ps (snd (file_push hs (Some p) (fst e) out))"
  "push_all hs (xs @ ys) out = push_all hs ys (push_all hs xs out)"
  by (simp_all add: push_all_def)

text \<open>A name behind the root has a slash, so \<^verbatim>\<open>strip_root\<close> finds it.\<close>

definition rooted :: "char list \<Rightarrow> bool" where
  "rooted a \<longleftrightarrow> length a < 255 \<or> CHR ''/'' \<in> set (take 255 a)"

lemma strip_root_eq: "CHR ''/'' \<in> set p \<Longrightarrow> strip_root p = Some (drop 1 (dropWhile ((\<noteq>) (CHR ''/'')) p))"
  by (induction p) auto

lemma join256_slash: "rooted a \<Longrightarrow> CHR ''/'' \<in> set (join256 a b)"
  by (cases "length a < 255") (auto simp: rooted_def join256_def take_Cons' dest: in_set_takeD)

lemma strip_root_join:
  assumes "rooted a"
  shows "strip_root (join256 a b) = Some (arch_name a b)" and "rooted (join256 a b)"
proof -
  show "strip_root (join256 a b) = Some (arch_name a b)"
    unfolding arch_name_def by (rule strip_root_eq [OF join256_slash [OF assms]])
  have "take 255 (join256 a b) = join256 a b" by (simp add: join256_def del: take_append)
  then show "rooted (join256 a b)" using join256_slash [OF assms, of b] by (simp add: rooted_def)
qed

text \<open>Fuel above the height of the tree is enough: the traversal pushes every file once and ends.\<close>

lemma archive_tree:
  "shown hs base ts \<Longrightarrow> rooted dirname \<Longrightarrow> height ts \<le> fuel \<Longrightarrow>
   archive_ents fuel hs base dirname (listing ts) out = Some (push_all hs (visit base dirname ts) out)"
proof (induction base dirname ts arbitrary: fuel out rule: visit.induct)
  case (2 base dirname d f ts)
  then show ?case
    using strip_root_join [OF 2(3), of d] by (simp add: listing_def split_beta)
next
  case (3 base dirname d f sub ts)
  show ?case
  proof (cases "dotted d")
    case True
    then show ?thesis using 3 by (simp add: listing_def)
  next
    case False
    obtain fuel' where fuel: "fuel = Suc fuel'" "height sub \<le> fuel'" using 3(5) by (cases fuel) auto
    note r = strip_root_join [OF 3(4), of d]
    let ?out = "snd (file_push hs (Some (join256 base d)) (arch_name dirname d) out)"
    have "archive_create fuel hs (join256 base d) (join256 dirname d) ?out =
        Some (0, push_all hs (visit (join256 base d) (join256 dirname d) sub) ?out)"
      using 3(1) [OF False _ r(2) fuel(2)] 3(3) False fuel(1) by simp
    moreover have "archive_ents fuel hs base dirname (listing ts) out' = Some (push_all hs (visit base dirname ts) out')" for out'
      using 3(2) [of fuel out'] 3(3-5) by simp
    ultimately show ?thesis using False r(1) by (simp add: listing_def split_beta Let_def)
  qed
qed (simp_all add: listing_def)

section \<open>Properties of archives\<close>

text \<open>
  A file the tool can archive: its name and the numbers of its header fit, a regular file is not empty and its
  buffer can be allocated.
\<close>

definition archivable :: "host \<Rightarrow> omar_entry \<Rightarrow> bool" where
  "archivable hs e \<longleftrightarrow> entry_ok e \<and> malloc_ok hs (st_size (snd e))"

lemma visit_stat: "shown hs base ts \<Longrightarrow> (p, e) \<in> set (visit base dirname ts) \<Longrightarrow> stat hs p = Inr (snd e)"
  by (induction base dirname ts rule: visit.induct) (auto split: if_splits)

lemma push_all_bytes:
  "\<forall>(p, e) \<in> set ps. stat hs p = Inr (snd e) \<and> archivable hs e \<Longrightarrow>
   push_all hs ps out = out @ concat (map (entry_bytes \<circ> snd) ps)"
proof (induction ps arbitrary: out)
  case (Cons x ps)
  obtain p n f where x: "x = (p, n, f)" by (cases x)
  have "file_push hs (Some p) n out = (0, out @ entry_bytes (n, f))"
    using Cons.prems x by (intro file_push_entry) (auto simp: archivable_def)
  then show ?case using Cons x by simp
qed simp

lemma omar_archive_image:
  assumes "host_tree hs inpath ts" and "height ts < fuel" and "length name < 255"
    and "\<forall>e \<in> set (archived inpath name ts). archivable hs e"
  shows "omar_archive fuel hs inpath name =
      Some (0, concat (map entry_bytes (archived inpath name ts)) @ eof_bytes hs)"
proof -
  obtain fuel' where fuel: "fuel = Suc fuel'" "height ts \<le> fuel'" using assms(2) by (cases fuel) auto
  have r: "rooted name" using assms(3) by (simp add: rooted_def)
  have sh: "shown hs inpath ts" "readdir hs inpath = Some (listing ts)" using assms(1) by (simp_all add: host_tree_def)
  have "\<forall>(p, e) \<in> set (visit inpath name ts). stat hs p = Inr (snd e) \<and> archivable hs e"
    using visit_stat [OF sh(1)] assms(4) by (force simp: archived_def)
  from push_all_bytes [OF this, of "[]"]
  have "archive_create fuel hs inpath name [] = Some (0, concat (map entry_bytes (archived inpath name ts)))"
    using archive_tree [OF sh(1) r fuel(2), of "[]"] sh(2) fuel(1) by (simp add: archived_def)
  then show ?thesis by (simp add: omar_archive_def file_push_def eof_bytes_def Let_def)
qed

text \<open>
  C8 (archives round trip into the kernel).  Archiving a finite directory tree whose regular files are not
  empty and fit their headers ends with 0, for every bound on the depth above the height of the tree.  The kernel's
  lookup of any name in the resulting image stays inside the image and returns the first archived file of that name,
  with its mode and size, and for a regular file the bytes at the returned address are the file's content; for any
  other name it returns \<^verbatim>\<open>-ENOENT\<close>.
\<close>

theorem omar_roundtrip:
  assumes "host_tree hs inpath ts" and "height ts < fuel" and "length name < 255"
    and "\<forall>e \<in> set (archived inpath name ts). archivable hs e"
    and "length namebuf = 256" and "NUL \<notin> set path"
  shows "\<exists>img. omar_archive fuel hs inpath name = Some (0, img) \<and>
    (path \<notin> fst ` set (archived inpath name ts) \<longrightarrow> initrd_get_file img namebuf path = Some (Inl ENOENT)) \<and>
    (\<forall>xs f ys. archived inpath name ts = xs @ (path, f) # ys \<and> path \<notin> fst ` set xs \<longrightarrow>
      (\<exists>node. initrd_get_file img namebuf path = Some (Inr node) \<and>
        n_size node = st_size f \<and> n_mode node = st_mode f \<and>
        (\<not> st_dir f \<longrightarrow> take (n_size node) (drop (n_data node) img) = st_data f)))"
proof -
  let ?es = "archived inpath name ts"
  let ?img = "concat (map entry_bytes ?es) @ eof_bytes hs"
  have ok: "\<forall>e \<in> set ?es. entry_ok e" using assms(4) by (simp add: archivable_def)
  have gf: "initrd_get_file ?img namebuf path =
    Some (case locate ?es path 0 of
            None \<Rightarrow> Inl ENOENT
          | Some (off, f) \<Rightarrow> Inr \<lparr>n_data = off, n_size = st_size f, n_mode = st_mode f\<rparr>)"
    unfolding initrd_get_file_def by (intro get_file_image [OF ok _ assms(5,6)]) simp
  have "\<exists>node. initrd_get_file ?img namebuf path = Some (Inr node) \<and>
        n_size node = st_size f \<and> n_mode node = st_mode f \<and>
        (\<not> st_dir f \<longrightarrow> take (n_size node) (drop (n_data node) ?img) = st_data f)"
    if es: "?es = xs @ (path, f) # ys" "path \<notin> fst ` set xs" for xs f ys
  proof -
    have "locate ?es path 0 = Some (length (concat (map entry_bytes xs)) + 15 + length path, f)"
      unfolding es(1) using es(2) by (simp add: locate_append)
    moreover have "entry_ok (path, f)" using ok es by simp
    moreover have "?img = concat (map entry_bytes (xs @ (path, f) # ys)) @ eof_bytes hs" using es(1) by simp
    ultimately show ?thesis using gf image_content [of ?img xs "(path, f)" ys "eof_bytes hs"] by simp
  qed
  moreover have "initrd_get_file ?img namebuf path = Some (Inl ENOENT)" if "path \<notin> fst ` set ?es"
    using gf locate_None [of ?es path 0] that by simp
  ultimately show ?thesis using omar_archive_image [OF assms(1-4)] by blast
qed

definition host_demo :: host where
  "host_demo =
     \<lparr>stat = (\<lambda>p. if p = ''r/d'' then Inr \<lparr>st_mode = 493, st_dir = True, st_size = 0, st_data = []\<rparr>
                 else if p = ''r/d/f'' then Inr \<lparr>st_mode = 420, st_dir = False, st_size = 2, st_data = ''hi''\<rparr>
                 else Inl (- 2)),
      readdir = (\<lambda>p. if p = ''r'' then Some [(''.'', DT_DIR), (''d'', DT_DIR)]
                     else if p = ''r/d'' then Some [(''f'', DT_REG)] else None),
      malloc_ok = (\<lambda>_. True), heap_byte = (\<lambda>_. NUL), eof_mode = 0\<rparr>"

definition tree_demo :: "(char list \<times> ftree) list" where
  "tree_demo =
     [(''.'', Folder \<lparr>st_mode = 493, st_dir = True, st_size = 0, st_data = []\<rparr> []),
      (''d'', Folder \<lparr>st_mode = 493, st_dir = True, st_size = 0, st_data = []\<rparr>
         [(''f'', RegFile \<lparr>st_mode = 420, st_dir = False, st_size = 2, st_data = ''hi''\<rparr>)])]"

lemma demo_tree:
  "host_tree host_demo ''r'' tree_demo" "height tree_demo < 3"
  "archived ''r'' ''r'' tree_demo =
     [(''d'', \<lparr>st_mode = 493, st_dir = True, st_size = 0, st_data = []\<rparr>),
      (''d/f'', \<lparr>st_mode = 420, st_dir = False, st_size = 2, st_data = ''hi''\<rparr>)]"
  "\<forall>e \<in> set (archived ''r'' ''r'' tree_demo). archivable host_demo e"
proof -
  have j: "join256 ''r'' ''d'' = ''r/d''" "join256 ''r/d'' ''f'' = ''r/d/f''" by (simp_all add: join256_def)
  have n: "arch_name ''r'' ''d'' = ''d''" "arch_name ''r/d'' ''f'' = ''d/f''" by (simp_all add: arch_name_def j)
  show "host_tree host_demo ''r'' tree_demo"
    by (simp add: host_tree_def tree_demo_def host_demo_def listing_def j)
  show "height tree_demo < 3" by (simp add: tree_demo_def)
  show a: "archived ''r'' ''r'' tree_demo =
     [(''d'', \<lparr>st_mode = 493, st_dir = True, st_size = 0, st_data = []\<rparr>),
      (''d/f'', \<lparr>st_mode = 420, st_dir = False, st_size = 2, st_data = ''hi''\<rparr>)]"
    by (simp add: archived_def tree_demo_def j n)
  show "\<forall>e \<in> set (archived ''r'' ''r'' tree_demo). archivable host_demo e"
    unfolding a by (simp add: archivable_def entry_ok_def host_demo_def)
qed

theorem omar_roundtrip_witness:
  "\<exists>img node. omar_archive 3 host_demo ''r'' ''r'' = Some (0, img) \<and>
    initrd_get_file img (replicate 256 NUL) ''d/f'' = Some (Inr node) \<and>
    take (n_size node) (drop (n_data node) img) = ''hi''"
proof -
  let ?d = "(''d'', \<lparr>st_mode = 493, st_dir = True, st_size = 0, st_data = []\<rparr>)"
  let ?f = "\<lparr>st_mode = 420, st_dir = False, st_size = 2, st_data = ''hi''\<rparr>"
  have "length (replicate 256 NUL) = 256" "NUL \<notin> set ''d/f''" "length ''r'' < 255" by simp_all
  from omar_roundtrip [OF demo_tree(1,2) this(3) demo_tree(4) this(1,2)] obtain img where
    "omar_archive 3 host_demo ''r'' ''r'' = Some (0, img)"
    "\<forall>xs f ys. archived ''r'' ''r'' tree_demo = xs @ (''d/f'', f) # ys \<and> ''d/f'' \<notin> fst ` set xs \<longrightarrow>
      (\<exists>node. initrd_get_file img (replicate 256 NUL) ''d/f'' = Some (Inr node) \<and>
        n_size node = st_size f \<and> n_mode node = st_mode f \<and>
        (\<not> st_dir f \<longrightarrow> take (n_size node) (drop (n_data node) img) = st_data f))" by blast
  from this(2) [rule_format, of "[?d]" ?f "[]"] this(1) show ?thesis by (auto simp: demo_tree(3))
qed

lemma initrd_read_loop_copies:
  assumes "n_data np + n_size np \<le> length img" and "i + k \<le> length dest" and "i + off + k \<le> n_size np"
  shows "initrd_read_loop img np off len k i dest =
    Some (int len, take i dest @ take k (drop (n_data np + off + i) img) @ drop (i + k) dest)"
  using assms(2,3)
proof (induction k arbitrary: i dest)
  case 0
  then show ?case by simp
next
  case (Suc k)
  let ?a = "n_data np + off + i"
  have a: "?a < length img" using Suc.prems(2) assms(1) by simp
  have "initrd_read_loop img np off len (Suc k) i dest =
      initrd_read_loop img np off len k (i + 1) (dest[i := img ! ?a])"
    using Suc.prems a by (simp add: buf_get_def buf_put_def)
  also have "\<dots> = Some (int len, take (i + 1) (dest[i := img ! ?a]) @
      take k (drop (n_data np + off + (i + 1)) img) @ drop (i + 1 + k) (dest[i := img ! ?a]))"
    using Suc.prems by (intro Suc.IH) simp_all
  finally have "initrd_read_loop img np off len (Suc k) i dest = Some (int len, take (i + 1) (dest[i := img ! ?a]) @
      take k (drop (?a + 1) img) @ drop (i + 1 + k) (dest[i := img ! ?a]))" by (simp add: add.assoc)
  moreover have "take (i + 1) (dest[i := img ! ?a]) = take i dest @ [img ! ?a]"
    using Suc.prems(1) take_Suc_update [of i dest "img ! ?a"] by simp
  moreover have "take (Suc k) (drop ?a img) = img ! ?a # take k (drop (?a + 1) img)"
    using Cons_nth_drop_Suc [OF a] by (metis Suc_eq_plus1 take_Suc_Cons)
  ultimately show ?case by simp
qed

lemma initrd_read_loop_eof:
  assumes "n_data np + n_size np \<le> length img" and "i + k \<le> length dest" and "n_size np < i + off + k" and "0 < k"
  shows "\<exists>dest'. initrd_read_loop img np off len k i dest = Some (0, dest') \<and> length dest' = length dest"
  using assms(2-4)
proof (induction k arbitrary: i dest)
  case 0
  then show ?case by simp
next
  case (Suc k)
  show ?case
  proof (cases "i + off \<ge> n_size np")
    case True
    then show ?thesis by simp
  next
    case False
    then have "n_data np + off + i < length img" using assms(1) by simp
    then have "initrd_read_loop img np off len (Suc k) i dest =
        initrd_read_loop img np off len k (i + 1) (dest[i := img ! (n_data np + off + i)])"
      using False Suc.prems by (simp add: buf_get_def buf_put_def)
    moreover have "0 < k" using False Suc.prems(2) by simp
    ultimately show ?thesis
      using Suc.IH [of "i + 1" "dest[i := img ! (n_data np + off + i)]"] Suc.prems by simp
  qed
qed

text \<open>
  A read at offset \<open>off\<close> of a node inside the image, with room for the
  bytes in the destination, never leaves either array.  It returns the number of bytes asked for
  (at most the size of the file) and stores them when they all lie inside the file; when they do
  not it returns 0, although the bytes up to the end of the file have been stored.
\<close>

theorem initrd_read_bytes:
  assumes "n_data np + n_size np \<le> length img" and "min len (n_size np) \<le> length dest"
  shows "if off + min len (n_size np) \<le> n_size np
     then initrd_read img (Some np) off len (Some dest) =
       Some (int (min len (n_size np)),
             Some (take (min len (n_size np)) (drop (n_data np + off) img) @ drop (min len (n_size np)) dest))
     else \<exists>dest'. initrd_read img (Some np) off len (Some dest) = Some (0, Some dest') \<and>
       length dest' = length dest"
proof (cases "off + min len (n_size np) \<le> n_size np")
  case True
  then show ?thesis
    using initrd_read_loop_copies [of np img 0 "min len (n_size np)" dest off "min len (n_size np)"] assms
    by (simp add: initrd_read_def Let_def)
next
  case False
  then show ?thesis
    using initrd_read_loop_eof [of np img 0 "min len (n_size np)" dest off "min len (n_size np)"] assms
    by (cases "min len (n_size np) = 0") (auto simp: initrd_read_def Let_def)
qed

theorem initrd_read_bytes_witness:
  "(\<exists>dest'. initrd_read ''##hello##'' (Some \<lparr>n_data = 2, n_size = 5, n_mode = 0\<rparr>) 3 4 (Some ''....'') =
      Some (0, Some dest') \<and> length dest' = length ''....'') \<and>
   initrd_read ''##hello##'' (Some \<lparr>n_data = 2, n_size = 5, n_mode = 0\<rparr>) 1 4 (Some ''....'') =
      Some (4, Some ''ello'')"
  using initrd_read_bytes [of "\<lparr>n_data = 2, n_size = 5, n_mode = 0\<rparr>" "''##hello##''" 4 "''....''" 3]
    initrd_read_bytes [of "\<lparr>n_data = 2, n_size = 5, n_mode = 0\<rparr>" "''##hello##''" 4 "''....''" 1]
  by (simp add: min_def)

text \<open>The image with the unpadded entry of an empty file in front of the end mark.\<close>

lemma get_file_unpadded:
  assumes "\<not> st_dir f" and "st_size f = 0" and "st_mode f < 2 ^ 32" and "length name < 256" and "NUL \<notin> set name"
    and "length namebuf = 256" and "NUL \<notin> set path" and "path \<noteq> name"
  shows "initrd_get_file (hdr_enc (entry_hdr (name, f)) @ name @ eof_bytes hs) namebuf path = None"
proof -
  let ?h = "entry_hdr (name, f)"
  have hok: "hdr_ok ?h" using assms(2-4) by (simp add: hdr_ok_def entry_hdr_def OMAR_MAGIC_def)
  let ?img = "hdr_enc ?h @ name @ eof_bytes hs"
  have hd: "hdr_dec ?img = Some ?h" by (rule hdr_dec_enc [OF hok])
  have len: "length (hdr_enc ?h) = 15" using hok hdr_enc_length by (simp add: hdr_ok_def)
  obtain t where t: "?img = OMAR_MAGIC @ t" by (simp add: hdr_enc_def entry_hdr_def)
  obtain q where q: "q \<noteq> 0" "strncmp ?img (OMAR_EOF @ [NUL]) 5 = Some q"
    using magic_tests(1) [of t] unfolding t by blast
  have m: "strncmp ?img (OMAR_MAGIC @ [NUL]) 4 = Some 0" unfolding t by (rule magic_tests(2))
  have mc: "memcpy namebuf (drop 15 ?img) (length name) = Some (name @ drop (length name) namebuf)"
    using memcpy_eq [of "length name" namebuf "name @ eof_bytes hs"] assms(4,6) len by simp
  have bp: "buf_put (name @ drop (length name) namebuf) (length name) NUL =
      Some (name @ NUL # drop (Suc (length name)) namebuf)"
    using assms(4,6) by (simp add: buf_put_def list_update_append Cons_nth_drop_Suc [symmetric])
  let ?nb = "name @ NUL # drop (Suc (length name)) namebuf"
  obtain r where r: "strcmp ?nb (path @ [NUL]) = Some r" using strcmp_defined [of ?nb "path @ [NUL]"] by auto
  have "r \<noteq> 0" using strcmp_0_iff [of ?nb "path @ [NUL]"] r assms(5,7,8) by (auto simp: cstr_id)
  have "15 + length name \<le> round_up (15 + length name) 512" "512 dvd round_up (15 + length name) 512"
    by (simp_all add: round_up_ge round_up_dvd)
  then have nx: "512 \<le> omar_next ?h"
    using omar_next_eq [of ?h] hok assms(1,2) by (auto simp: hdr_ok_def entry_hdr_def dvd_imp_le)
  have "length ?img < 512" using len assms(4) hdr_enc_length
    by (simp add: eof_bytes_def hdr_enc_def OMAR_EOF_def)
  then have "drop (omar_next ?h) ?img = []" using nx by simp
  then have "get_file_loop ?img path (replicate 256 NUL) (omar_next ?h) = None"
    by (subst get_file_loop.simps) (simp add: eval_nat_numeral)
  moreover have "get_file_loop ?img path namebuf 0 = get_file_loop ?img path (replicate 256 NUL) (omar_next ?h)"
    using q m hd mc bp r \<open>r \<noteq> 0\<close> assms(4) by (subst get_file_loop.simps) (simp add: entry_hdr_def)
  ultimately show ?thesis by (simp add: initrd_get_file_def)
qed

text \<open>
  C37 (empty files break the image).  Archiving a directory that holds one regular file, which is empty, fails
  to push it after its header has been written and before the padding, but the tool goes on and returns 0.  In the
  image it has written the kernel's lookup of every name but that of the file reads outside the image.
\<close>

theorem omar_empty_file:
  assumes "readdir hs inpath = Some [(d, DT_REG)]" and "\<not> dotted d" and "NUL \<notin> set (name @ d)" and "length name < 255"
    and "stat hs (join256 inpath d) = Inr f" and "\<not> st_dir f" and "st_size f = 0" and "st_mode f < 2 ^ 32"
    and "malloc_ok hs 0" and "0 < fuel"
    and "length namebuf = 256" and "NUL \<notin> set path" and "path \<noteq> arch_name name d"
  shows "fst (file_push hs (Some (join256 inpath d)) (arch_name name d) []) = - errno_code EIO \<and>
    (\<exists>img. omar_archive fuel hs inpath name = Some (0, img) \<and> initrd_get_file img namebuf path = None)"
proof -
  let ?n = "arch_name name d"
  have "length (join256 name d) < 256" by (simp add: join256_def)
  then have n: "length ?n < 256" using length_dropWhile_le [of "(\<noteq>) (CHR ''/'')" "join256 name d"] by (simp add: arch_name_def)
  have "set ?n \<subseteq> set (join256 name d)"
    unfolding arch_name_def using set_drop_subset set_dropWhileD by (metis subsetD subsetI)
  moreover have "NUL \<notin> set (join256 name d)" using assms(3) set_take_subset by (fastforce simp: join256_def)
  ultimately have z: "NUL \<notin> set ?n" by blast
  have r: "strip_root (join256 name d) = Some ?n" using assms(4) by (intro strip_root_join) (simp add: rooted_def)
  have fp: "file_push hs (Some (join256 inpath d)) ?n [] = (- errno_code EIO, hdr_enc (entry_hdr (?n, f)) @ ?n)"
    using assms(5-9) n by (simp add: file_push_def host_read_def entry_hdr_def Let_def)
  obtain fuel' where "fuel = Suc fuel'" using assms(10) by (cases fuel) auto
  then have "omar_archive fuel hs inpath name = Some (0, hdr_enc (entry_hdr (?n, f)) @ ?n @ eof_bytes hs)"
    using assms(1,2) r fp by (simp add: omar_archive_def file_push_def [of hs None] eof_bytes_def Let_def)
  then show ?thesis using fp get_file_unpadded [OF assms(6-8) n z assms(11-13), of hs] by simp
qed

definition host_empty :: host where
  "host_empty = host_demo\<lparr>readdir := \<lambda>_. Some [(''e'', DT_REG)],
     stat := \<lambda>_. Inr \<lparr>st_mode = 420, st_dir = False, st_size = 0, st_data = []\<rparr>\<rparr>"

theorem omar_empty_file_witness:
  "\<exists>img. omar_archive 1 host_empty ''r'' ''r'' = Some (0, img) \<and> initrd_get_file img (replicate 256 NUL) ''f'' = None"
proof -
  have "arch_name ''r'' ''e'' = ''e''" by (simp add: arch_name_def join256_def)
  then show ?thesis
    using omar_empty_file [of host_empty "''r''" "''e''" "''r''" "\<lparr>st_mode = 420, st_dir = False, st_size = 0, st_data = []\<rparr>"
        1 "replicate 256 NUL" "''f''"]
    by (simp add: host_empty_def host_demo_def)
qed

section \<open>Extracting an archive\<close>

text \<open>
  \<^verbatim>\<open>archive_extract\<close> and its helpers: what they do to the host, in order.  Making a directory that
  exists changes nothing, so the results of \<^verbatim>\<open>mkdir\<close> are not looked at, as in the source.
\<close>

datatype host_act = Mkdir "char list" nat | WriteFile "char list" nat "char list"

fun mkpath_loop :: "nat \<Rightarrow> char list \<Rightarrow> char list \<Rightarrow> host_act list" where
  "mkpath_loop mode pre [] = [Mkdir pre mode]"
| "mkpath_loop mode pre (c # p) =
     (if c = CHR ''/'' then [Mkdir pre mode] else []) @ mkpath_loop mode (pre @ [c]) p"

definition mkpath :: "nat \<Rightarrow> char list \<Rightarrow> host_act list" where
  "mkpath mode path =
     (let buf = (if path \<noteq> [] \<and> last path = CHR ''/'' then butlast path else path)
      in mkpath_loop mode (take 1 buf) (drop 1 buf))"

definition extract_single :: "omar_hdr \<Rightarrow> char list \<Rightarrow> char list \<Rightarrow> host_act list" where
  "extract_single hp data path = [WriteFile path (h_mode hp) data]"

text \<open>
  The loop: \<open>None\<close> is a read outside the archive; the return value is \<open>None\<close> after a bad magic, where
  control reaches the end of the function.
\<close>

function extract_loop ::
  "char list \<Rightarrow> char list \<Rightarrow> nat \<Rightarrow> host_act list \<Rightarrow> (int option \<times> host_act list) option" where
  "extract_loop buf outpath p acts =
     (case (memcmp (drop p buf) (OMAR_EOF @ [NUL]) 5, memcmp (drop p buf) (OMAR_MAGIC @ [NUL]) 4) of
        (Some eof, Some magic) \<Rightarrow>
          if eof = 0 then Some (Some 0, acts)
          else if magic \<noteq> 0 then Some (None, acts)
          else
            (case hdr_dec (drop p buf) of
               None \<Rightarrow> None
             | Some hdr \<Rightarrow>
                 if length buf < p + sizeof_omar_hdr + h_namelen hdr then None
                 else
                   (let name = cstr (take (h_namelen hdr) (drop (p + sizeof_omar_hdr) buf) @ [NUL]);
                        pathbuf = join256 outpath name
                    in if h_type hdr = OMAR_DIR then
                         extract_loop buf outpath (p + 512) (acts @ mkpath (h_mode hdr) pathbuf)
                       else if length buf < p + sizeof_omar_hdr + h_namelen hdr + h_len hdr then None
                       else
                         extract_loop buf outpath (p + omar_next hdr)
                           (acts @ extract_single hdr
                              (take (h_len hdr) (drop (p + sizeof_omar_hdr + h_namelen hdr) buf)) pathbuf)))
      | _ \<Rightarrow> None)"
  by pat_completeness auto
termination
  by (relation "measure (\<lambda>(buf, outpath, p, acts). length buf - p)")
    (auto dest: omar_next_pos hdr_dec_drop intro!: diff_less_mono2)

declare extract_loop.simps [simp del]

text \<open>
  The arguments \<open>fd\<close>, \<open>err\<close>, \<open>mem\<close> and \<open>n\<close> are what \<^verbatim>\<open>open\<close>, \<^verbatim>\<open>fstat\<close>, \<^verbatim>\<open>malloc\<close> and \<^verbatim>\<open>read\<close> return, \<open>buf\<close> is
  the buffer after the read.
\<close>

definition archive_extract ::
  "int \<Rightarrow> int \<Rightarrow> bool \<Rightarrow> int \<Rightarrow> char list \<Rightarrow> char list \<Rightarrow> (int option \<times> host_act list) option" where
  "archive_extract fd err mem n buf outpath =
     (if fd < 0 then Some (Some fd, [])
      else if err \<noteq> 0 then Some (Some err, [])
      else if \<not> mem then Some (Some (- errno_code ENOMEM), [])
      else if n \<le> 0 then Some (Some (- errno_code EIO), [])
      else extract_loop buf outpath 0 [])"

definition entry_acts :: "char list \<Rightarrow> omar_entry \<Rightarrow> host_act list" where
  "entry_acts outpath e =
     (if st_dir (snd e) then mkpath (st_mode (snd e)) (join256 outpath (fst e))
      else [WriteFile (join256 outpath (fst e)) (st_mode (snd e)) (st_data (snd e))])"

lemma memcmp_tests:
  "\<exists>r. r \<noteq> 0 \<and> memcmp (OMAR_MAGIC @ t) (OMAR_EOF @ [NUL]) 5 = Some r"
  "memcmp (OMAR_MAGIC @ t) (OMAR_MAGIC @ [NUL]) 4 = Some 0"
  "memcmp (OMAR_EOF @ NUL # t) (OMAR_EOF @ [NUL]) 5 = Some 0"
  "\<exists>r. memcmp (OMAR_EOF @ NUL # t) (OMAR_MAGIC @ [NUL]) 4 = Some r"
  by (simp_all add: OMAR_MAGIC_def OMAR_EOF_def eval_nat_numeral)

lemma extract_entry:
  assumes "entry_ok e" and "drop p img = entry_bytes e @ rest"
  shows "extract_loop img outpath p acts =
    extract_loop img outpath (p + length (entry_bytes e)) (acts @ entry_acts outpath e)"
proof -
  have ok: "hdr_ok (entry_hdr e)" by (rule entry_hdr_ok [OF assms(1)])
  have hl: "length (hdr_enc (entry_hdr e)) = 15" using ok hdr_enc_length by (simp add: hdr_ok_def)
  obtain pad where eb: "entry_bytes e = hdr_enc (entry_hdr e) @ fst e @ entry_data e @ pad"
    by (simp add: entry_bytes_def Let_def)
  obtain t where t: "entry_bytes e @ rest = OMAR_MAGIC @ t"
    by (simp add: eb hdr_enc_def entry_hdr_def)
  have hd: "hdr_dec (drop p img) = Some (entry_hdr e)"
    unfolding assms(2) eb append_assoc by (rule hdr_dec_enc [OF ok])
  have lt: "p < length img" by (rule hdr_dec_drop [OF hd])
  have d: "drop (p + k) img = drop k (entry_bytes e @ rest)" for k
    using assms(2) by (metis add.commute drop_drop)
  have len: "length img = p + length (entry_bytes e @ rest)"
    using arg_cong [OF assms(2), of length] lt by simp
  have dn: "drop (p + 15) img = fst e @ entry_data e @ pad @ rest"
    using d [of 15] hl by (simp add: eb)
  have dd: "drop (p + 15 + length (fst e)) img = entry_data e @ pad @ rest"
    using d [of "15 + length (fst e)"] hl by (simp add: eb add.assoc)
  have nm: "cstr (take (length (fst e)) (drop (p + 15) img) @ [NUL]) = fst e"
    using assms(1) by (simp add: dn cstr_id entry_ok_def)
  obtain q where q: "q \<noteq> 0" "memcmp (drop p img) (OMAR_EOF @ [NUL]) 5 = Some q"
    using memcmp_tests(1) [of t] unfolding assms(2) t by blast
  have m: "memcmp (drop p img) (OMAR_MAGIC @ [NUL]) 4 = Some 0"
    unfolding assms(2) t by (rule memcmp_tests(2))
  show ?thesis
  proof (cases "st_dir (snd e)")
    case True
    then have "length (entry_bytes e) = 512"
      using entry_length [OF assms(1)] by (simp add: omar_next_def entry_hdr_def)
    then show ?thesis
      using True q m hd nm len hl
      by (subst extract_loop.simps) (simp add: entry_hdr_def entry_acts_def eb Let_def)
  next
    case False
    then have "st_size (snd e) = length (st_data (snd e))" "entry_data e = st_data (snd e)"
      using assms(1) by (simp_all add: entry_ok_def entry_data_def)
    then show ?thesis
      using False q m hd nm dd len hl entry_length [OF assms(1)]
      by (subst extract_loop.simps) (simp add: entry_hdr_def entry_acts_def extract_single_def eb Let_def)
  qed
qed

lemma extract_image:
  assumes "\<forall>e \<in> set es. entry_ok e" and "drop p img = concat (map entry_bytes es) @ eof_bytes hs"
  shows "extract_loop img outpath p acts = Some (Some 0, acts @ concat (map (entry_acts outpath) es))"
  using assms
proof (induction es arbitrary: p acts)
  case Nil
  obtain t where t: "eof_bytes hs = OMAR_EOF @ NUL # t"
    by (simp add: eof_bytes_def hdr_enc_def char_of_0)
  obtain r where "memcmp (drop p img) (OMAR_MAGIC @ [NUL]) 4 = Some r"
    using memcmp_tests(4) [of t] Nil.prems(2) t by auto
  moreover have "memcmp (drop p img) (OMAR_EOF @ [NUL]) 5 = Some 0"
    using memcmp_tests(3) [of t] Nil.prems(2) t by simp
  ultimately show ?case by (subst extract_loop.simps) simp
next
  case (Cons e es)
  have d: "drop p img = entry_bytes e @ (concat (map entry_bytes es) @ eof_bytes hs)"
    using Cons.prems(2) by simp
  have d': "drop (p + length (entry_bytes e)) img = concat (map entry_bytes es) @ eof_bytes hs"
    using d by (metis add.commute append_eq_conv_conj drop_drop)
  have "entry_ok e" using Cons.prems(1) by simp
  from extract_entry [OF this d] Cons.IH [OF _ d'] Cons.prems(1) show ?case by simp
qed

text \<open>
  C22 (extraction inverts archiving).  Archiving a finite directory tree whose regular files are not empty and fit their
  headers ends with 0, for every bound on the depth above the height of the tree, and extracting the archive returns 0
  and replays the tree in order: a directory entry makes its directories, a regular file is written with its mode and
  exactly its content.
\<close>

theorem omar_extract_inverts:
  assumes "host_tree hs inpath ts" and "height ts < fuel" and "length name < 255"
    and "\<forall>e \<in> set (archived inpath name ts). archivable hs e" and "0 \<le> fd" and "0 < n"
  shows "\<exists>img. omar_archive fuel hs inpath name = Some (0, img) \<and>
    archive_extract fd 0 True n img outpath = Some (Some 0, concat (map (entry_acts outpath) (archived inpath name ts)))"
proof -
  let ?img = "concat (map entry_bytes (archived inpath name ts)) @ eof_bytes hs"
  have "\<forall>e \<in> set (archived inpath name ts). entry_ok e" using assms(4) by (simp add: archivable_def)
  from extract_image [OF this, of 0 ?img hs outpath "[]"] assms(5,6)
  have "archive_extract fd 0 True n ?img outpath = Some (Some 0, concat (map (entry_acts outpath) (archived inpath name ts)))"
    by (simp add: archive_extract_def)
  then show ?thesis using omar_archive_image [OF assms(1-4)] by blast
qed

theorem omar_extract_inverts_witness:
  "\<exists>img. omar_archive 3 host_demo ''r'' ''r'' = Some (0, img) \<and>
    archive_extract 3 0 True 1024 img ''o'' =
      Some (Some 0, [Mkdir ''o'' 493, Mkdir ''o/d'' 493, WriteFile ''o/d/f'' 420 ''hi''])"
proof -
  have j: "join256 ''o'' ''d'' = ''o/d''" "join256 ''o'' ''d/f'' = ''o/d/f''" by (simp_all add: join256_def)
  have "length ''r'' < 255" by simp
  from omar_extract_inverts [OF demo_tree(1,2) this demo_tree(4), of 3 1024 "''o''"] show ?thesis
    by (simp add: demo_tree(3) entry_acts_def mkpath_def j)
qed

end
