(* ===== verification/Os_Vnode.thy ===== *)
theory Os_Vnode
  imports Omar
begin

text \<open>
  Vnodes and the state of the file systems (\<^verbatim>\<open>os/vnode.h\<close>, \<^verbatim>\<open>sys/mount.h\<close>, the allocation part of
  \<^verbatim>\<open>os/vfs_subr.c\<close>).  Objects on the kernel heap are named by the number of the allocation that made them;
  \<open>junk n i\<close> is the byte at offset \<open>i\<close> of the memory that allocation \<open>n\<close> returns before it is written.
  Path names are given by their characters, without the terminating NUL.
\<close>

datatype vtype = VTYPE_NONE | VTYPE_FILE | VTYPE_DIR | VTYPE_SOCK | VTYPE_CDEV

text \<open>The addresses of the operation vectors and what the data pointer of a vnode can point to.\<close>

datatype vops = OMAR_VOPS | TMPFS_VOPS | DEVFS_VOPS

datatype vdata = VD_tmpfs nat | VD_devfs nat | VD_initrd initrd_node

record vnode =
  refcount :: u32
  v_type :: vtype
  v_ops :: "vops option"
  v_data :: "vdata option"

record tmpfs_node =
  t_id :: nat
  t_name :: "char list"
  t_dptr :: nat
  t_data :: "char list"
  t_len :: u64
  t_real_len :: u64
  t_ref :: u32
  t_vtype :: vtype

datatype dev_type = DEVFS_NONE | DEVFS_CDEV

record devfs_node =
  d_id :: nat
  d_name :: "char list"
  d_type :: dev_type
  d_dev :: nat

record mount =
  m_vp :: "nat option"
  m_fs :: nat
  m_name :: "char list"

record fs_info =
  fs_name :: "char list"
  fs_vops :: vops
  fs_attr :: u16

record fstate =
  heap :: kheap
  junk :: "nat \<Rightarrow> nat \<Rightarrow> char"
  vnodes :: "nat \<Rightarrow> vnode option"
  tmpfs :: "tmpfs_node list"
  nodelist :: "devfs_node list"
  initrd_root :: "char list option"
  fstab :: "fs_info list"
  mlist_i :: bool
  mlist :: "mount list"

abbreviation FS_ATTR_IMAGE :: u16 where "FS_ATTR_IMAGE \<equiv> 1"

definition MOUNT_INITRD :: string where "MOUNT_INITRD = ''initrd''"
definition MOUNT_DEVFS :: string where "MOUNT_DEVFS = ''devfs''"
definition MOUNT_TMPFS :: string where "MOUNT_TMPFS = ''tmpfs''"

abbreviation FSNAME_MAX :: nat where "FSNAME_MAX \<equiv> 16"
abbreviation NAME_MAX :: nat where "NAME_MAX \<equiv> 256"

definition sizeof_vnode :: nat where "sizeof_vnode = 24"

section \<open>Allocation and references\<close>

definition vfs_pathc_valid :: "char \<Rightarrow> bool" where
  "vfs_pathc_valid c \<longleftrightarrow>
     (schar (CHR ''a'') \<le> schar c \<and> schar c \<le> schar (CHR ''z'')) \<or>
     (schar (CHR ''A'') \<le> schar c \<and> schar c \<le> schar (CHR ''Z'')) \<or>
     (schar (CHR ''0'') \<le> schar c \<and> schar c \<le> schar (CHR ''9'')) \<or> c = CHR ''/''"

definition vfs_valloc :: "vtype \<Rightarrow> fstate \<Rightarrow> nat res \<times> fstate" where
  "vfs_valloc type s =
     (case kalloc sizeof_vnode (heap s) of
        (None, h) \<Rightarrow> (Inl ENOMEM, s\<lparr>heap := h\<rparr>)
      | (Some n, h) \<Rightarrow>
          (Inr n, s\<lparr>heap := h,
                    vnodes := (vnodes s)(n \<mapsto> \<lparr>refcount = 1, v_type = type, v_ops = None, v_data = None\<rparr>)\<rparr>))"

text \<open>\<open>None\<close> is an access to a vnode that is not allocated.\<close>

definition vnode_ref :: "nat \<Rightarrow> fstate \<Rightarrow> fstate option" where
  "vnode_ref vp s =
     (case vnodes s vp of
        None \<Rightarrow> None
      | Some v \<Rightarrow> Some (s\<lparr>vnodes := (vnodes s)(vp \<mapsto> v\<lparr>refcount := refcount v + 1\<rparr>)\<rparr>))"

definition vfs_vrel :: "nat option \<Rightarrow> fstate \<Rightarrow> (unit res \<times> fstate) option" where
  "vfs_vrel vp s =
     (case vp of
        None \<Rightarrow> Some (Inl EINVAL, s)
      | Some vp \<Rightarrow>
          (case vnodes s vp of
             None \<Rightarrow> None
           | Some v \<Rightarrow>
               (let r = refcount v - 1
                in if 1 < r then Some (Inr (), s\<lparr>vnodes := (vnodes s)(vp \<mapsto> v\<lparr>refcount := r\<rparr>)\<rparr>)
                   else Some (Inr (), s\<lparr>vnodes := (vnodes s)(vp := None), heap := kfree (Some vp) (heap s)\<rparr>))))"

section \<open>Counting path components\<close>

fun skip_slashes :: "char list \<Rightarrow> char list" where
  "skip_slashes [] = []"
| "skip_slashes (c # p) = (if c = CHR ''/'' then skip_slashes p else c # p)"

text \<open>
  The two inner loops of \<^verbatim>\<open>vfs_cmp_cnt\<close>.  \<open>err\<close> is the local variable \<^verbatim>\<open>error\<close>: it keeps the verdict on the
  last character scanned.
\<close>

fun scan_component :: "char list \<Rightarrow> bool \<Rightarrow> char list \<times> bool" where
  "scan_component [] err = ([], err)"
| "scan_component (c # p) err =
     (if c = CHR ''/'' then (c # p, err) else scan_component p (\<not> vfs_pathc_valid c))"

lemma skip_slashes_length: "length (skip_slashes p) \<le> length p"
  by (induction p) auto

lemma scan_component_length: "scan_component p err = (q, e) \<Longrightarrow> length q \<le> length p"
  by (induction p err arbitrary: q e rule: scan_component.induct) (auto split: if_splits)

lemma component_shorter:
  "scan_component (skip_slashes p) err = (c # q, e) \<Longrightarrow> length q < length p"
  using scan_component_length [of "skip_slashes p" err "c # q" e] skip_slashes_length [of p] by simp

function cmp_cnt_loop :: "char list \<Rightarrow> bool \<Rightarrow> int \<Rightarrow> int" where
  "cmp_cnt_loop p err cnt =
     (case p of
        [] \<Rightarrow> cnt + 1
      | _ # _ \<Rightarrow>
          (case scan_component (skip_slashes p) err of
             (q, err) \<Rightarrow>
               if err then - errno_code EINVAL
               else (case q of [] \<Rightarrow> cnt + 1 | _ # q' \<Rightarrow> cmp_cnt_loop q' err (cnt + 1))))"
  by pat_completeness auto
termination
  by (relation "measure (\<lambda>(p, err, cnt). length p)") (auto simp del: skip_slashes.simps dest!: component_shorter [OF sym])

declare cmp_cnt_loop.simps [simp del]

text \<open>\<open>err0\<close> is what the uninitialised \<^verbatim>\<open>error\<close> holds: whether it is negative.\<close>

definition vfs_cmp_cnt :: "bool \<Rightarrow> char list option \<Rightarrow> int" where
  "vfs_cmp_cnt err0 path =
     (case path of
        None \<Rightarrow> - errno_code EINVAL
      | Some p \<Rightarrow>
          if take 1 p \<noteq> ''/'' then - errno_code ENOENT
          else if p = ''/'' then 1
          else cmp_cnt_loop p err0 0)"

end
