(* ===== verification/Os_Tmpfs.thy ===== *)
theory Os_Tmpfs
  imports Os_Vnode
begin

text \<open>
  The temporary file system, \<^verbatim>\<open>sys/fs/tmpfs.c\<close>.  A node owns the buffer \<open>t_data\<close>; \<open>t_len\<close> is the length the
  node records for it and \<open>t_real_len\<close> the length of the file.  Lengths and offsets are 64-bit words, and a
  copy that leaves a buffer is \<open>None\<close>.
\<close>

abbreviation TMPFS_NAMEMAX :: nat where "TMPFS_NAMEMAX \<equiv> 128"
abbreviation TMPFS_INIT_SIZE :: nat where "TMPFS_INIT_SIZE \<equiv> 8"

definition sizeof_tmpfs_node :: nat where "sizeof_tmpfs_node = 176"

section \<open>Nodes\<close>

definition tmpfs_new :: "char list option \<Rightarrow> vtype \<Rightarrow> fstate \<Rightarrow> nat res \<times> fstate" where
  "tmpfs_new name type s =
     (case name of
        None \<Rightarrow> (Inl EINVAL, s)
      | Some name \<Rightarrow>
          if TMPFS_NAMEMAX - 1 < length name then (Inl ENAMETOOLONG, s)
          else
            (case kalloc sizeof_tmpfs_node (heap s) of
               (None, h) \<Rightarrow> (Inl ENOMEM, s\<lparr>heap := h\<rparr>)
             | (Some n, h) \<Rightarrow>
                 (case kalloc TMPFS_INIT_SIZE h of
                    (None, h) \<Rightarrow> (Inl ENOMEM, s\<lparr>heap := kfree (Some n) h\<rparr>)
                  | (Some d, h) \<Rightarrow>
                      (Inr n,
                       s\<lparr>heap := h,
                         tmpfs := tmpfs s @
                           [\<lparr>t_id = n, t_name = name @ replicate (TMPFS_NAMEMAX - length name) NUL, t_dptr = d,
                             t_data = replicate TMPFS_INIT_SIZE NUL, t_len = of_nat TMPFS_INIT_SIZE,
                             t_real_len = 0, t_ref = 1, t_vtype = type\<rparr>]\<rparr>))))"

fun find_name :: "char list \<Rightarrow> tmpfs_node list \<Rightarrow> tmpfs_node option" where
  "find_name name [] = None"
| "find_name name (np # ns) = (if streq (t_name np) name then Some np else find_name name ns)"

definition tmpfs_byname :: "char list option \<Rightarrow> fstate \<Rightarrow> tmpfs_node res" where
  "tmpfs_byname name s =
     (case name of
        None \<Rightarrow> Inl EINVAL
      | Some name \<Rightarrow> (case find_name name (tmpfs s) of None \<Rightarrow> Inl ENOENT | Some np \<Rightarrow> Inr np))"

text \<open>The node a vnode points to; \<open>None\<close> is a dangling pointer.\<close>

definition node_of :: "nat \<Rightarrow> fstate \<Rightarrow> tmpfs_node option" where
  "node_of n s = find (\<lambda>np. t_id np = n) (tmpfs s)"

definition upd_node :: "nat \<Rightarrow> (tmpfs_node \<Rightarrow> tmpfs_node) \<Rightarrow> fstate \<Rightarrow> fstate" where
  "upd_node n f s = s\<lparr>tmpfs := map (\<lambda>np. if t_id np = n then f np else np) (tmpfs s)\<rparr>"

definition set_vnode :: "nat \<Rightarrow> vops \<Rightarrow> vdata option \<Rightarrow> fstate \<Rightarrow> fstate" where
  "set_vnode vp ops d s =
     s\<lparr>vnodes := (vnodes s)(vp := map_option (\<lambda>v. v\<lparr>v_ops := Some ops, v_data := d\<rparr>) (vnodes s vp))\<rparr>"

section \<open>Operations\<close>

definition tmpfs_lookup :: "char list option \<Rightarrow> fstate \<Rightarrow> nat res \<times> fstate" where
  "tmpfs_lookup name s =
     (case tmpfs_byname name s of
        Inl e \<Rightarrow> (Inl e, s)
      | Inr np \<Rightarrow>
          (case vfs_valloc (t_vtype np) s of
             (Inl e, s) \<Rightarrow> (Inl e, s)
           | (Inr vp, s) \<Rightarrow>
               (Inr vp,
                set_vnode vp TMPFS_VOPS (Some (VD_tmpfs (t_id np)))
                  (upd_node (t_id np) (\<lambda>np. np\<lparr>t_ref := t_ref np + 1\<rparr>) s))))"

definition tmpfs_create :: "char list option \<Rightarrow> vtype \<Rightarrow> fstate \<Rightarrow> unit res \<times> fstate" where
  "tmpfs_create path type s =
     (if is_ok (tmpfs_byname path s) then (Inl EEXIST, s)
      else if type \<noteq> VTYPE_FILE \<and> type \<noteq> VTYPE_SOCK then (Inl ENOTSUP, s)
      else map_prod (map_sum id (\<lambda>_. ())) id (tmpfs_new path type s))"

definition tmpfs_init :: "fstate \<Rightarrow> fstate" where
  "tmpfs_init s = s\<lparr>tmpfs := []\<rparr>"

definition tmpfs_mount :: "fstate \<Rightarrow> nat res \<times> fstate" where
  "tmpfs_mount s =
     (case vfs_valloc VTYPE_DIR s of
        (Inl e, s) \<Rightarrow> (Inl e, s)
      | (Inr vp, s) \<Rightarrow> (Inr vp, set_vnode vp TMPFS_VOPS None s))"

text \<open>
  What \<^verbatim>\<open>krealloc\<close> returns: the old bytes, then unspecified ones.  In \<open>node_write\<close> a reallocation to 0 bytes
  has freed the buffer that the node keeps, so none of its bytes can be accessed any more.
\<close>

definition resize :: "(nat \<Rightarrow> char) \<Rightarrow> nat \<Rightarrow> char list \<Rightarrow> char list" where
  "resize j n xs = take n xs @ map j [length xs..<n]"

definition node_write ::
  "(nat \<Rightarrow> nat \<Rightarrow> char) \<Rightarrow> char list \<Rightarrow> u64 \<Rightarrow> u64 \<Rightarrow> tmpfs_node \<Rightarrow> kheap \<Rightarrow> (u64 res \<times> tmpfs_node \<times> kheap) option" where
  "node_write jk data off len np h =
     (let store = (\<lambda>np h.
            (let np = np\<lparr>t_real_len := t_real_len np + len\<rparr>
             in map_option (\<lambda>buf. (Inr len, np\<lparr>t_data := buf\<rparr>, h)) (buf_blit (t_data np) (unat off) data)))
      in if length data \<noteq> unat len then None
         else if t_len np < len + off then
           (let overflow_window = len + off - t_len np;
                np = np\<lparr>t_len := t_len np + (overflow_window + 1)\<rparr>
            in case krealloc (t_dptr np) (unat (t_len np)) h of
                 None \<Rightarrow> None
               | Some (None, h) \<Rightarrow> Some (Inl ENOMEM, if t_len np = 0 then np\<lparr>t_data := []\<rparr> else np, h)
               | Some (Some n, h) \<Rightarrow>
                   store (np\<lparr>t_dptr := n, t_data := resize (jk n) (unat (t_len np)) (t_data np)\<rparr>) h)
         else store np h)"

definition tmpfs_write :: "nat option \<Rightarrow> char list \<Rightarrow> u64 \<Rightarrow> u64 \<Rightarrow> fstate \<Rightarrow> (u64 res \<times> fstate) option" where
  "tmpfs_write vp data off len s =
     (case vp of
        None \<Rightarrow> Some (Inl EIO, s)
      | Some vp \<Rightarrow>
          (case vnodes s vp of
             None \<Rightarrow> None
           | Some v \<Rightarrow>
               (case v_data v of
                  None \<Rightarrow> Some (Inl EIO, s)
                | Some (VD_tmpfs n) \<Rightarrow>
                    (case node_of n s of
                       None \<Rightarrow> None
                     | Some np \<Rightarrow>
                         (case node_write (junk s) data off len np (heap s) of
                            None \<Rightarrow> None
                          | Some (r, np, h) \<Rightarrow> Some (r, (upd_node n (\<lambda>_. np) s)\<lparr>heap := h\<rparr>)))
                | Some _ \<Rightarrow> None)))"

text \<open>The read returns the count and the destination buffer.\<close>

definition node_read :: "char list \<Rightarrow> u64 \<Rightarrow> u64 \<Rightarrow> tmpfs_node \<Rightarrow> (u64 \<times> char list) option" where
  "node_read dest off len np =
     (if t_real_len np \<le> off then Some (0, dest)
      else
        (let len = (if t_len np < len + off then t_len np else len)
         in if len = 0 then Some (0, dest)
            else if length (t_data np) < unat off + unat len then None
            else map_option (Pair len) (buf_blit dest 0 (take (unat len) (drop (unat off) (t_data np))))))"

definition tmpfs_read ::
  "nat option \<Rightarrow> char list \<Rightarrow> u64 \<Rightarrow> u64 \<Rightarrow> fstate \<Rightarrow> (u64 res \<times> char list) option" where
  "tmpfs_read vp dest off len s =
     (case vp of
        None \<Rightarrow> Some (Inl EIO, dest)
      | Some vp \<Rightarrow>
          (case vnodes s vp of
             None \<Rightarrow> None
           | Some v \<Rightarrow>
               (case v_data v of
                  None \<Rightarrow> Some (Inl EIO, dest)
                | Some (VD_tmpfs n) \<Rightarrow>
                    (case node_of n s of
                       None \<Rightarrow> None
                     | Some np \<Rightarrow> map_option (map_prod Inr id) (node_read dest off len np))
                | Some _ \<Rightarrow> None)))"

definition tmpfs_getattr :: "nat option \<Rightarrow> fstate \<Rightarrow> u64 res option" where
  "tmpfs_getattr vp s =
     (case vp of
        None \<Rightarrow> Some (Inl EINVAL)
      | Some vp \<Rightarrow>
          (case vnodes s vp of
             None \<Rightarrow> None
           | Some v \<Rightarrow>
               (case v_data v of
                  None \<Rightarrow> Some (Inl EIO)
                | Some (VD_tmpfs n) \<Rightarrow>
                    (case node_of n s of None \<Rightarrow> None | Some np \<Rightarrow> Some (Inr (t_real_len np)))
                | Some _ \<Rightarrow> None)))"

definition tmpfs_reclaim :: "fstate \<Rightarrow> unit res \<times> fstate" where
  "tmpfs_reclaim s = (Inr (), s)"

section \<open>The invariant of the file system\<close>

definition node_ok :: "tmpfs_node \<Rightarrow> bool" where
  "node_ok np \<longleftrightarrow> unat (t_len np) = length (t_data np)"

definition tmpfs_inv :: "fstate \<Rightarrow> bool" where
  "tmpfs_inv s \<longleftrightarrow>
     distinct (map t_id (tmpfs s)) \<and> distinct (map (\<lambda>np. cstr (t_name np)) (tmpfs s)) \<and>
     (\<forall>np \<in> set (tmpfs s). node_ok np \<and> t_id np < k_cnt (heap s))"

lemma find_name_eq: "find_name name ns = find (\<lambda>np. cstr (t_name np) = cstr name) ns"
  by (induction ns) (auto simp: streq_cstr)

lemma find_append: "find P (xs @ ys) = (case find P xs of None \<Rightarrow> find P ys | r \<Rightarrow> r)"
  by (induction xs) auto

lemma find_map_upd:
  assumes "\<And>x. P (f x) = P x"
  shows "find P (map f xs) = map_option f (find P xs)"
  using assms by (induction xs) auto

lemma node_of_upd:
  assumes "\<And>np. t_id np = n \<Longrightarrow> t_id (f np) = n"
  shows "node_of m (upd_node n f s) = (if m = n then map_option f (node_of m s) else node_of m s)"
proof -
  have "node_of m (upd_node n f s) = map_option (\<lambda>np. if t_id np = n then f np else np) (node_of m s)"
    unfolding node_of_def upd_node_def using assms by (simp add: find_map_upd)
  moreover have "node_of m s = Some np \<Longrightarrow> t_id np = m" for np
    unfolding node_of_def by (auto simp: find_Some_iff)
  ultimately show ?thesis by (cases "node_of m s") auto
qed

lemma node_of_Some: "node_of n s = Some np \<Longrightarrow> np \<in> set (tmpfs s) \<and> t_id np = n"
  unfolding node_of_def by (auto simp: find_Some_iff)

lemma node_of_heap [simp]: "node_of n (s\<lparr>heap := h\<rparr>) = node_of n s" "node_of n (set_vnode vp ops d s) = node_of n s"
  by (simp_all add: node_of_def set_vnode_def)

lemma upd_node_proj [simp]:
  "heap (upd_node n f s) = heap s" "vnodes (upd_node n f s) = vnodes s" "junk (upd_node n f s) = junk s"
  by (simp_all add: upd_node_def)

lemma map_upd_node:
  assumes "\<And>np. np \<in> set (tmpfs s) \<Longrightarrow> t_id np = n \<Longrightarrow> g (f np) = g np"
  shows "map g (tmpfs (upd_node n f s)) = map g (tmpfs s)"
  using assms by (simp add: upd_node_def)

lemma tmpfs_inv_upd:
  assumes "tmpfs_inv s" and "\<And>np. np \<in> set (tmpfs s) \<Longrightarrow> t_id np = n \<Longrightarrow> t_id (f np) = n \<and> t_name (f np) = t_name np \<and> node_ok (f np)"
    and "k_cnt (heap s) \<le> k_cnt h"
  shows "tmpfs_inv ((upd_node n f s)\<lparr>heap := h\<rparr>)"
proof -
  have "map t_id (tmpfs (upd_node n f s)) = map t_id (tmpfs s)"
    and "map (\<lambda>np. cstr (t_name np)) (tmpfs (upd_node n f s)) = map (\<lambda>np. cstr (t_name np)) (tmpfs s)"
    using assms(2) by (auto intro!: map_upd_node)
  moreover have "\<forall>np \<in> set (tmpfs (upd_node n f s)). node_ok np \<and> t_id np < k_cnt h"
    using assms unfolding tmpfs_inv_def by (auto simp: upd_node_def intro: less_le_trans)
  ultimately show ?thesis using assms(1) by (simp add: tmpfs_inv_def)
qed

lemma resize_length [simp]: "length (resize j n xs) = n"
  by (auto simp: resize_def)

lemma resize_nth: "i < length xs \<Longrightarrow> i < n \<Longrightarrow> resize j n xs ! i = xs ! i"
  by (simp add: resize_def nth_append)

lemma unat_add_le: "unat (a :: u64) + unat b < 2 ^ 64 \<Longrightarrow> unat (a + b) = unat a + unat b"
  by (simp add: unat_add_lem [THEN iffD1])

text \<open>The write grows the buffer to hold the range, and changes that range only.\<close>

lemma node_write_ok:
  assumes ok: "node_ok np" and len: "length data = unat len"
    and fits: "unat off + unat len < KREALLOC_MAX" and mem: "\<not> k_oom h (k_cnt h)"
  shows "\<exists>np' h'. node_write jk data off len np h = Some (Inr len, np', h') \<and> node_ok np' \<and>
    t_id np' = t_id np \<and> t_name np' = t_name np \<and> t_real_len np' = t_real_len np + len \<and>
    k_cnt h \<le> k_cnt h' \<and> length (t_data np) \<le> length (t_data np') \<and>
    unat off + unat len \<le> length (t_data np') \<and> take (unat len) (drop (unat off) (t_data np')) = data \<and>
    (\<forall>i < length (t_data np). i < unat off \<or> unat off + unat len \<le> i \<longrightarrow> t_data np' ! i = t_data np ! i)"
proof -
  have sum: "unat (len + off) = unat off + unat len" using fits by (subst unat_add_le) auto
  show ?thesis
  proof (cases "t_len np < len + off")
    case False
    then have le: "unat off + unat len \<le> length (t_data np)"
      using ok sum by (auto simp: node_ok_def word_less_nat_alt)
    define buf where "buf = take (unat off) (t_data np) @ data @ drop (unat off + unat len) (t_data np)"
    have b: "buf_blit (t_data np) (unat off) data = Some buf" using le len by (simp add: buf_blit_def buf_def)
    show ?thesis
      using False b le ok buf_blit_length [OF b] buf_blit_read [OF b] buf_blit_frame [OF b] len
      by (auto simp: node_write_def node_ok_def)
  next
    case True
    define L where "L = t_len np + (len + off - t_len np + 1)"
    have L': "L = len + off + 1" by (simp add: L_def)
    have uL: "unat L = unat off + unat len + 1"
    proof -
      have "unat (len + off) + unat (1::u64) < 2 ^ 64" using sum fits by simp
      then show ?thesis unfolding L' by (subst unat_add_le) (use sum in auto)
    qed
    have gt: "length (t_data np) < unat off + unat len"
      using True ok sum by (auto simp: node_ok_def word_less_nat_alt)
    define d where "d = resize (jk (k_cnt h)) (unat L) (t_data np)"
    have dl: "length d = unat L" by (simp add: d_def)
    define buf where "buf = take (unat off) d @ data @ drop (unat off + unat len) d"
    have b: "buf_blit d (unat off) data = Some buf" using dl uL len by (simp add: buf_blit_def buf_def)
    have pre: "i < length (t_data np) \<Longrightarrow> d ! i = t_data np ! i" for i
      using gt uL by (simp add: d_def resize_nth)
    have Lne: "unat L \<noteq> 0" "unat L \<le> KREALLOC_MAX" using uL fits by auto
    have kr: "krealloc (t_dptr np) (unat L) h = Some (Some (k_cnt h), h\<lparr>k_cnt := k_cnt h + 1, k_live := k_cnt h # remove1 (t_dptr np) (k_live h)\<rparr>)"
      using Lne mem by (simp add: krealloc_def Let_def)
    have "node_write jk data off len np h =
        Some (Inr len, np\<lparr>t_len := L, t_dptr := k_cnt h, t_real_len := t_real_len np + len, t_data := buf\<rparr>,
          h\<lparr>k_cnt := k_cnt h + 1, k_live := k_cnt h # remove1 (t_dptr np) (k_live h)\<rparr>)"
      using True len kr b unfolding L_def d_def by (simp add: node_write_def Let_def)
    then show ?thesis
      using buf_blit_length [OF b] buf_blit_read [OF b] buf_blit_frame [OF b] len dl uL gt pre
      by (auto simp: node_ok_def)
  qed
qed

text \<open>Reading a range inside the buffer and below the end of the file.\<close>

lemma node_read_ok:
  assumes "node_ok np" and "off < t_real_len np" and "unat off + unat len \<le> length (t_data np)" and "0 < len"
    and "length dest = unat len"
  shows "node_read dest off len np = Some (len, take (unat len) (drop (unat off) (t_data np)))"
proof -
  have "unat (t_len np) < 2 ^ LENGTH(64)" by (rule unsigned_less)
  then have l: "length (t_data np) < 2 ^ 64" using assms(1) by (simp add: node_ok_def)
  then have "unat (len + off) = unat off + unat len" using assms(3) by (subst unat_add_le) auto
  then have "\<not> t_len np < len + off" using assms(1,3) by (auto simp: node_ok_def word_less_nat_alt)
  then show ?thesis using assms by (auto simp: node_read_def buf_blit_def Let_def)
qed
section \<open>Properties\<close>

text \<open>A file system with one file of four bytes, and a vnode for it.\<close>

definition ex_heap :: kheap where
  "ex_heap = \<lparr>k_init = True, k_oom = \<lambda>_. False, k_addr = \<lambda>_. 0, k_cnt = 3, k_live = [2, 1, 0]\<rparr>"

definition ex_node :: tmpfs_node where
  "ex_node = \<lparr>t_id = 0, t_name = ''a'' @ [NUL], t_dptr = 1, t_data = ''abcd'' @ replicate 4 NUL, t_len = 8,
     t_real_len = 4, t_ref = 1, t_vtype = VTYPE_FILE\<rparr>"

definition ex_vnode :: vnode where
  "ex_vnode = \<lparr>refcount = 1, v_type = VTYPE_FILE, v_ops = Some TMPFS_VOPS, v_data = Some (VD_tmpfs 0)\<rparr>"

definition ex_fs :: fstate where
  "ex_fs = \<lparr>heap = ex_heap, junk = \<lambda>_ _. NUL, vnodes = [2 \<mapsto> ex_vnode], tmpfs = [ex_node], nodelist = [],
     initrd_root = None, fstab = [], mlist_i = False, mlist = []\<rparr>"

lemmas ex_simps = ex_heap_def ex_node_def ex_vnode_def ex_fs_def

lemma ex_fs_ok:
  "tmpfs_inv ex_fs" "vnodes ex_fs 2 = Some ex_vnode" "v_data ex_vnode = Some (VD_tmpfs 0)"
  "node_of 0 ex_fs = Some ex_node" "\<not> k_oom (heap ex_fs) (k_cnt (heap ex_fs))" "t_real_len ex_node = 4"
  "t_len ex_node = 8"
  by (simp_all add: ex_simps tmpfs_inv_def node_ok_def node_of_def)

lemma tmpfs_write_ok:
  assumes inv: "tmpfs_inv s" and vp: "vnodes s vp = Some v" "v_data v = Some (VD_tmpfs n)" "node_of n s = Some np"
    and data: "length data = unat len" "0 < len"
    and off: "off \<le> t_real_len np" "unat (t_real_len np) + unat len < 2 ^ 64" "unat off + unat len < KREALLOC_MAX"
    and mem: "\<not> k_oom (heap s) (k_cnt (heap s))"
  shows "\<exists>s' np'. tmpfs_write (Some vp) data off len s = Some (Inr len, s') \<and>
    (\<forall>dest. length dest = unat len \<longrightarrow> tmpfs_read (Some vp) dest off len s' = Some (Inr len, data)) \<and>
    tmpfs_inv s' \<and> vnodes s' = vnodes s \<and> node_of n s' = Some np' \<and>
    (\<forall>i < length (t_data np). i < unat off \<or> unat off + unat len \<le> i \<longrightarrow> t_data np' ! i = t_data np ! i) \<and>
    (\<forall>m. m \<noteq> n \<longrightarrow> node_of m s' = node_of m s)"
proof -
  have np: "np \<in> set (tmpfs s)" "t_id np = n" using node_of_Some [OF vp(3)] by auto
  then have ok: "node_ok np" using inv by (simp add: tmpfs_inv_def)
  obtain np' h' where w: "node_write (junk s) data off len np (heap s) = Some (Inr len, np', h')" "node_ok np'"
      "t_id np' = t_id np" "t_name np' = t_name np" "t_real_len np' = t_real_len np + len"
      "k_cnt (heap s) \<le> k_cnt h'" "unat off + unat len \<le> length (t_data np')"
      "take (unat len) (drop (unat off) (t_data np')) = data"
      "\<forall>i < length (t_data np). i < unat off \<or> unat off + unat len \<le> i \<longrightarrow> t_data np' ! i = t_data np ! i"
    using node_write_ok [OF ok data(1) off(3) mem, of "junk s"] by blast
  define s' where "s' = (upd_node n (\<lambda>_. np') s)\<lparr>heap := h'\<rparr>"
  have n': "node_of m s' = (if m = n then Some np' else node_of m s)" for m
    using node_of_upd [of n "\<lambda>_. np'" m s] w(3) np(2) vp(3) by (simp add: s'_def)
  have "unat (t_real_len np') = unat (t_real_len np) + unat len"
    using off(2) by (simp add: w(5) unat_add_le)
  then have "off < t_real_len np'" using off(1) data(2) by (simp add: word_less_nat_alt word_le_nat_alt)
  then have r: "node_read dest off len np' = Some (len, data)" if "length dest = unat len" for dest
    using node_read_ok [OF w(2) _ w(7) data(2) that] w(8) by simp
  have u: "np'' = np" if "np'' \<in> set (tmpfs s)" "t_id np'' = n" for np''
    using inv that np by (auto simp: tmpfs_inv_def distinct_map inj_on_def)
  have "tmpfs_inv s'"
    unfolding s'_def by (rule tmpfs_inv_upd [OF inv _ w(6)]) (use u w np in auto)
  moreover have "tmpfs_write (Some vp) data off len s = Some (Inr len, s')"
    using vp w(1) by (simp add: tmpfs_write_def s'_def)
  moreover have "tmpfs_read (Some vp) dest off len s' = Some (Inr len, data)" if "length dest = unat len" for dest
    using vp n' [of n] r [OF that] by (simp add: tmpfs_read_def s'_def)
  moreover have "vnodes s' = vnodes s" by (simp add: s'_def)
  ultimately show ?thesis using n' w(9) by auto
qed

text \<open>
  C18 (\<^verbatim>\<open>tmpfs_write\<close>, \<^verbatim>\<open>tmpfs_read\<close>).  Writing \<open>len\<close> bytes at an offset that is not past the end of a file succeeds when
  the allocator can serve the request, and reading the same range then returns exactly these bytes; every other
  byte of the file and every other file keep their contents, and the file system stays well formed.
\<close>

theorem tmpfs_write_read:
  assumes inv: "tmpfs_inv s" and vp: "vnodes s vp = Some v" "v_data v = Some (VD_tmpfs n)" "node_of n s = Some np"
    and data: "length data = unat len" "0 < len" "length dest = unat len"
    and off: "off \<le> t_real_len np" "unat (t_real_len np) + unat len < 2 ^ 64" "unat off + unat len < KREALLOC_MAX"
    and mem: "\<not> k_oom (heap s) (k_cnt (heap s))"
  shows "\<exists>s' np'. tmpfs_write (Some vp) data off len s = Some (Inr len, s') \<and>
    tmpfs_read (Some vp) dest off len s' = Some (Inr len, data) \<and> tmpfs_inv s' \<and>
    node_of n s' = Some np' \<and>
    (\<forall>i < length (t_data np). i < unat off \<or> unat off + unat len \<le> i \<longrightarrow> t_data np' ! i = t_data np ! i) \<and>
    (\<forall>m. m \<noteq> n \<longrightarrow> node_of m s' = node_of m s)"
  using tmpfs_write_ok [OF inv vp data(1,2) off mem] data(3) by blast

theorem tmpfs_write_read_witness:
  "\<exists>s' np'. tmpfs_write (Some 2) ''efghij'' 4 6 ex_fs = Some (Inr 6, s') \<and>
    tmpfs_read (Some 2) (replicate 6 NUL) 4 6 s' = Some (Inr 6, ''efghij'') \<and> tmpfs_inv s' \<and>
    node_of 0 s' = Some np' \<and> t_data np' ! 0 = CHR ''a''"
proof -
  have "0 < length (t_data ex_node)" "t_data ex_node ! 0 = CHR ''a''" by (simp_all add: ex_simps)
  with tmpfs_write_read [OF ex_fs_ok(1-4), of "''efghij''" 6 "replicate 6 NUL" 4] ex_fs_ok(5,6)
  show ?thesis by fastforce
qed

text \<open>
  A read whose range crosses the end of the buffer and does not start at offset 0 leaves the buffer:
  the length is replaced by the length of the whole buffer instead of the bytes that are left.
\<close>

theorem tmpfs_read_overrun:
  assumes "tmpfs_inv s" and "vnodes s vp = Some v" and "v_data v = Some (VD_tmpfs n)" and "node_of n s = Some np"
    and "0 < off" and "off < t_real_len np" and "0 < t_len np"
    and "unat (t_len np) < unat off + unat len" and "unat off + unat len < 2 ^ 64"
  shows "tmpfs_read (Some vp) dest off len s = None"
proof -
  have ok: "unat (t_len np) = length (t_data np)"
    using assms(1) node_of_Some [OF assms(4)] by (auto simp: tmpfs_inv_def node_ok_def)
  have "t_len np < len + off"
    using assms(8,9) by (simp add: word_less_nat_alt unat_add_le add.commute)
  moreover have "length (t_data np) < unat off + unat (t_len np)"
    using ok assms(5) by (simp add: word_less_nat_alt)
  ultimately have "node_read dest off len np = None"
    using assms(6,7) by (auto simp: node_read_def Let_def)
  then show ?thesis using assms by (simp add: tmpfs_read_def)
qed

theorem tmpfs_read_overrun_witness: "tmpfs_read (Some 2) (replicate 7 NUL) 2 7 ex_fs = None"
  using tmpfs_read_overrun [OF ex_fs_ok(1-4), of 2 7 "replicate 7 NUL"] ex_fs_ok(6,7) by simp

lemma tmpfs_new_ok:
  assumes inv: "tmpfs_inv s" and new: "tmpfs_new (Some name) type s = (Inr n, s')"
    and nul: "NUL \<notin> set name" and fresh: "find_name name (tmpfs s) = None"
  shows "\<exists>np. tmpfs s' = tmpfs s @ [np] \<and> t_id np = n \<and> cstr (t_name np) = name \<and> t_vtype np = type \<and>
    t_real_len np = 0 \<and> node_of n s = None \<and> vnodes s' = vnodes s \<and> tmpfs_inv s'"
proof -
  from new obtain h d h' where k: "kalloc sizeof_tmpfs_node (heap s) = (Some n, h)"
      "kalloc TMPFS_INIT_SIZE h = (Some d, h')" and len: "length name \<le> 127"
    and s': "s' = s\<lparr>heap := h', tmpfs := tmpfs s @
        [\<lparr>t_id = n, t_name = name @ replicate (128 - length name) NUL, t_dptr = d,
          t_data = replicate TMPFS_INIT_SIZE NUL, t_len = of_nat TMPFS_INIT_SIZE,
          t_real_len = 0, t_ref = 1, t_vtype = type\<rparr>]\<rparr>"
    by (auto simp: tmpfs_new_def split: if_splits prod.splits option.splits)
  have c: "n = k_cnt (heap s)" "k_cnt h' = k_cnt (heap s) + 2"
    using kalloc_Some [OF k(1)] kalloc_Some [OF k(2)] by auto
  have m: "128 - length name = Suc (127 - length name)" using len by simp
  have cs: "cstr (name @ replicate (128 - length name) NUL) = name"
    using nul unfolding m by simp
  have "n \<notin> t_id ` set (tmpfs s)" using inv c(1) by (auto simp: tmpfs_inv_def)
  moreover have "name \<notin> (\<lambda>np. cstr (t_name np)) ` set (tmpfs s)"
    using fresh nul by (auto simp: find_name_eq find_None_iff cstr_id)
  ultimately show ?thesis
    using inv c cs by (auto simp: s' tmpfs_inv_def node_of_def find_None_iff node_ok_def)
qed

lemma vfs_valloc_ok:
  assumes "vfs_valloc type s = (Inr vp, s')"
  shows "vp = k_cnt (heap s)" and "k_cnt (heap s') = k_cnt (heap s) + 1" and "tmpfs s' = tmpfs s"
    and "vnodes s' = (vnodes s)(vp \<mapsto> \<lparr>refcount = 1, v_type = type, v_ops = None, v_data = None\<rparr>)"
proof -
  from assms obtain h where k: "kalloc sizeof_vnode (heap s) = (Some vp, h)"
    and s': "s' = s\<lparr>heap := h,
      vnodes := (vnodes s)(vp \<mapsto> \<lparr>refcount = 1, v_type = type, v_ops = None, v_data = None\<rparr>)\<rparr>"
    by (auto simp: vfs_valloc_def split: prod.splits option.splits)
  show "vp = k_cnt (heap s)" and "k_cnt (heap s') = k_cnt (heap s) + 1" and "tmpfs s' = tmpfs s"
    and "vnodes s' = (vnodes s)(vp \<mapsto> \<lparr>refcount = 1, v_type = type, v_ops = None, v_data = None\<rparr>)"
    using kalloc_Some [OF k] by (simp_all add: s')
qed

text \<open>
  C28 (\<^verbatim>\<open>tmpfs_create\<close>, \<^verbatim>\<open>tmpfs_lookup\<close>).  After a name has been created, creating it again fails with \<^verbatim>\<open>EEXIST\<close>, and a lookup
  that can allocate its vnode returns one that refers to the new empty file; no other file changes and the names
  of the file system stay distinct.
\<close>

theorem tmpfs_create_lookup:
  assumes inv: "tmpfs_inv s" and nul: "NUL \<notin> set name"
    and cr: "tmpfs_create (Some name) type s = (Inr (), s1)"
    and mem: "k_init (heap s1)" "\<not> k_oom (heap s1) (k_cnt (heap s1))"
  shows "tmpfs_inv s1 \<and> fst (tmpfs_create (Some name) type' s1) = Inl EEXIST \<and>
    (\<exists>vp s2 v np. tmpfs_lookup (Some name) s1 = (Inr vp, s2) \<and> tmpfs_inv s2 \<and> vnodes s2 vp = Some v \<and>
       v_type v = type \<and> v_ops v = Some TMPFS_VOPS \<and> v_data v = Some (VD_tmpfs (t_id np)) \<and>
       node_of (t_id np) s2 = Some np \<and> cstr (t_name np) = name \<and> t_real_len np = 0 \<and>
       (\<forall>m. node_of m s \<noteq> None \<longrightarrow> node_of m s2 = node_of m s))"
proof -
  have fresh: "find_name name (tmpfs s) = None"
    using cr by (auto simp: tmpfs_create_def tmpfs_byname_def split: if_splits option.splits)
  from cr obtain n where new: "tmpfs_new (Some name) type s = (Inr n, s1)"
    by (cases "tmpfs_new (Some name) type s"; cases "fst (tmpfs_new (Some name) type s)")
       (auto simp: tmpfs_create_def split: if_splits)
  obtain np where np: "tmpfs s1 = tmpfs s @ [np]" "t_id np = n" "cstr (t_name np) = name" "t_vtype np = type"
      "t_real_len np = 0" "node_of n s = None" and inv1: "tmpfs_inv s1"
    using tmpfs_new_ok [OF inv new nul fresh] by blast
  have bn: "tmpfs_byname (Some name) s1 = Inr np"
    using fresh np nul by (simp add: tmpfs_byname_def find_name_eq find_append cstr_id)
  define f where "f = (\<lambda>np. np\<lparr>t_ref := t_ref np + 1\<rparr> :: tmpfs_node)"
  obtain vp sv where va: "vfs_valloc type s1 = (Inr vp, sv)"
    using mem by (auto simp: vfs_valloc_def kalloc_def sizeof_vnode_def Let_def)
  note v = vfs_valloc_ok [OF va]
  define s2 where "s2 = set_vnode vp TMPFS_VOPS (Some (VD_tmpfs n)) (upd_node n f sv)"
  have lk: "tmpfs_lookup (Some name) s1 = (Inr vp, s2)"
    using bn va np by (simp add: tmpfs_lookup_def s2_def f_def)
  have nv: "node_of m sv = (if m = n then Some np else node_of m s)" for m
    using np(1,2,6) v(3) by (auto simp: node_of_def find_append split: option.split)
  have n2: "node_of m s2 = (if m = n then Some (f np) else node_of m s)" for m
    using node_of_upd [of n f m sv] nv by (simp add: s2_def f_def)
  have "tmpfs_inv (sv\<lparr>heap := heap sv\<rparr>)" using inv1 v(2,3) by (auto simp: tmpfs_inv_def)
  then have "tmpfs_inv ((upd_node n f sv)\<lparr>heap := heap sv\<rparr>)"
    using tmpfs_inv_upd [of sv n f "heap sv"] by (auto simp: tmpfs_inv_def f_def node_ok_def)
  then have "tmpfs_inv s2" by (simp add: s2_def set_vnode_def tmpfs_inv_def)
  moreover have "vnodes s2 vp = Some \<lparr>refcount = 1, v_type = type, v_ops = Some TMPFS_VOPS, v_data = Some (VD_tmpfs n)\<rparr>"
    using v(4) by (simp add: s2_def set_vnode_def)
  moreover have "fst (tmpfs_create (Some name) type' s1) = Inl EEXIST"
    using bn by (simp add: tmpfs_create_def)
  ultimately show ?thesis
    using inv1 lk n2 np by (auto simp: f_def intro!: exI [of _ vp] exI [of _ s2] exI [of _ "f np"])
qed

theorem tmpfs_create_lookup_witness:
  "\<exists>s1 s2 vp. tmpfs_create (Some ''b'') VTYPE_FILE ex_fs = (Inr (), s1) \<and> tmpfs_inv s1 \<and>
    fst (tmpfs_create (Some ''b'') VTYPE_SOCK s1) = Inl EEXIST \<and>
    tmpfs_lookup (Some ''b'') s1 = (Inr vp, s2) \<and> node_of 0 s2 = Some ex_node"
proof -
  obtain s1 where c: "tmpfs_create (Some ''b'') VTYPE_FILE ex_fs = (Inr (), s1)"
    and m: "k_init (heap s1)" "\<not> k_oom (heap s1) (k_cnt (heap s1))"
    by (simp add: tmpfs_create_def tmpfs_byname_def tmpfs_new_def find_name_eq kalloc_def sizeof_tmpfs_node_def
        ex_simps Let_def)
  have "NUL \<notin> set ''b''" by simp
  from tmpfs_create_lookup [OF ex_fs_ok(1) this c m, of VTYPE_SOCK] c ex_fs_ok(4) show ?thesis by fastforce
qed

end
