(* ===== verification/Os_Devfs.thy ===== *)
theory Os_Devfs
  imports Os_Tmpfs
begin

text \<open>
  The device file system, \<^verbatim>\<open>sys/fs/devfs.c\<close>, and the null device, \<^verbatim>\<open>os/os_null.c\<close>.  The read routine of a
  character device is the parameter \<open>cdev\<close>: device, buffer, offset and count give the value returned and the
  buffer afterwards.
\<close>

type_synonym cdev_read = "nat \<Rightarrow> char list \<Rightarrow> u64 \<Rightarrow> u64 \<Rightarrow> u64 \<times> char list"

definition sizeof_devfs_node :: nat where "sizeof_devfs_node = 288"

text \<open>The comparison with the name of a node reads its array; \<open>None\<close> is a comparison that leaves it.\<close>

fun devfs_find :: "char list \<Rightarrow> devfs_node list \<Rightarrow> devfs_node option option" where
  "devfs_find name [] = Some None"
| "devfs_find name (dnp # ds) =
     (case strcmp (d_name dnp) (name @ [NUL]) of
        None \<Rightarrow> None
      | Some r \<Rightarrow> if r \<noteq> 0 then devfs_find name ds else Some (Some dnp))"

definition devfs_lookup :: "char list \<Rightarrow> fstate \<Rightarrow> (nat res \<times> fstate) option" where
  "devfs_lookup name s =
     (case devfs_find name (nodelist s) of
        None \<Rightarrow> None
      | Some None \<Rightarrow> Some (Inl ENOENT, s)
      | Some (Some dnp) \<Rightarrow>
          (case vfs_valloc VTYPE_CDEV s of
             (Inl e, s) \<Rightarrow> Some (Inl e, s)
           | (Inr vp, s) \<Rightarrow> Some (Inr vp, set_vnode vp DEVFS_VOPS (Some (VD_devfs (d_id dnp))) s)))"

text \<open>
  The name is copied without its terminator into memory that is not cleared, and its length is not checked:
  \<open>None\<close> is a name that does not fit.
\<close>

definition devfs_register ::
  "char list option \<Rightarrow> dev_type \<Rightarrow> nat option \<Rightarrow> fstate \<Rightarrow> (unit res \<times> fstate) option" where
  "devfs_register name type devsw s =
     (case (name, devsw) of
        (Some name, Some devsw) \<Rightarrow>
          (case kalloc sizeof_devfs_node (heap s) of
             (None, h) \<Rightarrow> Some (Inl ENOMEM, s\<lparr>heap := h\<rparr>)
           | (Some n, h) \<Rightarrow>
               (case buf_blit (map (junk s n) [0..<NAME_MAX]) 0 name of
                  None \<Rightarrow> None
                | Some nm \<Rightarrow>
                    Some (Inr (),
                      s\<lparr>heap := h,
                        nodelist := nodelist s @ [\<lparr>d_id = n, d_name = nm, d_type = type, d_dev = devsw\<rparr>]\<rparr>)))
      | _ \<Rightarrow> Some (Inl EINVAL, s))"

text \<open>The result of the device goes through an \<^verbatim>\<open>int\<close>.\<close>

definition devfs_cdev_read :: "cdev_read \<Rightarrow> devfs_node \<Rightarrow> char list \<Rightarrow> u64 \<Rightarrow> u64 \<Rightarrow> int \<times> char list" where
  "devfs_cdev_read cdev dnp buf off len =
     (case cdev (d_dev dnp) buf off len of (r, buf) \<Rightarrow> (sint (ucast r :: 32 word), buf))"

definition devfs_read ::
  "cdev_read \<Rightarrow> nat option \<Rightarrow> char list \<Rightarrow> u64 \<Rightarrow> u64 \<Rightarrow> fstate \<Rightarrow> (int \<times> char list) option" where
  "devfs_read cdev vp buf off len s =
     (case vp of
        None \<Rightarrow> Some (- errno_code EIO, buf)
      | Some vp \<Rightarrow>
          (case vnodes s vp of
             None \<Rightarrow> None
           | Some v \<Rightarrow>
               (case v_data v of
                  None \<Rightarrow> Some (- errno_code EIO, buf)
                | Some (VD_devfs n) \<Rightarrow>
                    (case find (\<lambda>dnp. d_id dnp = n) (nodelist s) of
                       None \<Rightarrow> None
                     | Some dnp \<Rightarrow>
                         if d_type dnp = DEVFS_CDEV then Some (devfs_cdev_read cdev dnp buf off len)
                         else Some (- errno_code EIO, buf))
                | Some _ \<Rightarrow> None)))"

definition devfs_init :: "fstate \<Rightarrow> fstate" where
  "devfs_init s = s\<lparr>nodelist := []\<rparr>"

definition devfs_mount :: "fstate \<Rightarrow> nat res \<times> fstate" where
  "devfs_mount s =
     (case vfs_valloc VTYPE_DIR s of
        (Inl e, s) \<Rightarrow> (Inl e, s)
      | (Inr vp, s) \<Rightarrow> (Inr vp, set_vnode vp DEVFS_VOPS None s))"

section \<open>The null device\<close>

definition null_read :: "char list \<Rightarrow> u64 \<Rightarrow> u64 \<Rightarrow> u64 \<times> char list" where
  "null_read buf off len = (0, buf)"

definition null_write :: "char list \<Rightarrow> u64 \<Rightarrow> u64 \<Rightarrow> u64" where
  "null_write buf off len = len"

definition init_devnull :: "nat \<Rightarrow> fstate \<Rightarrow> (unit res \<times> fstate) option" where
  "init_devnull null_cdev s = devfs_register (Some ''null'') DEVFS_CDEV (Some null_cdev) s"

end
