(* ===== verification/Os_Vfs.thy ===== *)
theory Os_Vfs
  imports Os_Devfs
begin

text \<open>
  The virtual file system: the boot module that holds the initial image (\<^verbatim>\<open>os/os_bootvars.c\<close> and the vnode
  operations of \<^verbatim>\<open>os/os_omar.c\<close>), the dispatch through the operation vectors (\<^verbatim>\<open>os/vfs_subr.c\<close>), the file system
  table (\<^verbatim>\<open>os/vfs_init.c\<close>), mounting (\<^verbatim>\<open>os/vfs_mount.c\<close>) and path lookup (\<^verbatim>\<open>os/vfs_namei.c\<close>).  \<open>None\<close> is a panic or
  an access outside an object.
\<close>

section \<open>Boot variables\<close>

record bootvar_fb =
  fb_io :: u64
  fb_width :: u32
  fb_height :: u32
  fb_pitch :: u32
  fb_bpp :: u32

record bootvars =
  bv_magic :: u32
  fbvars :: bootvar_fb
  rsdp :: u64

text \<open>The responses of the boot loader, and the cache \<^verbatim>\<open>bootvars_read\<close> keeps.\<close>

record boot =
  b_modules :: "(char list \<times> char list) list"
  b_fb :: "bootvar_fb option"
  b_rsdp :: "u64 option"
  b_hhdm :: "u64 option"
  bv_cache :: "bootvars option"

abbreviation BOOTVARS_MAGIC :: u32 where "BOOTVARS_MAGIC \<equiv> 0xDECAFE"

fun get_module :: "(char list \<times> char list) list \<Rightarrow> char list \<Rightarrow> char list option" where
  "get_module [] path = None"
| "get_module ((p, img) # ms) path = (if streq p path then Some img else get_module ms path)"

definition get_kernel_base :: "boot \<Rightarrow> u64 option" where
  "get_kernel_base b = b_hhdm b"

definition bootvars_read :: "boot \<Rightarrow> bool \<Rightarrow> (bootvars \<times> boot) option" where
  "bootvars_read b bypass =
     (case (bv_cache b, bypass) of
        (Some c, False) \<Rightarrow> Some (c, b)
      | _ \<Rightarrow>
          (case (b_fb b, b_rsdp b) of
             (Some fb, Some r) \<Rightarrow>
               (let c = \<lparr>bv_magic = BOOTVARS_MAGIC, fbvars = fb, rsdp = r\<rparr>
                in Some (c, b\<lparr>bv_cache := Some c\<rparr>))
           | _ \<Rightarrow> None))"

section \<open>The initial image as a file system\<close>

definition INITRD_PATH :: string where "INITRD_PATH = ''/boot/initrd.omar''"

definition sizeof_initrd_node :: nat where "sizeof_initrd_node = 32"

definition set_attr :: "nat \<Rightarrow> u16 \<Rightarrow> fstate \<Rightarrow> fstate" where
  "set_attr i a s = s\<lparr>fstab := (fstab s)[i := (fstab s ! i)\<lparr>fs_attr := fs_attr (fstab s ! i) OR a\<rparr>]\<rparr>"

definition initrd_init :: "boot \<Rightarrow> nat \<Rightarrow> fstate \<Rightarrow> fstate option" where
  "initrd_init b fip s =
     (case initrd_root s of
        Some _ \<Rightarrow> None
      | None \<Rightarrow>
          (case bootvars_read b False of
             None \<Rightarrow> None
           | Some _ \<Rightarrow>
               (case get_module (b_modules b) INITRD_PATH of
                  None \<Rightarrow> None
                | Some img \<Rightarrow> Some (set_attr fip FS_ATTR_IMAGE (s\<lparr>initrd_root := Some img\<rparr>)))))"

text \<open>
  \<open>nb\<close> is the uninitialised name buffer of \<^verbatim>\<open>initrd_get_file\<close>.  The allocation of the node is not checked before
  the node is copied to it.
\<close>

definition initrd_lookup :: "char list \<Rightarrow> char list \<Rightarrow> fstate \<Rightarrow> (nat res \<times> fstate) option" where
  "initrd_lookup nb name s =
     (if take 1 name \<noteq> ''/'' then Some (Inl ENOENT, s)
      else
        (case initrd_root s of
           None \<Rightarrow> None
         | Some img \<Rightarrow>
             (case initrd_get_file img nb (tl name) of
                None \<Rightarrow> None
              | Some (Inl e) \<Rightarrow> Some (Inl e, s)
              | Some (Inr np) \<Rightarrow>
                  (case vfs_valloc VTYPE_FILE s of
                     (Inl e, s) \<Rightarrow> Some (Inl e, s)
                   | (Inr vp, s) \<Rightarrow>
                       (case kalloc sizeof_initrd_node (heap s) of
                          (None, h) \<Rightarrow> None
                        | (Some _, h) \<Rightarrow>
                            Some (Inr vp, set_vnode vp OMAR_VOPS (Some (VD_initrd np)) (s\<lparr>heap := h\<rparr>)))))))"

definition initrd_mount :: "fstate \<Rightarrow> nat res \<times> fstate" where
  "initrd_mount s =
     (case vfs_valloc VTYPE_DIR s of
        (Inl e, s) \<Rightarrow> (Inl e, s)
      | (Inr vp, s) \<Rightarrow> (Inr vp, set_vnode vp OMAR_VOPS None s))"

section \<open>Vnode operations\<close>

text \<open>A count or an error as the \<^verbatim>\<open>ssize_t\<close> it is returned as.\<close>

definition ssize :: "u64 res \<Rightarrow> int" where
  "ssize r = (case r of Inl e \<Rightarrow> - errno_code e | Inr n \<Rightarrow> sint n)"

definition vop_write :: "nat option \<Rightarrow> char list option \<Rightarrow> u64 \<Rightarrow> u64 \<Rightarrow> fstate \<Rightarrow> (int \<times> fstate) option" where
  "vop_write vp data off len s =
     (case (vp, data) of
        (Some vp, Some data) \<Rightarrow>
          if len = 0 then Some (- errno_code EINVAL, s)
          else
            (case vnodes s vp of
               None \<Rightarrow> None
             | Some v \<Rightarrow>
                 (case v_ops v of
                    None \<Rightarrow> Some (- errno_code EIO, s)
                  | Some TMPFS_VOPS \<Rightarrow> map_option (map_prod ssize id) (tmpfs_write (Some vp) data off len s)
                  | Some _ \<Rightarrow> Some (- errno_code ENOTSUP, s)))
      | _ \<Rightarrow> Some (- errno_code EINVAL, s))"

definition initrd_vread :: "nat \<Rightarrow> char list \<Rightarrow> u64 \<Rightarrow> u64 \<Rightarrow> fstate \<Rightarrow> (int \<times> char list) option" where
  "initrd_vread vp data off len s =
     (case vnodes s vp of
        None \<Rightarrow> None
      | Some v \<Rightarrow>
          (case v_data v of
             None \<Rightarrow> Some (- errno_code EIO, data)
           | Some (VD_initrd np) \<Rightarrow>
               (case initrd_root s of
                  None \<Rightarrow> None
                | Some img \<Rightarrow>
                    map_option (\<lambda>(r, d). (r, case d of None \<Rightarrow> data | Some d \<Rightarrow> d))
                      (initrd_read img (Some np) (unat off) (unat len) (Some data)))
           | Some _ \<Rightarrow> None))"

definition vop_read ::
  "cdev_read \<Rightarrow> nat option \<Rightarrow> char list option \<Rightarrow> u64 \<Rightarrow> u64 \<Rightarrow> fstate \<Rightarrow> (int \<times> char list option) option" where
  "vop_read cdev vp data off len s =
     (case (vp, data) of
        (Some vp, Some dest) \<Rightarrow>
          if len = 0 then Some (- errno_code EINVAL, data)
          else
            (case vnodes s vp of
               None \<Rightarrow> None
             | Some v \<Rightarrow>
                 (case v_ops v of
                    None \<Rightarrow> Some (- errno_code EIO, data)
                  | Some TMPFS_VOPS \<Rightarrow> map_option (map_prod ssize Some) (tmpfs_read (Some vp) dest off len s)
                  | Some DEVFS_VOPS \<Rightarrow> map_option (map_prod id Some) (devfs_read cdev (Some vp) dest off len s)
                  | Some OMAR_VOPS \<Rightarrow> map_option (map_prod id Some) (initrd_vread vp dest off len s)))
      | _ \<Rightarrow> Some (- errno_code EINVAL, data))"

definition vop_reclaim :: "nat option \<Rightarrow> fstate \<Rightarrow> (unit res \<times> fstate) option" where
  "vop_reclaim vp s =
     (case vp of
        None \<Rightarrow> Some (Inl EINVAL, s)
      | Some vp \<Rightarrow>
          (case vnodes s vp of
             None \<Rightarrow> None
           | Some v \<Rightarrow>
               (case v_ops v of
                  None \<Rightarrow> Some (Inl EIO, s)
                | Some TMPFS_VOPS \<Rightarrow> Some (tmpfs_reclaim s)
                | Some _ \<Rightarrow> Some (Inl ENOTSUP, s))))"

definition vop_create ::
  "nat option \<Rightarrow> char list option \<Rightarrow> vtype \<Rightarrow> fstate \<Rightarrow> (unit res \<times> fstate) option" where
  "vop_create vp path type s =
     (case vp of
        None \<Rightarrow> Some (Inl EINVAL, s)
      | Some vp \<Rightarrow>
          (case vnodes s vp of
             None \<Rightarrow> None
           | Some v \<Rightarrow>
               (case v_ops v of
                  Some TMPFS_VOPS \<Rightarrow> Some (tmpfs_create path type s)
                | _ \<Rightarrow> Some (Inl EIO, s))))"

definition vop_getattr :: "nat option \<Rightarrow> fstate \<Rightarrow> u64 res option" where
  "vop_getattr vp s =
     (case vp of
        None \<Rightarrow> Some (Inl EINVAL)
      | Some vp \<Rightarrow>
          (case vnodes s vp of
             None \<Rightarrow> None
           | Some v \<Rightarrow>
               (case v_ops v of
                  Some TMPFS_VOPS \<Rightarrow> tmpfs_getattr (Some vp) s
                | _ \<Rightarrow> Some (Inl EIO))))"

text \<open>The call \<^verbatim>\<open>vops->lookup\<close>.\<close>

definition vops_lookup :: "char list \<Rightarrow> vops \<Rightarrow> char list \<Rightarrow> fstate \<Rightarrow> (nat res \<times> fstate) option" where
  "vops_lookup nb ops name s =
     (case ops of
        OMAR_VOPS \<Rightarrow> initrd_lookup nb name s
      | TMPFS_VOPS \<Rightarrow> Some (tmpfs_lookup (Some name) s)
      | DEVFS_VOPS \<Rightarrow> devfs_lookup name s)"

section \<open>Mounting\<close>

definition vfs_by_index :: "nat \<Rightarrow> fstate \<Rightarrow> fs_info res" where
  "vfs_by_index index s = (if length (fstab s) \<le> index then Inl ENOENT else Inr (fstab s ! index))"

fun by_name_loop :: "char list \<Rightarrow> fs_info list \<Rightarrow> fs_info res" where
  "by_name_loop name [] = Inl ENOENT"
| "by_name_loop name (f # fs) = (if streq (fs_name f) name then Inr f else by_name_loop name fs)"

definition vfs_by_name :: "char list option \<Rightarrow> fstate \<Rightarrow> fs_info res" where
  "vfs_by_name name s = (case name of None \<Rightarrow> Inl EINVAL | Some name \<Rightarrow> by_name_loop name (fstab s))"

definition sizeof_mount :: nat where "sizeof_mount = 48"

text \<open>
  The name of a mount point is copied without its terminator into uninitialised memory (it starts at offset 16
  of the structure).  \<^verbatim>\<open>kmount\<close> sets the file system and the vnode before anything reads them.
\<close>

definition mount_alloc :: "char list \<Rightarrow> fstate \<Rightarrow> mount res \<times> fstate" where
  "mount_alloc name s =
     (case kalloc sizeof_mount (heap s) of
        (None, h) \<Rightarrow> (Inl ENOMEM, s\<lparr>heap := h\<rparr>)
      | (Some n, h) \<Rightarrow>
          (let len = min FSNAME_MAX (length name)
           in (Inr \<lparr>m_vp = None, m_fs = 0, m_name = take len name @ map (junk s n) [16 + len..<16 + FSNAME_MAX]\<rparr>,
               s\<lparr>heap := h\<rparr>)))"

text \<open>The end of the first component of a path, as \<^verbatim>\<open>mount_to\<close> and \<^verbatim>\<open>namei\<close> compute it.\<close>

definition after_first :: "char list \<Rightarrow> char list" where
  "after_first p = dropWhile (\<lambda>c. c \<noteq> CHR ''/'') (dropWhile (\<lambda>c. c = CHR ''/'') p)"

definition mount_to ::
  "bool \<Rightarrow> char list option \<Rightarrow> char list option \<Rightarrow> fstate \<Rightarrow> unit res \<times> fstate" where
  "mount_to err0 target fstype s =
     (case (target, fstype) of
        (Some p, Some _) \<Rightarrow>
          (let ncmp = vfs_cmp_cnt err0 target
           in if ncmp > 1 \<or> ncmp < 0 then (Inl EINVAL, s)
              else
                (let len = length p - length (after_first p)
                 in if len \<ge> FSNAME_MAX - 1 \<or> len = 0 then (Inl EINVAL, s)
                    else
                      (case mount_alloc (take len p) s of
                         (Inl e, s) \<Rightarrow> (Inl e, s)
                       | (Inr mp, s) \<Rightarrow> (Inr (), s\<lparr>mlist := mlist s @ [mp]\<rparr>))))
      | _ \<Rightarrow> (Inl EINVAL, s))"

fun mount_find :: "char list \<Rightarrow> mount list \<Rightarrow> mount res option" where
  "mount_find name [] = Some (Inl ENOENT)"
| "mount_find name (mp # ms) =
     (case strcmp (m_name mp) name of
        None \<Rightarrow> None
      | Some r \<Rightarrow> if r = 0 then Some (Inr mp) else mount_find name ms)"

definition mount_lookup :: "char list \<Rightarrow> fstate \<Rightarrow> mount res option" where
  "mount_lookup name s = mount_find name (mlist s)"

text \<open>The search of \<^verbatim>\<open>kmount\<close> through the table by index.\<close>

function kmount_find :: "char list \<Rightarrow> nat \<Rightarrow> fstate \<Rightarrow> nat option" where
  "kmount_find fstype i s =
     (case vfs_by_index i s of
        Inl _ \<Rightarrow> None
      | Inr fip \<Rightarrow> if streq (fs_name fip) fstype then Some i else kmount_find fstype (i + 1) s)"
  by pat_completeness auto
termination
  by (relation "measure (\<lambda>(f, i, s). length (fstab s) - i)") (auto simp: vfs_by_index_def split: if_splits)

declare kmount_find.simps [simp del]

definition vfsops_mount :: "vops \<Rightarrow> fstate \<Rightarrow> nat res \<times> fstate" where
  "vfsops_mount ops s =
     (case ops of OMAR_VOPS \<Rightarrow> initrd_mount s | TMPFS_VOPS \<Rightarrow> tmpfs_mount s | DEVFS_VOPS \<Rightarrow> devfs_mount s)"

definition kmount :: "bool \<Rightarrow> char list option \<Rightarrow> char list option \<Rightarrow> fstate \<Rightarrow> unit res \<times> fstate" where
  "kmount err0 target fstype s =
     (case fstype of
        None \<Rightarrow> (Inl ENOENT, s)
      | Some ty \<Rightarrow>
          if target = None then (Inl EINVAL, s)
          else
            (case kmount_find ty 0 s of
               None \<Rightarrow> (Inl ENOENT, s)
             | Some i \<Rightarrow>
                 (case vfsops_mount (fs_vops (fstab s ! i)) s of
                    (Inl e, s) \<Rightarrow> (Inl e, s)
                  | (Inr vp, s) \<Rightarrow>
                      (case mount_to err0 target fstype s of
                         (Inl e, s) \<Rightarrow> (Inl e, s)
                       | (Inr _, s) \<Rightarrow>
                           (Inr (),
                            s\<lparr>mlist := butlast (mlist s) @ [(last (mlist s))\<lparr>m_fs := i, m_vp := Some vp\<rparr>]\<rparr>)))))"

definition mountlist_init :: "bool \<Rightarrow> fstate \<Rightarrow> unit res \<times> fstate" where
  "mountlist_init err0 s =
     (if mlist_i s then (Inl EPERM, s)
      else (Inr (), snd (kmount err0 (Some ''/'') (Some MOUNT_INITRD) (s\<lparr>mlist := [], mlist_i := True\<rparr>))))"

definition fstab0 :: "fs_info list" where
  "fstab0 =
     [\<lparr>fs_name = MOUNT_INITRD, fs_vops = OMAR_VOPS, fs_attr = 0\<rparr>,
      \<lparr>fs_name = MOUNT_DEVFS, fs_vops = DEVFS_VOPS, fs_attr = 0\<rparr>,
      \<lparr>fs_name = MOUNT_TMPFS, fs_vops = TMPFS_VOPS, fs_attr = 0\<rparr>]"

definition vfsops_init :: "boot \<Rightarrow> nat \<Rightarrow> fstate \<Rightarrow> fstate option" where
  "vfsops_init b i s =
     (case fs_vops (fstab s ! i) of
        OMAR_VOPS \<Rightarrow> initrd_init b i s
      | TMPFS_VOPS \<Rightarrow> Some (tmpfs_init s)
      | DEVFS_VOPS \<Rightarrow> Some (devfs_init s))"

fun vfs_init_loop :: "boot \<Rightarrow> nat list \<Rightarrow> fstate \<Rightarrow> fstate option" where
  "vfs_init_loop b [] s = Some s"
| "vfs_init_loop b (i # is) s = Option.bind (vfsops_init b i s) (vfs_init_loop b is)"

definition vfs_init :: "bool \<Rightarrow> boot \<Rightarrow> fstate \<Rightarrow> fstate option" where
  "vfs_init err0 b s =
     map_option (\<lambda>s. snd (mountlist_init err0 s)) (vfs_init_loop b [0..<length (fstab s)] s)"

section \<open>Path lookup\<close>

lemma dropWhile_shorter:
  "p \<noteq> [] \<Longrightarrow> length (dropWhile (\<lambda>c. c \<noteq> CHR ''/'') (dropWhile (\<lambda>c. c = CHR ''/'') p)) < length p"
proof (cases p)
  case (Cons c q)
  then show ?thesis
    using length_dropWhile_le [of "\<lambda>c. c \<noteq> CHR ''/''" "dropWhile (\<lambda>c. c = CHR ''/'') q"]
      length_dropWhile_le [of "\<lambda>c. c = CHR ''/''" q] length_dropWhile_le [of "\<lambda>c. c \<noteq> CHR ''/''" q]
    by auto
qed simp

text \<open>
  The loop over the remaining components.  Each of them is looked up in the mount's own vnode \<open>mvp\<close>; \<open>vp\<close> is the
  result so far.
\<close>

function namei_loop ::
  "char list \<Rightarrow> nat \<Rightarrow> bool \<Rightarrow> char list \<Rightarrow> nat \<Rightarrow> fstate \<Rightarrow> (nat res \<times> fstate) option" where
  "namei_loop nb mvp create pcur vp s =
     (if pcur = [] then Some (Inr vp, s)
      else
        (let p = dropWhile (\<lambda>c. c = CHR ''/'') pcur;
             name = takeWhile (\<lambda>c. c \<noteq> CHR ''/'') p
         in if length name > NAME_MAX - 1 then Some (Inl ENAMETOOLONG, s)
            else
              (case vnodes s mvp of
                 None \<Rightarrow> None
               | Some mv \<Rightarrow>
                   (case v_ops mv of
                      None \<Rightarrow> Some (Inl EIO, s)
                    | Some ops \<Rightarrow>
                        (case (if create then vop_create (Some mvp) (Some name) VTYPE_FILE s else Some (Inr (), s)) of
                           None \<Rightarrow> None
                         | Some (Inl e, s) \<Rightarrow> Some (Inl e, s)
                         | Some (Inr _, s) \<Rightarrow>
                             (case vops_lookup nb ops name s of
                                None \<Rightarrow> None
                              | Some (Inl e, s) \<Rightarrow> Some (Inl ENOENT, s)
                              | Some (Inr vp, s) \<Rightarrow>
                                  namei_loop nb mvp create (dropWhile (\<lambda>c. c \<noteq> CHR ''/'') p) vp s))))))"
  by pat_completeness auto
termination
  by (relation "measure (\<lambda>(nb, mvp, create, pcur, vp, s). length pcur)") (auto simp: dropWhile_shorter)

declare namei_loop.simps [simp del]

text \<open>
  \<open>namebuf\<close> is the uninitialised buffer of \<^verbatim>\<open>namei\<close>, which is not terminated after the copy; \<open>nb\<close> that of
  \<^verbatim>\<open>initrd_get_file\<close>.
\<close>

definition namei ::
  "char list \<Rightarrow> char list \<Rightarrow> char list option \<Rightarrow> bool \<Rightarrow> fstate \<Rightarrow> (nat res \<times> fstate) option" where
  "namei namebuf nb path create s =
     (case path of
        None \<Rightarrow> Some (Inl EINVAL, s)
      | Some p \<Rightarrow>
          (let pcur = after_first p
           in case buf_blit namebuf 0 (take (length p - length pcur) p) of
                None \<Rightarrow> None
              | Some namebuf \<Rightarrow>
                  (case (case mount_lookup namebuf s of
                           Some (Inl _) \<Rightarrow> mount_lookup (''/'' @ [NUL]) s
                         | r \<Rightarrow> r) of
                     None \<Rightarrow> None
                   | Some (Inl e) \<Rightarrow> Some (Inl e, s)
                   | Some (Inr mp) \<Rightarrow>
                       (case m_vp mp of
                          None \<Rightarrow> Some (Inl EIO, s)
                        | Some mvp \<Rightarrow>
                            (case vnodes s mvp of
                               None \<Rightarrow> None
                             | Some mv \<Rightarrow>
                                 (case v_ops mv of
                                    None \<Rightarrow> Some (Inl EIO, s)
                                  | Some ops \<Rightarrow>
                                      if fs_attr (fstab s ! m_fs mp) AND FS_ATTR_IMAGE \<noteq> 0 then
                                        (case vops_lookup nb ops p s of
                                           None \<Rightarrow> None
                                         | Some (Inl _, s) \<Rightarrow> Some (Inl ENOENT, s)
                                         | Some (Inr vp, s) \<Rightarrow> Some (Inr vp, s))
                                      else namei_loop nb mvp create pcur mvp s))))))"

section \<open>Lookup in the initial image\<close>

lemma kalloc_ok:
  assumes "k_init h" and "\<And>n. \<not> k_oom h n" and "0 < sz"
  shows "kalloc sz h = (Some (k_cnt h), h\<lparr>k_cnt := k_cnt h + 1, k_live := k_cnt h # k_live h\<rparr>)"
  using assms by (simp add: kalloc_def Let_def)

lemma blit_start:
  assumes "length p \<le> length buf"
  shows "\<exists>t. buf_blit buf 0 p = Some (p @ t)"
  using assms by (simp add: buf_blit_def)

text \<open>
  The root is found for every path: the comparison of its name with a name buffer that starts with a slash is
  decided by the second character.
\<close>

lemma mount_find_root:
  assumes "m_name mp = CHR ''/'' # NUL # t" and "namebuf = CHR ''/'' # c # u"
  shows "\<exists>r. mount_find namebuf [mp] = Some r \<and> (r = Inr mp \<or> r = Inl ENOENT)"
  using assms by (cases "c = NUL") auto

text \<open>The file systems after booting with an image: the table, the image and the root mount.\<close>

definition boot_fs :: "char list \<Rightarrow> mount \<Rightarrow> fstate \<Rightarrow> bool" where
  "boot_fs img mp s \<longleftrightarrow>
     initrd_root s = Some img \<and> mlist s = [mp] \<and> fs_attr (fstab s ! m_fs mp) = FS_ATTR_IMAGE \<and>
     (\<exists>vp v t. m_vp mp = Some vp \<and> vnodes s vp = Some v \<and> v_ops v = Some OMAR_VOPS \<and>
        m_name mp = CHR ''/'' # NUL # t)"

lemma cmp_cnt_root: "vfs_cmp_cnt err0 (Some ''/'') = 1"
  by (simp add: vfs_cmp_cnt_def)

lemma vfs_init_boots:
  assumes mem: "k_init (heap s)" "\<And>n. \<not> k_oom (heap s) n"
    and st: "fstab s = fstab0" "initrd_root s = None" "\<not> mlist_i s"
    and boot: "bootvars_read b False = Some bv" "get_module (b_modules b) INITRD_PATH = Some img"
    and jk: "junk s (k_cnt (heap s) + 1) 17 = NUL"
  shows "\<exists>s' mp. vfs_init err0 b s = Some s' \<and> boot_fs img mp s' \<and> k_init (heap s') \<and> k_oom (heap s') = k_oom (heap s) \<and>
    tmpfs s' = [] \<and> nodelist s' = []"
proof -
  define s1 where "s1 = s\<lparr>initrd_root := Some img, fstab := fstab0[0 := (fstab0 ! 0)\<lparr>fs_attr := FS_ATTR_IMAGE\<rparr>],
    tmpfs := [], nodelist := []\<rparr>"
  have up: "[0..<3] = [0, 1, 2::nat]" by (simp add: upt_rec)
  have i: "vfs_init_loop b [0..<length (fstab s)] s = Some s1"
    using st boot by (simp add: fstab0_def up vfsops_init_def initrd_init_def set_attr_def devfs_init_def tmpfs_init_def s1_def
        numeral_2_eq_2)
  have kf: "kmount_find MOUNT_INITRD 0 s' = Some 0" if "fstab s' = fstab s1" for s'
    using that by (subst kmount_find.simps) (simp add: vfs_by_index_def s1_def fstab0_def streq_cstr)
  have af: "after_first ''/'' = []" by (simp add: after_first_def)
  have up2: "[17..<32] = 17 # [18..<32::nat]" by (simp add: upt_rec)
  define s2 where "s2 = s1\<lparr>mlist := [], mlist_i := True\<rparr>"
  define n where "n = k_cnt (heap s)"
  define s3 where "s3 = s2\<lparr>heap := (heap s)\<lparr>k_cnt := n + 1, k_live := n # k_live (heap s)\<rparr>,
    vnodes := (vnodes s)(n \<mapsto> \<lparr>refcount = 1, v_type = VTYPE_DIR, v_ops = Some OMAR_VOPS, v_data = None\<rparr>)\<rparr>"
  define mp where "mp = \<lparr>m_vp = None, m_fs = 0, m_name = ''/'' @ map (junk s (n + 1)) [17..<32]\<rparr>"
  define s4 where "s4 = s3\<lparr>heap := (heap s3)\<lparr>k_cnt := n + 2, k_live := (n + 1) # k_live (heap s3)\<rparr>, mlist := [mp]\<rparr>"
  have a: "fs_vops (fstab s2 ! 0) = OMAR_VOPS" by (simp add: s2_def s1_def fstab0_def)
  have b: "initrd_mount s2 = (Inr n, s3)"
    using mem by (simp add: initrd_mount_def vfs_valloc_def kalloc_ok sizeof_vnode_def set_vnode_def s3_def s2_def
        s1_def n_def)
  have c: "mount_to err0 (Some ''/'') (Some MOUNT_INITRD) s3 = (Inr (), s4)"
    using mem by (simp add: mount_to_def cmp_cnt_root af mount_alloc_def kalloc_ok sizeof_mount_def Let_def s4_def
        s3_def s2_def s1_def mp_def)
  define s5 where "s5 = s4\<lparr>mlist := [mp\<lparr>m_fs := 0, m_vp := Some n\<rparr>]\<rparr>"
  have "kmount err0 (Some ''/'') (Some MOUNT_INITRD) s2 = (Inr (), s5)"
    unfolding kmount_def using kf [of s2] a b c by (simp add: s2_def vfsops_mount_def s5_def s4_def)
  then have "vfs_init err0 b s = Some s5"
    unfolding vfs_init_def i mountlist_init_def using st by (simp add: s2_def s1_def)
  moreover have "boot_fs img (mp\<lparr>m_fs := 0, m_vp := Some n\<rparr>) s5"
    using jk by (simp add: boot_fs_def s5_def s4_def s3_def s2_def s1_def mp_def fstab0_def up2 n_def)
  moreover have "k_init (heap s5)" "k_oom (heap s5) = k_oom (heap s)" "tmpfs s5 = []" "nodelist s5 = []"
    using mem by (simp_all add: s5_def s4_def s3_def s2_def s1_def)
  ultimately show ?thesis by blast
qed
lemma root_prefix:
  assumes "2 \<le> length namebuf" and "length path < length namebuf"
  defines "p \<equiv> CHR ''/'' # path"
  shows "\<exists>r t. buf_blit namebuf 0 (take (length p - length (after_first p)) p) = Some (CHR ''/'' # r # t)"
proof -
  have "length (after_first p) < length p" unfolding after_first_def by (rule dropWhile_shorter) (simp add: p_def)
  then obtain q where q: "take (length p - length (after_first p)) p = CHR ''/'' # q" and l: "length q \<le> length path"
    by (cases "length p - length (after_first p)") (auto simp: p_def)
  define t where "t = q @ drop (Suc (length q)) namebuf"
  have b: "buf_blit namebuf 0 (CHR ''/'' # q) = Some (CHR ''/'' # t)" using assms(2) l by (auto simp: buf_blit_def t_def)
  have "t \<noteq> []" using assms(1) l by (auto simp: t_def)
  then show ?thesis unfolding q b by (cases t) auto
qed

lemma namei_boot_fs:
  assumes "boot_fs img mp s" and "length namebuf = NAME_MAX" and "length path < NAME_MAX"
  shows "namei namebuf nb (Some (CHR ''/'' # path)) create s =
    (case initrd_lookup nb (CHR ''/'' # path) s of
       None \<Rightarrow> None
     | Some (Inl _, s) \<Rightarrow> Some (Inl ENOENT, s)
     | Some (Inr vp, s) \<Rightarrow> Some (Inr vp, s))"
proof -
  obtain r t where nb: "buf_blit namebuf 0 (take (length (CHR ''/'' # path) - length (after_first (CHR ''/'' # path))) (CHR ''/'' # path)) =
      Some (CHR ''/'' # r # t)"
    using root_prefix [of namebuf path] assms(2,3) by auto
  from assms(1) obtain vp v u where m: "mlist s = [mp]" "m_vp mp = Some vp" "vnodes s vp = Some v"
      "v_ops v = Some OMAR_VOPS" "m_name mp = CHR ''/'' # NUL # u" "fs_attr (fstab s ! m_fs mp) = FS_ATTR_IMAGE"
    by (auto simp: boot_fs_def)
  obtain x where x: "mount_lookup (CHR ''/'' # r # t) s = Some x" "x = Inr mp \<or> x = Inl ENOENT"
    using mount_find_root [OF m(5) refl, of r t] m(1) by (auto simp: mount_lookup_def)
  have y: "mount_lookup (''/'' @ [NUL]) s = Some (Inr mp)" using m(1,5) by (simp add: mount_lookup_def)
  show ?thesis
    using x y m nb by (auto simp: namei_def Let_def vops_lookup_def)
qed

text \<open>
  C17 (\<^verbatim>\<open>vfs_init\<close>, \<^verbatim>\<open>namei\<close>, \<^verbatim>\<open>vop_read\<close>).  After booting with an initial image, a path is resolved by looking the rest
  of the path up in the image: a file of the image gives a vnode whose reads are the reads of that file, a name
  that the image does not have gives \<^verbatim>\<open>ENOENT\<close>.  This holds whatever the name buffer of \<^verbatim>\<open>namei\<close> contains, provided
  the byte behind the name of the root mount is NUL, which the code leaves to the allocator.
\<close>

theorem boot_lookup:
  assumes mem: "k_init (heap s)" "\<And>n. \<not> k_oom (heap s) n"
    and st: "fstab s = fstab0" "initrd_root s = None" "\<not> mlist_i s"
    and boot: "bootvars_read b False = Some bv" "get_module (b_modules b) INITRD_PATH = Some img"
    and jk: "junk s (k_cnt (heap s) + 1) 17 = NUL"
    and path: "length namebuf = NAME_MAX" "length path < NAME_MAX" "initrd_get_file img nb path = Some r"
  shows "\<exists>s1. vfs_init err0 b s = Some s1 \<and>
    (case r of
       Inl _ \<Rightarrow> namei namebuf nb (Some (CHR ''/'' # path)) create s1 = Some (Inl ENOENT, s1)
     | Inr node \<Rightarrow> \<exists>vp s2. namei namebuf nb (Some (CHR ''/'' # path)) create s1 = Some (Inr vp, s2) \<and>
         (\<forall>off len dest. len \<noteq> 0 \<longrightarrow>
            vop_read cdev (Some vp) (Some dest) off len s2 =
            initrd_read img (Some node) (unat off) (unat len) (Some dest)))"
proof -
  obtain s1 mp where s1: "vfs_init err0 b s = Some s1" "boot_fs img mp s1" "k_init (heap s1)"
      "k_oom (heap s1) = k_oom (heap s)"
    using vfs_init_boots [OF mem st boot jk] by blast
  have img: "initrd_root s1 = Some img" using s1(2) by (simp add: boot_fs_def)
  have nf: "\<not> k_oom (heap s1) n" for n using s1(4) mem(2) by simp
  note nm = namei_boot_fs [OF s1(2) path(1,2), of nb create]
  show ?thesis
  proof (cases r)
    case (Inl e)
    then show ?thesis using s1(1) nm path(3) img by (simp add: initrd_lookup_def)
  next
    case (Inr node)
    define n where "n = k_cnt (heap s1)"
    define s2 where "s2 = s1\<lparr>heap := (heap s1)\<lparr>k_cnt := n + 2, k_live := (n + 1) # n # k_live (heap s1)\<rparr>,
      vnodes := (vnodes s1)(n \<mapsto> \<lparr>refcount = 1, v_type = VTYPE_FILE, v_ops = Some OMAR_VOPS, v_data = Some (VD_initrd node)\<rparr>)\<rparr>"
    have "initrd_lookup nb (CHR ''/'' # path) s1 = Some (Inr n, s2)"
      using Inr img path(3) s1(3) nf
      by (simp add: initrd_lookup_def vfs_valloc_def kalloc_ok sizeof_vnode_def sizeof_initrd_node_def set_vnode_def
          s2_def n_def)
    then have "namei namebuf nb (Some (CHR ''/'' # path)) create s1 = Some (Inr n, s2)" using nm by simp
    moreover have "vop_read cdev (Some n) (Some dest) off len s2 =
        initrd_read img (Some node) (unat off) (unat len) (Some dest)" if "len \<noteq> 0" for off len dest
      using that img
      by (auto simp: vop_read_def initrd_vread_def s2_def initrd_read_def Let_def option.map_comp comp_def
          intro!: option.map_cong)
    ultimately show ?thesis using s1(1) Inr by auto
  qed
qed

definition ex_img :: "char list" where
  "ex_img = ''OMAR'' @ [CHR 0x00, CHR 0x01, CHR 0x02, CHR 0x00, CHR 0x00, CHR 0x00, CHR 0x02, CHR 0xa4, CHR 0x01,
     CHR 0x00, CHR 0x00] @ ''fhi''"

definition ex_boot :: boot where
  "ex_boot = \<lparr>b_modules = [(INITRD_PATH, ex_img)],
     b_fb = Some \<lparr>fb_io = 0, fb_width = 640, fb_height = 480, fb_pitch = 2560, fb_bpp = 32\<rparr>,
     b_rsdp = Some 0, b_hhdm = Some 0, bv_cache = None\<rparr>"

definition ex_fs0 :: fstate where
  "ex_fs0 = \<lparr>heap = ex_heap, junk = \<lambda>_ _. NUL, vnodes = \<lambda>_. None, tmpfs = [], nodelist = [],
     initrd_root = None, fstab = fstab0, mlist_i = False, mlist = []\<rparr>"

lemma ex_img_file:
  "initrd_get_file ex_img (replicate 256 NUL) ''f'' = Some (Inr \<lparr>n_data = 16, n_size = 2, n_mode = 420\<rparr>)"
proof -
  have r: "replicate 256 NUL = NUL # NUL # replicate 254 NUL" by (simp add: numeral_eq_Suc)
  show ?thesis
    unfolding initrd_get_file_def r
    by (subst get_file_loop.simps)
       (simp add: ex_img_def OMAR_EOF_def OMAR_MAGIC_def numeral_eq_Suc hdr_dec_def sizeof_omar_hdr_def memcpy_def
        memcpy_loop.simps buf_put_def buf_get_def)
qed

theorem boot_lookup_witness:
  "\<exists>s1 s2 vp. vfs_init False ex_boot ex_fs0 = Some s1 \<and>
     namei (replicate 256 NUL) (replicate 256 NUL) (Some ''/f'') False s1 = Some (Inr vp, s2) \<and>
     vop_read (\<lambda>_ b _ _. (0, b)) (Some vp) (Some ''..'') 0 2 s2 =
       initrd_read ex_img (Some \<lparr>n_data = 16, n_size = 2, n_mode = 420\<rparr>) 0 2 (Some ''..'')"
proof -
  have m: "k_init (heap ex_fs0)" "\<And>n. \<not> k_oom (heap ex_fs0) n" "fstab ex_fs0 = fstab0" "initrd_root ex_fs0 = None"
      "\<not> mlist_i ex_fs0" "junk ex_fs0 (k_cnt (heap ex_fs0) + 1) 17 = NUL"
    by (simp_all add: ex_fs0_def ex_heap_def)
  obtain bv where b: "bootvars_read ex_boot False = Some bv" by (simp add: bootvars_read_def ex_boot_def Let_def)
  have g: "get_module (b_modules ex_boot) INITRD_PATH = Some ex_img" by (simp add: ex_boot_def streq_cstr)
  show ?thesis
    using boot_lookup [OF m(1-5) b g m(6) _ _ ex_img_file, of "replicate 256 NUL" False False "\<lambda>_ b _ _. (0, b)"]
    by fastforce
qed

section \<open>Lookup in a mounted temporary file system\<close>

lemma dropWhile_slash [simp]: "dropWhile (\<lambda>c. c = CHR ''/'') (CHR ''/'' # p) = dropWhile (\<lambda>c. c = CHR ''/'') p"
  by simp

lemma dropWhile_component:
  assumes "name \<noteq> []" and "CHR ''/'' \<notin> set name"
  shows "dropWhile (\<lambda>c. c = CHR ''/'') (name @ q) = name @ q"
    and "takeWhile (\<lambda>c. c \<noteq> CHR ''/'') name = name" and "dropWhile (\<lambda>c. c \<noteq> CHR ''/'') name = []"
    and "dropWhile (\<lambda>c. c \<noteq> CHR ''/'') (name @ CHR ''/'' # q) = CHR ''/'' # q"
proof -
  from assms show "dropWhile (\<lambda>c. c = CHR ''/'') (name @ q) = name @ q" by (cases name) auto
  from assms(2) show "takeWhile (\<lambda>c. c \<noteq> CHR ''/'') name = name" by (auto simp: takeWhile_eq_all_conv)
  from assms(2) show "dropWhile (\<lambda>c. c \<noteq> CHR ''/'') name = []" by (auto simp: dropWhile_eq_Nil_conv)
  from assms(2) show "dropWhile (\<lambda>c. c \<noteq> CHR ''/'') (name @ CHR ''/'' # q) = CHR ''/'' # q"
    by (subst dropWhile_append2) auto
qed

text \<open>
  \<open>tmpfs_mounted root mp s\<close>: for paths below \<open>root\<close>, \<^verbatim>\<open>namei\<close> with the name buffer \<open>nbuf\<close> finds the mount point \<open>mp\<close>
  of a temporary file system.
\<close>

definition tmpfs_mounted :: "char list \<Rightarrow> char list \<Rightarrow> mount \<Rightarrow> fstate \<Rightarrow> bool" where
  "tmpfs_mounted nbuf root mp s \<longleftrightarrow>
     (case buf_blit nbuf 0 (CHR ''/'' # root) of
        None \<Rightarrow> False
      | Some b \<Rightarrow> mount_lookup b s = Some (Inr mp)) \<and>
     fs_attr (fstab s ! m_fs mp) = 0 \<and>
     (\<exists>vp v. m_vp mp = Some vp \<and> vnodes s vp = Some v \<and> v_ops v = Some TMPFS_VOPS)"

text \<open>
  C29 (\<^verbatim>\<open>namei\<close>).  A path of two components below a mounted temporary file system: without the create flag it is
  the lookup of the second component, with every error reported as \<^verbatim>\<open>ENOENT\<close>; with the flag the file is created
  first, so that the lookup of a file that exists already fails with \<^verbatim>\<open>EEXIST\<close>.
\<close>

theorem namei_tmpfs:
  assumes mnt: "tmpfs_mounted nbuf root mp s"
    and root: "root \<noteq> []" "CHR ''/'' \<notin> set root"
    and name: "name \<noteq> []" "CHR ''/'' \<notin> set name" "length name < NAME_MAX"
  shows "namei nbuf nb (Some (CHR ''/'' # root @ CHR ''/'' # name)) create s =
    (let lookup = (\<lambda>s. case tmpfs_lookup (Some name) s of
                          (Inl _, s) \<Rightarrow> Some (Inl ENOENT, s) | (Inr vp, s) \<Rightarrow> Some (Inr vp, s))
     in if create then
          (if tmpfs_byname (Some name) s \<noteq> Inl ENOENT then Some (Inl EEXIST, s)
           else (case tmpfs_create (Some name) VTYPE_FILE s of (Inl e, s) \<Rightarrow> Some (Inl e, s) | (Inr _, s) \<Rightarrow> lookup s))
        else lookup s)"
proof -
  let ?p = "CHR ''/'' # root @ CHR ''/'' # name"
  have af: "after_first ?p = CHR ''/'' # name"
    using dropWhile_component(1) [OF root, of "CHR ''/'' # name"] dropWhile_component(4) [OF root] by (simp add: after_first_def)
  have tk: "take (length ?p - length (after_first ?p)) ?p = CHR ''/'' # root" unfolding af by simp
  from mnt obtain b vp v where m: "buf_blit nbuf 0 (CHR ''/'' # root) = Some b" "mount_lookup b s = Some (Inr mp)"
      "fs_attr (fstab s ! m_fs mp) = 0" "m_vp mp = Some vp" "vnodes s vp = Some v" "v_ops v = Some TMPFS_VOPS"
    by (auto simp: tmpfs_mounted_def split: option.splits)
  have 1: "namei nbuf nb (Some ?p) create s = namei_loop nb vp create (CHR ''/'' # name) vp s"
    using m unfolding namei_def Let_def option.case tk unfolding af by simp
  have fin: "namei_loop nb vp create [] v' s' = Some (Inr v', s')" for v' s' by (simp add: namei_loop.simps)
  have bn: "tmpfs_byname (Some name) s \<noteq> Inl ENOENT \<Longrightarrow> tmpfs_create (Some name) VTYPE_FILE s = (Inl EEXIST, s)"
    by (auto simp: tmpfs_create_def tmpfs_byname_def split: option.splits)
  have nd: "dropWhile (\<lambda>c. c = CHR ''/'') name = name" using dropWhile_component(1) [OF name(1,2), of "[]"] by simp
  define lookup where "lookup = (\<lambda>s. case tmpfs_lookup (Some name) s of
      (Inl _, s) \<Rightarrow> Some (Inl ENOENT, s) | (Inr vp, s) \<Rightarrow> Some (Inr vp, s))"
  have lk: "(case vops_lookup nb TMPFS_VOPS name s' of
       None \<Rightarrow> None
     | Some (Inl e, s) \<Rightarrow> Some (Inl ENOENT, s)
     | Some (Inr vp', s) \<Rightarrow> namei_loop nb vp create [] vp' s) = lookup s'" for s'
    by (simp add: vops_lookup_def lookup_def fin split: prod.split sum.split)
  have step: "namei_loop nb vp create (CHR ''/'' # name) vp s =
      (case (if create then Some (tmpfs_create (Some name) VTYPE_FILE s) else Some (Inr (), s)) of
         None \<Rightarrow> None
       | Some (Inl e, s) \<Rightarrow> Some (Inl e, s)
       | Some (Inr _, s) \<Rightarrow> lookup s)"
    unfolding namei_loop.simps [of nb vp create "CHR ''/'' # name"] Let_def dropWhile_slash nd
      dropWhile_component(2,3) [OF name(1,2)]
    using m name(3)
    by (cases "tmpfs_create (Some name) VTYPE_FILE s"; cases "fst (tmpfs_create (Some name) VTYPE_FILE s)")
      (simp_all add: vop_create_def lk)
  show ?thesis
    unfolding 1 step lookup_def [symmetric] Let_def
    using bn by (cases create; cases "tmpfs_byname (Some name) s = Inl ENOENT") simp_all
qed

theorem namei_tmpfs_witness:
  "let mv = ex_vnode\<lparr>v_type := VTYPE_DIR, v_data := None\<rparr>;
       mp = \<lparr>m_vp = Some 5, m_fs = 2, m_name = ''/tmp'' @ [NUL]\<rparr>;
       s = ex_fs\<lparr>fstab := fstab0, mlist := [mp], vnodes := [5 \<mapsto> mv]\<rparr>
   in tmpfs_mounted (replicate 8 NUL) ''tmp'' mp s \<and>
      namei (replicate 8 NUL) [] (Some ''/tmp/a'') True s = Some (Inl EEXIST, s)"
proof -
  define mp where "mp = \<lparr>m_vp = Some 5, m_fs = 2, m_name = ''/tmp'' @ [NUL]\<rparr>"
  define s where "s = ex_fs\<lparr>fstab := fstab0, mlist := [mp], vnodes := [5 \<mapsto> ex_vnode\<lparr>v_type := VTYPE_DIR, v_data := None\<rparr>]\<rparr>"
  have m: "tmpfs_mounted (replicate 8 NUL) ''tmp'' mp s"
    by (simp add: tmpfs_mounted_def s_def mp_def buf_blit_def mount_lookup_def numeral_eq_Suc fstab0_def ex_vnode_def)
  have "tmpfs_byname (Some ''a'') s \<noteq> Inl ENOENT"
    by (simp add: tmpfs_byname_def s_def ex_fs_def ex_node_def streq_cstr)
  then have "namei (replicate 8 NUL) [] (Some ''/tmp/a'') True s = Some (Inl EEXIST, s)"
    using namei_tmpfs [OF m, of "''a''" "[]" True] by simp
  then show ?thesis using m by (simp add: s_def mp_def Let_def)
qed

end
