(* ===== verification/Os_Sched.thy ===== *)
theory Os_Sched
  imports Mmu Os_Vfs
begin

text \<open>
  Processes, processor cores and the scheduler: \<^verbatim>\<open>os/os_sched.c\<close>, \<^verbatim>\<open>cpu_get\<close> of \<^verbatim>\<open>arch/amd64/cpu/cpu_mp.c\<close>, the
  context switch of \<^verbatim>\<open>arch/amd64/os/os_proc.c\<close>, and sleeping and waking in \<^verbatim>\<open>os/os_proc.c\<close>.  A process is named by
  the number of the allocation it lives in.  The timer and the interrupt controller are not modelled: a
  switch happens whenever the timer's handler is called.
\<close>

section \<open>Processes and cores\<close>

record trapframe =
  trapno :: u64
  rax :: u64
  rcx :: u64
  rdx :: u64
  rbx :: u64
  rsi :: u64
  rdi :: u64
  rbp :: u64
  r8 :: u64
  r9 :: u64
  r10 :: u64
  r11 :: u64
  r12 :: u64
  r13 :: u64
  r14 :: u64
  r15 :: u64
  error_code :: u64
  rip :: u64
  cs :: u64
  rflags :: u64
  rsp :: u64
  ss :: u64

record filedesc =
  fd_id :: nat
  fdno :: int
  fd_off :: u64
  fd_vp :: "nat option"
  fd_mode :: u32

record vm_range =
  pa_base :: u64
  va_base :: u64
  r_len :: u64

record ucred =
  ruid :: u32
  euid :: u32
  suid :: u32

datatype mac_level = MAC_GLOBAL | MAC_RESTRICTED | MAC_SECRET

text \<open>
  The kernel's copy of an environment block: the allocations of the block and of the argument vector, and the
  arguments.
\<close>

record penv_blk =
  eb_id :: nat
  eb_argv :: nat
  eb_args :: "heapstr option list"

record proc =
  pid :: u32
  flags :: u32
  pcb_vas :: u64
  pcb_tf :: trapframe
  fdtab :: "filedesc option list"
  envblk :: "penv_blk option"
  envblk_box :: "ptrbox option"
  parent :: "nat option"
  cred :: ucred
  level :: mac_level
  maplist :: "vm_range list"

abbreviation PROC_EXITING :: u32 where "PROC_EXITING \<equiv> 1"
abbreviation PROC_SLEEPING :: u32 where "PROC_SLEEPING \<equiv> 2"
abbreviation PROC_KTD :: u32 where "PROC_KTD \<equiv> 4"

text \<open>A core: its current process and its run queue with the count kept beside it.\<close>

record pcore =
  curproc :: "nat option"
  scq :: "nat list"
  nproc :: nat

text \<open>
  The kernel: the file systems with the heap, the process store, the list of all processes, the cores (the
  first is the boot processor), the core the code runs on (\<open>None\<close> before its descriptor is set up), the
  round robin index, the first process and the bytes of the current user address space.
\<close>

record kern = mmu +
  kfs :: fstate
  procs :: "nat \<Rightarrow> proc option"
  procq_i :: bool
  procq :: "nat list"
  next_pid :: u32
  cores :: "pcore list"
  this_core :: "nat option"
  rr_id :: nat
  rootproc :: nat
  umem :: "u64 \<Rightarrow> char option"

definition upd_core :: "nat \<Rightarrow> (pcore \<Rightarrow> pcore) \<Rightarrow> kern \<Rightarrow> kern" where
  "upd_core c f s = s\<lparr>cores := (cores s)[c := f (cores s ! c)]\<rparr>"

definition upd_proc :: "nat \<Rightarrow> (proc \<Rightarrow> proc) \<Rightarrow> kern \<Rightarrow> kern" where
  "upd_proc p f s = s\<lparr>procs := (procs s)(p := map_option f (procs s p))\<rparr>"

definition proc_self :: "kern \<Rightarrow> nat option" where
  "proc_self s = (case this_core s of None \<Rightarrow> None | Some c \<Rightarrow> curproc (cores s ! c))"

section \<open>Choosing a core\<close>

definition cpu_get :: "kern \<Rightarrow> u16 \<Rightarrow> nat option" where
  "cpu_get s index =
     (if index = 0 then Some 0
      else if length (cores s) - 1 \<le> unat index - 1 then None
      else Some (unat index))"

text \<open>The index is a \<^verbatim>\<open>size_t\<close> that is truncated when it is handed to \<^verbatim>\<open>cpu_get\<close>.\<close>

definition cpu_sched :: "kern \<Rightarrow> nat option \<times> kern" where
  "cpu_sched s =
     (let r = cpu_get s (of_nat (rr_id s)); s = s\<lparr>rr_id := rr_id s + 1\<rparr>
      in if r = None then (cpu_get s 0, s\<lparr>rr_id := 1\<rparr>) else (r, s))"

section \<open>Run queues\<close>

text \<open>
  A process is linked into a queue through one link field, so inserting one that is in a queue already destroys
  the list: \<open>None\<close>.
\<close>

definition sched_enq :: "nat \<Rightarrow> nat \<Rightarrow> kern \<Rightarrow> kern option" where
  "sched_enq c p s =
     (if list_ex (\<lambda>k. p \<in> set (scq k)) (cores s) then None
      else Some (upd_core c (\<lambda>k. k\<lparr>scq := scq k @ [p], nproc := nproc k + 1\<rparr>) s))"

definition sleeping :: "kern \<Rightarrow> nat \<Rightarrow> bool" where
  "sleeping s p = (case procs s p of None \<Rightarrow> False | Some pr \<Rightarrow> flags pr AND PROC_SLEEPING \<noteq> 0)"

fun first_awake :: "kern \<Rightarrow> nat list \<Rightarrow> nat option" where
  "first_awake s [] = None"
| "first_awake s (p # ps) = (if sleeping s p then first_awake s ps else Some p)"

definition sched_deq :: "nat \<Rightarrow> kern \<Rightarrow> nat res \<times> kern" where
  "sched_deq c s =
     (let k = cores s ! c
      in if nproc k = 0 then (Inl EAGAIN, s)
         else
           (case first_awake s (scq k) of
              None \<Rightarrow> (Inl EAGAIN, s)
            | Some p \<Rightarrow> (Inr p, upd_core c (\<lambda>k. k\<lparr>scq := remove1 p (scq k), nproc := nproc k - 1\<rparr>) s)))"

text \<open>\<open>None\<close> is the panic without a core.\<close>

definition sched_init :: "kern \<Rightarrow> kern option" where
  "sched_init s = (case this_core s of None \<Rightarrow> None | Some c \<Rightarrow> Some (upd_core c (\<lambda>k. k\<lparr>scq := []\<rparr>) s))"

section \<open>Sleeping and waking\<close>

text \<open>The halt until the next timer interrupt is not part of the state.\<close>

definition proc_sleep :: "nat option \<Rightarrow> kern \<Rightarrow> unit res \<times> kern" where
  "proc_sleep p s =
     (case (p, this_core s) of
        (Some p, Some _) \<Rightarrow> (Inr (), upd_proc p (\<lambda>pr. pr\<lparr>flags := flags pr OR PROC_SLEEPING\<rparr>) s)
      | _ \<Rightarrow> (Inl EINVAL, s))"

definition proc_wake :: "nat option \<Rightarrow> kern \<Rightarrow> bool \<times> kern" where
  "proc_wake p s =
     (case cpu_sched s of
        (core, s) \<Rightarrow>
          (case (core, p) of
             (Some _, Some p) \<Rightarrow>
               if \<not> sleeping s p then (False, s)
               else (True, upd_proc p (\<lambda>pr. pr\<lparr>flags := flags pr AND NOT PROC_SLEEPING\<rparr>) s)
           | _ \<Rightarrow> (False, s)))"

section \<open>The context switch\<close>

definition md_set_ip :: "nat \<Rightarrow> u64 \<Rightarrow> kern \<Rightarrow> kern" where
  "md_set_ip p ip s = upd_proc p (\<lambda>pr. pr\<lparr>pcb_tf := (pcb_tf pr)\<lparr>rip := ip\<rparr>\<rparr>) s"

definition md_sched_switch :: "trapframe \<Rightarrow> kern \<Rightarrow> (trapframe \<times> kern) option" where
  "md_sched_switch tf s =
     (case this_core s of
        None \<Rightarrow> Some (tf, s)
      | Some c \<Rightarrow>
          (case (case curproc (cores s ! c) of
                   None \<Rightarrow> Some s
                 | Some self \<Rightarrow> map_option (upd_proc self (\<lambda>pr. pr\<lparr>pcb_tf := tf\<rparr>)) (sched_enq c self s)) of
             None \<Rightarrow> None
           | Some s \<Rightarrow>
               (case sched_deq c s of
                  (Inl _, s) \<Rightarrow> Some (tf, s)
                | (Inr p, s) \<Rightarrow>
                    (case procs s p of
                       None \<Rightarrow> None
                     | Some pr \<Rightarrow>
                         Some (pcb_tf pr,
                               snd (mmu_write_vas (pcb_vas pr) (upd_core c (\<lambda>k. k\<lparr>curproc := Some p\<rparr>) s)))))))"

section \<open>The invariant of a core\<close>

abbreviation core_of :: "nat \<Rightarrow> kern \<Rightarrow> pcore" where "core_of c s \<equiv> cores s ! c"

definition ready :: "nat \<Rightarrow> kern \<Rightarrow> nat list" where
  "ready c s = scq (core_of c s) @ (case curproc (core_of c s) of None \<Rightarrow> [] | Some p \<Rightarrow> [p])"

text \<open>
  The processes of the core that runs: each of them exists and is in one place, the count is right, and no other
  core has any of them in its queue.
\<close>

definition sched_ok :: "nat \<Rightarrow> kern \<Rightarrow> bool" where
  "sched_ok c s \<longleftrightarrow>
     this_core s = Some c \<and> c < length (cores s) \<and> distinct (ready c s) \<and>
     nproc (core_of c s) = length (scq (core_of c s)) \<and>
     (\<forall>p \<in> set (ready c s). procs s p \<noteq> None) \<and>
     (\<forall>j < length (cores s). j \<noteq> c \<longrightarrow> set (scq (core_of j s)) \<inter> set (ready c s) = {})"

lemma first_awake_eq: "first_awake s ps = find (\<lambda>p. \<not> sleeping s p) ps"
  by (induction ps) auto

lemma first_awake_in: "first_awake s ps = Some p \<Longrightarrow> p \<in> set ps \<and> \<not> sleeping s p"
  by (auto simp: first_awake_eq find_Some_iff)

lemma first_awake_ex: "p \<in> set ps \<Longrightarrow> \<not> sleeping s p \<Longrightarrow> \<exists>x. first_awake s ps = Some x"
  by (cases "first_awake s ps") (auto simp: first_awake_eq find_None_iff)

lemma upd_core_proj [simp]:
  "this_core (upd_core c f s) = this_core s" "procs (upd_core c f s) = procs s"
  "length (cores (upd_core c f s)) = length (cores s)" "cr3 (upd_core c f s) = cr3 s"
  "c < length (cores s) \<Longrightarrow> core_of j (upd_core c f s) = (if j = c then f (core_of c s) else core_of j s)"
  by (simp_all add: upd_core_def)

lemma upd_proc_proj [simp]:
  "this_core (upd_proc p f s) = this_core s" "cores (upd_proc p f s) = cores s" "cr3 (upd_proc p f s) = cr3 s"
  "procs (upd_proc p f s) q = (if q = p then map_option f (procs s p) else procs s q)"
  by (simp_all add: upd_proc_def)

lemma write_vas_proj [simp]:
  "this_core (snd (mmu_write_vas v s)) = this_core s" "cores (snd (mmu_write_vas v s)) = cores s"
  "procs (snd (mmu_write_vas v s)) = procs s" "v \<noteq> 0 \<Longrightarrow> cr3 (snd (mmu_write_vas v s)) = v" for s :: kern
  by (simp_all add: mmu_write_vas_def mmu_write_cr3_def)

lemma sleeping_cong: "procs s p = procs s' p \<Longrightarrow> sleeping s p = sleeping s' p"
  by (simp add: sleeping_def)

lemma first_awake_cong: "(\<And>p. p \<in> set ps \<Longrightarrow> sleeping s p = sleeping s' p) \<Longrightarrow> first_awake s ps = first_awake s' ps"
  by (induction ps) auto

text \<open>
  The switch with somebody to run: the process switched out goes to the end of the queue with its frame saved, the
  first process that is awake comes out of it.
\<close>

lemma switch_runs:
  assumes ok: "sched_ok c s" and x: "first_awake s (ready c s) = Some x"
  shows "\<exists>tf' s'. md_sched_switch tf s = Some (tf', s') \<and> sched_ok c s' \<and>
    curproc (core_of c s') = Some x \<and> scq (core_of c s') = remove1 x (ready c s) \<and>
    (\<forall>p. procs s' p = (if curproc (core_of c s) = Some p then map_option (\<lambda>pr. pr\<lparr>pcb_tf := tf\<rparr>) (procs s p) else procs s p)) \<and>
    (\<exists>pr. procs s' x = Some pr \<and> tf' = pcb_tf pr \<and> (pcb_vas pr \<noteq> 0 \<longrightarrow> cr3 s' = pcb_vas pr))"
proof -
  let ?k = "core_of c s"
  from ok have c: "this_core s = Some c" "c < length (cores s)" "nproc ?k = length (scq ?k)" "distinct (ready c s)"
      "\<forall>p \<in> set (ready c s). procs s p \<noteq> None"
      "\<forall>j < length (cores s). j \<noteq> c \<longrightarrow> set (scq (core_of j s)) \<inter> set (ready c s) = {}"
    by (auto simp: sched_ok_def)
  define s1 where "s1 = (case curproc ?k of
       None \<Rightarrow> s
     | Some self \<Rightarrow> upd_proc self (\<lambda>pr. pr\<lparr>pcb_tf := tf\<rparr>)
         (upd_core c (\<lambda>k. k\<lparr>scq := scq k @ [self], nproc := nproc k + 1\<rparr>) s))"
  have notin: "\<not> list_ex (\<lambda>k. self \<in> set (scq k)) (cores s)" if "curproc ?k = Some self" for self
  proof -
    have "self \<notin> set (scq (core_of j s))" if "j < length (cores s)" for j
      using c(4,6) that \<open>curproc ?k = Some self\<close> by (cases "j = c") (auto simp: ready_def)
    then show ?thesis by (auto simp: list_ex_length)
  qed
  have e: "(case curproc ?k of None \<Rightarrow> Some s
     | Some self \<Rightarrow> map_option (upd_proc self (\<lambda>pr. pr\<lparr>pcb_tf := tf\<rparr>)) (sched_enq c self s)) = Some s1"
    using notin by (auto simp: s1_def sched_enq_def split: option.split)
  have q1: "scq (core_of c s1) = ready c s" "nproc (core_of c s1) = length (ready c s)"
      "this_core s1 = Some c" "length (cores s1) = length (cores s)" "curproc (core_of c s1) = curproc ?k"
    using c by (auto simp: s1_def ready_def split: option.split)
  have oth: "j \<noteq> c \<Longrightarrow> core_of j s1 = core_of j s" for j
    using c(2) by (auto simp: s1_def split: option.split)
  have pr1: "procs s1 p = (if curproc ?k = Some p then map_option (\<lambda>pr. pr\<lparr>pcb_tf := tf\<rparr>) (procs s p) else procs s p)" for p
    by (auto simp: s1_def split: option.split)
  have sl: "sleeping s1 p = sleeping s p" for p
    by (auto simp: sleeping_def pr1 option.case_eq_if)
  have fa: "first_awake s1 (ready c s) = Some x"
    using x first_awake_cong [of "ready c s" s1 s] sl by simp
  have xin: "x \<in> set (ready c s)" using first_awake_in [OF x] by simp
  then obtain pr where pr: "procs s1 x = Some pr" using c(5) by (fastforce simp: pr1)
  define s2 where "s2 = upd_core c (\<lambda>k. k\<lparr>scq := remove1 x (scq k), nproc := nproc k - 1\<rparr>) s1"
  define s3 where "s3 = snd (mmu_write_vas (pcb_vas pr) (upd_core c (\<lambda>k. k\<lparr>curproc := Some x\<rparr>) s2))"
  have "nproc (core_of c s1) \<noteq> 0" using q1(2) xin by (auto dest: length_pos_if_in_set)
  then have dq: "sched_deq c s1 = (Inr x, s2)" using fa q1(1) by (simp add: sched_deq_def s2_def)
  have sw: "md_sched_switch tf s = Some (pcb_tf pr, s3)"
    unfolding md_sched_switch_def using c(1) e dq pr by (simp add: s3_def s2_def)
  have k3: "curproc (core_of c s3) = Some x" "scq (core_of c s3) = remove1 x (ready c s)"
      "nproc (core_of c s3) = length (ready c s) - 1" "this_core s3 = Some c" "length (cores s3) = length (cores s)"
      "procs s3 = procs s1" "j \<noteq> c \<Longrightarrow> core_of j s3 = core_of j s" for j
    using q1 c(2) oth by (simp_all add: s3_def s2_def)
  have rd: "set (ready c s3) = set (ready c s)" "distinct (ready c s3)"
    using k3(1,2) c(4) xin by (auto simp: ready_def [of c s3] distinct_remove1 set_remove1_eq)
  have "sched_ok c s3"
    unfolding sched_ok_def rd(1) using k3 c rd xin
    by (auto simp: length_remove1 pr1)
  moreover have "pcb_vas pr \<noteq> 0 \<Longrightarrow> cr3 s3 = pcb_vas pr" by (simp add: s3_def)
  ultimately show ?thesis using sw k3 pr pr1 by auto
qed
section \<open>Properties\<close>

text \<open>How many processes that are awake stand before a process in a queue.\<close>

definition rank :: "kern \<Rightarrow> nat list \<Rightarrow> nat \<Rightarrow> nat" where
  "rank s ps p = length (filter (\<lambda>q. \<not> sleeping s q) (takeWhile (\<lambda>q. q \<noteq> p) ps))"

lemma rank_append: "p \<in> set ps \<Longrightarrow> rank s (ps @ qs) p = rank s ps p"
  by (auto simp: rank_def)

lemma rank_0: "p \<in> set ps \<Longrightarrow> \<not> sleeping s p \<Longrightarrow> rank s ps p = 0 \<longleftrightarrow> first_awake s ps = Some p"
  by (induction ps) (auto simp: rank_def)

lemma rank_remove:
  "p \<in> set ps \<Longrightarrow> \<not> sleeping s p \<Longrightarrow> first_awake s ps = Some x \<Longrightarrow> x \<noteq> p \<Longrightarrow>
   rank s ps p = Suc (rank s (remove1 x ps) p)"
proof (induction ps)
  case (Cons q ps)
  show ?case
  proof (cases "sleeping s q")
    case True
    then have "q \<noteq> p" "x \<noteq> q" using Cons.prems first_awake_in [of s ps x] by auto
    then show ?thesis using Cons True by (auto simp: rank_def)
  next
    case False
    then show ?thesis using Cons.prems by (auto simp: rank_def)
  qed
qed simp

lemma rank_cong: "(\<And>q. sleeping s q = sleeping s' q) \<Longrightarrow> rank s ps p = rank s' ps p"
  by (simp add: rank_def)

text \<open>
  Switches in a row.  Between two of them the running process changes its registers, here by the functions of the
  list.
\<close>

fun switches :: "(trapframe \<Rightarrow> trapframe) list \<Rightarrow> trapframe \<Rightarrow> kern \<Rightarrow> (trapframe \<times> kern) option" where
  "switches [] tf s = Some (tf, s)"
| "switches (f # fs) tf s =
     (case md_sched_switch (f tf) s of None \<Rightarrow> None | Some (tf, s) \<Rightarrow> switches fs tf s)"

text \<open>A kernel with one core, two processes waiting and one running; the second process sleeps.\<close>

definition ex_tf :: trapframe where
  "ex_tf = \<lparr>trapno = 0, rax = 0, rcx = 0, rdx = 0, rbx = 0, rsi = 0, rdi = 0, rbp = 0, r8 = 0, r9 = 0, r10 = 0,
     r11 = 0, r12 = 0, r13 = 0, r14 = 0, r15 = 0, error_code = 0, rip = 0, cs = 0, rflags = 0, rsp = 0, ss = 0\<rparr>"

definition ex_proc :: "u32 \<Rightarrow> u32 \<Rightarrow> proc" where
  "ex_proc i fl = \<lparr>pid = i, flags = fl, pcb_vas = 4096 * ucast i, pcb_tf = ex_tf\<lparr>rip := ucast i\<rparr>,
     fdtab = replicate 256 None, envblk = None, envblk_box = None, parent = None, cred = \<lparr>ruid = 0, euid = 0, suid = 0\<rparr>, level = MAC_GLOBAL, maplist = []\<rparr>"

definition ex_kern :: "u32 \<Rightarrow> kern" where
  "ex_kern fl = \<lparr>pages_free = 0, pages_used = 0, pages_total = 0, highest_frame_idx = 0, bitmap_size = 0,
     bitmap_free_start = 0, last_idx = 0, bitmap = None, entries = [], mem = \<lambda>_. 0, cr3 = 0, cr4 = 0,
     kvas_cr3 = 0, hhdm = 0, tlb = \<lambda>_. False, kfs = ex_fs,
     procs = [1 \<mapsto> ex_proc 1 fl, 2 \<mapsto> ex_proc 2 PROC_SLEEPING, 3 \<mapsto> ex_proc 3 fl],
     procq_i = True, procq = [1, 2, 3], next_pid = 4,
     cores = [\<lparr>curproc = Some 3, scq = [2, 1], nproc = 2\<rparr>], this_core = Some 0, rr_id = 0,
     rootproc = 1, umem = \<lambda>_. None\<rparr>"

lemma ex_kern_ok: "sched_ok 0 (ex_kern fl)"
  by (simp add: sched_ok_def ex_kern_def ready_def)

text \<open>
  C10 (\<^verbatim>\<open>md_sched_switch\<close>, \<^verbatim>\<open>sched_enq\<close>, \<^verbatim>\<open>sched_deq\<close>).  No process that is awake starves: one that waits in the run queue behind \<open>n\<close>
  processes that are awake runs after exactly \<open>n + 1\<close> switches, with the registers it was switched out with and in
  its own address space, whatever the processes before it do to their registers.
\<close>

theorem sched_fair:
  assumes ok: "sched_ok c s" and p: "p \<in> set (scq (core_of c s))" "\<not> sleeping s p" "procs s p = Some pr"
    and len: "length fs = rank s (scq (core_of c s)) p + 1"
  shows "\<exists>tf' s'. switches fs tf s = Some (tf', s') \<and> sched_ok c s' \<and> curproc (core_of c s') = Some p \<and>
    tf' = pcb_tf pr \<and> (pcb_vas pr \<noteq> 0 \<longrightarrow> cr3 s' = pcb_vas pr)"
  using assms
proof (induction fs arbitrary: tf s)
  case (Cons f fs)
  let ?q = "scq (core_of c s)"
  have rin: "p \<in> set (ready c s)" using Cons.prems(2) by (simp add: ready_def)
  have rk: "rank s (ready c s) p = rank s ?q p" using Cons.prems(2) by (simp add: ready_def rank_append)
  obtain x where x: "first_awake s (ready c s) = Some x" using first_awake_ex [OF rin Cons.prems(3)] by blast
  have cur: "curproc (core_of c s) \<noteq> Some p"
    using Cons.prems(1,2) by (auto simp: sched_ok_def ready_def split: option.splits)
  obtain tf1 s1 where s1: "md_sched_switch (f tf) s = Some (tf1, s1)" "sched_ok c s1" "curproc (core_of c s1) = Some x"
      "scq (core_of c s1) = remove1 x (ready c s)"
      "\<forall>p. procs s1 p = (if curproc (core_of c s) = Some p then map_option (\<lambda>pr. pr\<lparr>pcb_tf := f tf\<rparr>) (procs s p) else procs s p)"
      "\<exists>pr. procs s1 x = Some pr \<and> tf1 = pcb_tf pr \<and> (pcb_vas pr \<noteq> 0 \<longrightarrow> cr3 s1 = pcb_vas pr)"
    using switch_runs [OF Cons.prems(1) x, of "f tf"] by blast
  have pp: "procs s1 p = Some pr" using s1(5) cur Cons.prems(4) by simp
  have sl: "sleeping s1 q = sleeping s q" for q
    using s1(5) by (auto simp: sleeping_def option.case_eq_if)
  show ?case
  proof (cases "x = p")
    case True
    then have "rank s ?q p = 0" using rank_0 [OF rin Cons.prems(3)] x rk by simp
    then have "fs = []" using Cons.prems(5) by simp
    then show ?thesis using s1 True pp by auto
  next
    case False
    have "p \<in> set (scq (core_of c s1))" using s1(4) rin False by simp
    moreover have "rank s1 (scq (core_of c s1)) p + 1 = rank s ?q p"
      using rank_remove [OF rin Cons.prems(3) x False] rk s1(4) rank_cong [OF sl] by simp
    ultimately show ?thesis
      using Cons.IH [of s1 tf1] s1(1,2) sl pp Cons.prems(3,5) by simp
  qed
qed simp

theorem sched_fair_witness:
  "\<exists>tf' s'. switches [\<lambda>tf. tf\<lparr>rax := 7\<rparr>] ex_tf (ex_kern 0) = Some (tf', s') \<and>
     curproc (core_of 0 s') = Some 1 \<and> rip tf' = 1 \<and> cr3 s' = 4096"
proof -
  have p: "1 \<in> set (scq (core_of 0 (ex_kern 0)))" "\<not> sleeping (ex_kern 0) 1" "procs (ex_kern 0) 1 = Some (ex_proc 1 0)"
    by (simp_all add: ex_kern_def sleeping_def ex_proc_def)
  have "length [\<lambda>tf :: trapframe. tf\<lparr>rax := 7\<rparr>] = rank (ex_kern 0) (scq (core_of 0 (ex_kern 0))) 1 + 1"
    by (simp add: rank_def ex_kern_def sleeping_def ex_proc_def)
  from sched_fair [OF ex_kern_ok p this, of ex_tf] show ?thesis
    by (force simp: ex_proc_def)
qed

text \<open>
  C38 (\<^verbatim>\<open>md_sched_switch\<close>, \<^verbatim>\<open>sched_enq\<close>).  When the current process and everything in the run queue is asleep, the switch puts
  the current process into the queue and leaves it current; the next switch then inserts it a second time,
  which destroys the queue.
\<close>

theorem sched_all_asleep:
  assumes ok: "sched_ok c s" and cur: "curproc (core_of c s) = Some p" and "\<forall>q \<in> set (ready c s). sleeping s q"
  shows "switches [f, g] tf s = None"
proof -
  let ?k = "core_of c s"
  define s0 where "s0 = upd_core c (\<lambda>k. k\<lparr>scq := scq k @ [p], nproc := nproc k + 1\<rparr>) s"
  define s1 where "s1 = upd_proc p (\<lambda>pr. pr\<lparr>pcb_tf := f tf\<rparr>) s0"
  have c: "this_core s = Some c" "c < length (cores s)" using ok by (simp_all add: sched_ok_def)
  have "p \<notin> set (scq (core_of j s))" if "j < length (cores s)" for j
    using ok cur that by (cases "j = c") (auto simp: sched_ok_def ready_def)
  then have "\<not> list_ex (\<lambda>k. p \<in> set (scq k)) (cores s)" by (auto simp: list_ex_length)
  then have e: "sched_enq c p s = Some s0" by (simp add: sched_enq_def s0_def)
  have sl: "sleeping s1 q = sleeping s q" for q
    by (auto simp: s1_def s0_def sleeping_def option.case_eq_if)
  have k1: "scq (core_of c s1) = ready c s" using cur c by (simp add: s1_def s0_def ready_def)
  have "first_awake s1 (ready c s) = None"
    using assms(3) sl by (auto simp: first_awake_eq find_None_iff)
  then have "sched_deq c s1 = (Inl EAGAIN, s1)" using k1 by (simp add: sched_deq_def Let_def)
  then have 1: "md_sched_switch (f tf) s = Some (f tf, s1)"
    unfolding md_sched_switch_def using c(1) cur e by (simp add: s1_def [symmetric])
  have "p \<in> set (scq (core_of c s1))" using k1 cur by (simp add: ready_def)
  then have "list_ex (\<lambda>k. p \<in> set (scq k)) (cores s1)"
    using c(2) unfolding list_ex_length by (intro exI [of _ c]) (simp add: s1_def s0_def)
  moreover have "this_core s1 = Some c" "curproc (core_of c s1) = Some p" using c cur by (simp_all add: s1_def s0_def)
  ultimately have "md_sched_switch (g (f tf)) s1 = None" unfolding md_sched_switch_def by (simp add: sched_enq_def)
  then show ?thesis using 1 by simp
qed

theorem sched_all_asleep_witness: "switches [id, id] ex_tf (ex_kern PROC_SLEEPING) = None"
  by (rule sched_all_asleep [OF ex_kern_ok])
    (simp_all add: ex_kern_def ready_def sleeping_def ex_proc_def)

text \<open>The cores that a number of calls of \<^verbatim>\<open>cpu_sched\<close> in a row return.\<close>

fun cpu_calls :: "nat \<Rightarrow> kern \<Rightarrow> nat option list" where
  "cpu_calls 0 s = []"
| "cpu_calls (Suc k) s = (case cpu_sched s of (r, s) \<Rightarrow> r # cpu_calls k s)"

lemma cpu_sched_next:
  assumes "rr_id s \<le> length (cores s)" and "0 < length (cores s)" and "length (cores s) < 2 ^ 16"
  shows "cpu_sched s = (Some (rr_id s mod length (cores s)), s\<lparr>rr_id := rr_id s mod length (cores s) + 1\<rparr>)"
proof -
  have u: "unat (word_of_nat (rr_id s) :: u16) = rr_id s" using assms by (simp add: unat_of_nat)
  have z: "(word_of_nat (rr_id s) :: u16) = 0 \<longleftrightarrow> rr_id s = 0" by (subst unat_eq_zero [symmetric]) (simp only: u)
  show ?thesis
  proof (cases "rr_id s < length (cores s)")
    case True
    then show ?thesis using assms u z by (auto simp: cpu_sched_def cpu_get_def Let_def)
  next
    case False
    then have "rr_id s = length (cores s)" using assms(1) by simp
    then show ?thesis using assms u z by (auto simp: cpu_sched_def cpu_get_def Let_def)
  qed
qed

text \<open>
  The cores are handed out in turn: the \<open>i\<close>-th of any number of calls returns the core \<open>i\<close>
  places after the next one, around the list of cores.
\<close>

theorem cpu_sched_round_robin:
  assumes "rr_id s \<le> length (cores s)" and "0 < length (cores s)" and "length (cores s) < 2 ^ 16"
  shows "cpu_calls k s = map (\<lambda>i. Some ((rr_id s + i) mod length (cores s))) [0..<k]"
  using assms
proof (induction k arbitrary: s)
  case (Suc k)
  let ?n = "length (cores s)"
  define s' where "s' = s\<lparr>rr_id := rr_id s mod ?n + 1\<rparr>"
  have "rr_id s' \<le> length (cores s')" using Suc.prems(2) by (simp add: s'_def Suc_le_eq)
  moreover have "length (cores s') = ?n" by (simp add: s'_def)
  ultimately have "cpu_calls k s' = map (\<lambda>i. Some ((rr_id s' + i) mod ?n)) [0..<k]"
    using Suc.IH [of s'] Suc.prems by simp
  moreover have "(rr_id s' + i) mod ?n = (rr_id s + Suc i) mod ?n" for i
    using mod_add_left_eq [of "rr_id s" ?n "Suc i"] by (simp add: s'_def)
  ultimately have "cpu_calls k s' = map (\<lambda>i. Some ((rr_id s + Suc i) mod ?n)) [0..<k]" by simp
  moreover have "[0..<Suc k] = 0 # map Suc [0..<k]" by (metis map_Suc_upt upt_conv_Cons zero_less_Suc)
  ultimately show ?case
    using cpu_sched_next [OF Suc.prems] by (simp add: s'_def comp_def del: upt_Suc)
qed simp

theorem cpu_sched_round_robin_witness:
  "\<forall>c. cpu_calls 3 ((ex_kern 0)\<lparr>cores := [c, c]\<rparr>) = [Some 0, Some 1, Some 0]"
proof
  fix c
  show "cpu_calls 3 ((ex_kern 0)\<lparr>cores := [c, c]\<rparr>) = [Some 0, Some 1, Some 0]"
    using cpu_sched_round_robin [of "(ex_kern 0)\<lparr>cores := [c, c]\<rparr>" 3]
    by (simp add: ex_kern_def upt_rec)
qed

end
