(* ===== verification/Os_Fd.thy ===== *)
theory Os_Fd
  imports Os_Sched
begin

text \<open>
  The file descriptor table of a process: the first part of \<^verbatim>\<open>os/os_filedes.c\<close>.  \<open>None\<close> is an access through a
  null or an uninitialised pointer.
\<close>

abbreviation FD_MAX :: nat where "FD_MAX \<equiv> 256"

abbreviation O_RDONLY :: u32 where "O_RDONLY \<equiv> 0"
abbreviation O_RDWR :: u32 where "O_RDWR \<equiv> 2"
abbreviation O_WRONLY :: u32 where "O_WRONLY \<equiv> 4"
abbreviation O_CREAT :: u32 where "O_CREAT \<equiv> 8"

definition sizeof_filedesc :: nat where "sizeof_filedesc = 32"

definition set_heap :: "kheap \<Rightarrow> kern \<Rightarrow> kern" where
  "set_heap h s = s\<lparr>kfs := (kfs s)\<lparr>heap := h\<rparr>\<rparr>"

definition upd_fd :: "nat \<Rightarrow> nat \<Rightarrow> filedesc option \<Rightarrow> kern \<Rightarrow> kern" where
  "upd_fd p i fd s = upd_proc p (\<lambda>pr. pr\<lparr>fdtab := (fdtab pr)[i := fd]\<rparr>) s"

section \<open>Allocation\<close>

fun free_slot :: "filedesc option list \<Rightarrow> nat \<Rightarrow> nat option" where
  "free_slot [] i = None"
| "free_slot (fd # fds) i = (if fd \<noteq> None then free_slot fds (i + 1) else Some i)"

definition fd_alloc :: "nat \<Rightarrow> kern \<Rightarrow> (filedesc res \<times> kern) option" where
  "fd_alloc p s =
     (case procs s p of
        None \<Rightarrow> None
      | Some pr \<Rightarrow>
          (case free_slot (fdtab pr) 0 of
             None \<Rightarrow> Some (Inl EMFILE, s)
           | Some i \<Rightarrow>
               (case kalloc sizeof_filedesc (heap (kfs s)) of
                  (None, h) \<Rightarrow> Some (Inl EINVAL, set_heap h s)
                | (Some n, h) \<Rightarrow>
                    (let fd = \<lparr>fd_id = n, fdno = int i, fd_off = 0, fd_vp = None, fd_mode = 0\<rparr>
                     in Some (Inr fd, upd_fd p i (Some fd) (set_heap h s))))))"

text \<open>The loop variable keeps the last entry of the table when no entry has the number.\<close>

fun fd_find :: "int \<Rightarrow> filedesc option list \<Rightarrow> filedesc option \<Rightarrow> filedesc option" where
  "fd_find n [] fdp = fdp"
| "fd_find n (None # fds) fdp = fd_find n fds None"
| "fd_find n (Some fd # fds) fdp = (if fdno fd \<noteq> n then fd_find n fds (Some fd) else Some fd)"

definition fd_get :: "nat \<Rightarrow> int \<Rightarrow> kern \<Rightarrow> filedesc option option" where
  "fd_get p n s = map_option (\<lambda>pr. fd_find n (fdtab pr) None) (procs s p)"

text \<open>
  \<^verbatim>\<open>fd_dup\<close> tests the uninitialised variable \<^verbatim>\<open>new\<close> (\<open>new_null\<close>: whether it is NULL) instead of the descriptor it has
  looked up.
\<close>

definition fd_dup :: "bool \<Rightarrow> nat \<Rightarrow> int \<Rightarrow> kern \<Rightarrow> (filedesc option \<times> kern) option" where
  "fd_dup new_null p n s =
     (case fd_get p n s of
        None \<Rightarrow> None
      | Some old \<Rightarrow>
          if new_null then Some (None, s)
          else
            (case fd_alloc p s of
               None \<Rightarrow> None
             | Some (Inl _, s) \<Rightarrow> Some (None, s)
             | Some (Inr new, s) \<Rightarrow>
                 (case old of
                    None \<Rightarrow> None
                  | Some old \<Rightarrow>
                      (case (case fd_vp old of None \<Rightarrow> Some (kfs s) | Some vp \<Rightarrow> vnode_ref vp (kfs s)) of
                         None \<Rightarrow> None
                       | Some fs \<Rightarrow>
                           (let new = new\<lparr>fd_mode := fd_mode old, fd_vp := fd_vp old\<rparr>
                            in Some (Some new, upd_fd p (nat (fdno new)) (Some new) (s\<lparr>kfs := fs\<rparr>)))))))"

definition fdtab_init :: "bool \<Rightarrow> bool \<Rightarrow> nat \<Rightarrow> kern \<Rightarrow> (bool \<times> kern) option" where
  "fdtab_init n1 n2 p s =
     (case procs s p of
        None \<Rightarrow> None
      | Some pr \<Rightarrow>
          if fdtab pr ! 0 \<noteq> None then Some (False, s)
          else
            (case fd_alloc p s of
               None \<Rightarrow> None
             | Some (Inl _, s) \<Rightarrow> None
             | Some (Inr fd, s) \<Rightarrow>
                 (case fd_dup n1 p 0 (upd_fd p (nat (fdno fd)) (Some (fd\<lparr>fd_mode := O_RDWR\<rparr>)) s) of
                    None \<Rightarrow> None
                  | Some (_, s) \<Rightarrow>
                      (case fd_dup n2 p 0 s of None \<Rightarrow> None | Some (_, s) \<Rightarrow> Some (True, s)))))"

section \<open>The table\<close>

definition fdtab_ok :: "filedesc option list \<Rightarrow> bool" where
  "fdtab_ok fds \<longleftrightarrow> length fds = FD_MAX \<and> (\<forall>i < FD_MAX. \<forall>fd. fds ! i = Some fd \<longrightarrow> fdno fd = int i)"

lemma free_slot_Some:
  "free_slot fds k = Some i \<Longrightarrow> k \<le> i \<and> i - k < length fds \<and> fds ! (i - k) = None \<and> (\<forall>j < i - k. fds ! j \<noteq> None)"
proof (induction fds k rule: free_slot.induct)
  case (2 fd fds k)
  show ?case
  proof (cases "fd = None")
    case False
    with 2 have "k + 1 \<le> i \<and> i - (k + 1) < length fds \<and> fds ! (i - (k + 1)) = None \<and> (\<forall>j < i - (k + 1). fds ! j \<noteq> None)"
      by simp
    then obtain m where m: "i = k + 1 + m" "m < length fds" "fds ! m = None" "\<forall>j < m. fds ! j \<noteq> None"
      by (metis le_Suc_ex add_diff_cancel_left')
    then show ?thesis using False by (auto simp: nth_Cons split: nat.split)
  qed (use 2 in auto)
qed simp

lemma free_slot_None: "free_slot fds k = None \<longleftrightarrow> (\<forall>fd \<in> set fds. fd \<noteq> None)"
  by (induction fds k rule: free_slot.induct) auto

lemma fd_find_eq:
  "fd_find n fds fdp =
     (case find (\<lambda>fd. fd \<noteq> None \<and> fdno (the fd) = n) fds of
        Some fd \<Rightarrow> fd
      | None \<Rightarrow> if fds = [] then fdp else last fds)"
  by (induction n fds fdp rule: fd_find.induct) (auto split: option.split)

lemma fd_find_ok:
  assumes "fdtab_ok fds"
  shows "fd_find n fds None = (if 0 \<le> n \<and> n < int FD_MAX \<and> fds ! nat n \<noteq> None then fds ! nat n else fds ! (FD_MAX - 1))"
proof -
  have l: "length fds = FD_MAX" "fds \<noteq> []" using assms by (auto simp: fdtab_ok_def)
  have no: "fdno fd = int i" if "i < FD_MAX" "fds ! i = Some fd" for i fd using assms that by (simp add: fdtab_ok_def)
  show ?thesis
  proof (cases "find (\<lambda>fd. fd \<noteq> None \<and> fdno (the fd) = n) fds")
    case None
    have "fds ! nat n = None" if "0 \<le> n" "n < int FD_MAX"
    proof (rule ccontr)
      assume "fds ! nat n \<noteq> None"
      moreover have "nat n < FD_MAX" using that by simp
      ultimately show False using None no [of "nat n"] that l by (force simp: find_None_iff set_conv_nth)
    qed
    then show ?thesis using None l by (auto simp: fd_find_eq last_conv_nth)
  next
    case (Some r)
    then obtain i where i: "i < FD_MAX" "fds ! i = r" "r \<noteq> None" "fdno (the r) = n"
      using l by (auto simp: find_Some_iff)
    then have "n = int i" using no by auto
    then show ?thesis using Some i by (simp add: fd_find_eq)
  qed
qed

lemma fdtab_ok_upd:
  "fdtab_ok fds \<Longrightarrow> (\<And>fd. r = Some fd \<Longrightarrow> fdno fd = int i) \<Longrightarrow> fdtab_ok (fds[i := r])"
  unfolding fdtab_ok_def by (metis length_list_update nth_list_update_eq nth_list_update_neq)

text \<open>
  In a well-formed table the lookup of a number that is open returns its entry.  For every other
  number, also a negative one, it returns the last entry of the table.
\<close>

theorem fd_get_spec:
  assumes "procs s p = Some pr" and "fdtab_ok (fdtab pr)"
  shows "fd_get p n s =
    Some (if 0 \<le> n \<and> n < int FD_MAX \<and> fdtab pr ! nat n \<noteq> None then fdtab pr ! nat n else fdtab pr ! (FD_MAX - 1))"
  using assms fd_find_ok by (simp add: fd_get_def)

text \<open>
  C31 (\<^verbatim>\<open>fd_alloc\<close>).  The allocation takes the lowest free number, changes no other entry and keeps the table well formed;
  it fails with \<^verbatim>\<open>EMFILE\<close> exactly when every number is taken.
\<close>

theorem fd_alloc_spec:
  assumes pr: "procs s p = Some pr" and ok: "fdtab_ok (fdtab pr)"
  shows "\<exists>r s' pr'. fd_alloc p s = Some (r, s') \<and> procs s' p = Some pr' \<and> fdtab_ok (fdtab pr') \<and>
    (r = Inl EMFILE \<longleftrightarrow> None \<notin> set (fdtab pr)) \<and>
    (case r of
       Inl _ \<Rightarrow> pr' = pr
     | Inr fd \<Rightarrow> \<exists>i < FD_MAX. fdno fd = int i \<and> fd_vp fd = None \<and> fdtab pr ! i = None \<and>
         (\<forall>j < i. fdtab pr ! j \<noteq> None) \<and> fdtab pr' = (fdtab pr)[i := Some fd])"
proof (cases "free_slot (fdtab pr) 0")
  case None
  then have "None \<notin> set (fdtab pr)" by (auto simp: free_slot_None)
  then show ?thesis using None pr ok by (auto simp: fd_alloc_def)
next
  case (Some i)
  from free_slot_Some [OF Some] have i: "i < FD_MAX" "fdtab pr ! i = None" "\<forall>j < i. fdtab pr ! j \<noteq> None"
    using ok by (auto simp: fdtab_ok_def)
  then have nn: "None \<in> set (fdtab pr)" using ok by (metis fdtab_ok_def nth_mem)
  obtain m h where k: "kalloc sizeof_filedesc (heap (kfs s)) = (m, h)" by fastforce
  show ?thesis
  proof (cases m)
    case None
    then show ?thesis using Some pr ok k nn by (simp add: fd_alloc_def set_heap_def)
  next
    case (Some n)
    define fd where "fd = \<lparr>fd_id = n, fdno = int i, fd_off = 0, fd_vp = None, fd_mode = 0\<rparr>"
    have "fd_alloc p s = Some (Inr fd, upd_fd p i (Some fd) (set_heap h s))"
      using \<open>free_slot (fdtab pr) 0 = Some i\<close> Some pr k by (simp add: fd_alloc_def fd_def Let_def)
    moreover have "procs (upd_fd p i (Some fd) (set_heap h s)) p = Some (pr\<lparr>fdtab := (fdtab pr)[i := Some fd]\<rparr>)"
      using pr by (simp add: upd_fd_def set_heap_def)
    moreover have "fdtab_ok ((fdtab pr)[i := Some fd])" using ok by (intro fdtab_ok_upd) (auto simp: fd_def)
    ultimately show ?thesis using i nn by (auto simp: fd_def)
  qed
qed

theorem fd_get_spec_witness: "fd_get 1 (- 1) (upd_fd 1 255 (Some \<lparr>fd_id = 9, fdno = 255, fd_off = 0, fd_vp = None, fd_mode = 0\<rparr>) (ex_kern 0)) =
  Some (Some \<lparr>fd_id = 9, fdno = 255, fd_off = 0, fd_vp = None, fd_mode = 0\<rparr>)"
proof -
  define fd where "fd = \<lparr>fd_id = 9, fdno = 255, fd_off = 0, fd_vp = None, fd_mode = 0\<rparr>"
  define s where "s = upd_fd 1 255 (Some fd) (ex_kern 0)"
  define pr where "pr = (ex_proc 1 0)\<lparr>fdtab := (replicate 256 None)[255 := Some fd]\<rparr>"
  have p: "procs s 1 = Some pr" by (simp add: s_def pr_def upd_fd_def ex_kern_def ex_proc_def)
  have "fdtab_ok (replicate 256 None)" by (simp add: fdtab_ok_def)
  then have "fdtab_ok (fdtab pr)" unfolding pr_def by (auto intro!: fdtab_ok_upd simp: fd_def)
  from fd_get_spec [OF p this, of "- 1"] show ?thesis by (simp add: s_def fd_def pr_def)
qed

theorem fd_alloc_spec_witness: "\<exists>r s'. fd_alloc 1 (ex_kern 0) = Some (r, s') \<and> r \<noteq> Inl EMFILE"
proof -
  have p: "procs (ex_kern 0) 1 = Some (ex_proc 1 0)" by (simp add: ex_kern_def)
  have "fdtab_ok (fdtab (ex_proc 1 0))" by (simp add: ex_proc_def fdtab_ok_def)
  moreover have "None \<in> set (fdtab (ex_proc 1 0))" by (simp add: ex_proc_def)
  ultimately show ?thesis using fd_alloc_spec [OF p] by blast
qed

end
