(* ===== verification/Os_Proc.thy ===== *)
theory Os_Proc
  imports Os_Fd
begin

text \<open>
  Memory mappings (\<^verbatim>\<open>vm/vm_map.c\<close>), user memory access (\<^verbatim>\<open>os/os_systm.c\<close>), the ELF loader (\<^verbatim>\<open>os/os_elf64.c\<close>), credentials
  (\<^verbatim>\<open>os/os_ucred.c\<close>) and the life of a process (\<^verbatim>\<open>os/os_proc.c\<close>, \<^verbatim>\<open>arch/amd64/os/os_proc.c\<close>).  The outcome is an \<open>exec\<close>
  (a result, a panic or a fault) inside an option, whose \<open>None\<close> is a loop that does not end.
\<close>

type_synonym 'a run = "'a exec option"

definition run_bind :: "'a run \<Rightarrow> ('a \<Rightarrow> 'b run) \<Rightarrow> 'b run" where
  "run_bind m f =
     (case m of
        None \<Rightarrow> None
      | Some Panic \<Rightarrow> Some Panic
      | Some Fault \<Rightarrow> Some Fault
      | Some (Ret a) \<Rightarrow> f a)"

definition or_fault :: "'a option \<Rightarrow> 'a run" where
  "or_fault m = (case m of None \<Rightarrow> Some Fault | Some a \<Rightarrow> Some (Ret a))"

lemma run_bind_simps [simp]:
  "run_bind None f = None" "run_bind (Some Panic) f = Some Panic" "run_bind (Some Fault) f = Some Fault"
  "run_bind (Some (Ret a)) f = f a" "or_fault None = Some Fault" "or_fault (Some a) = Some (Ret a)"
  by (simp_all add: run_bind_def or_fault_def)

section \<open>Mapping memory\<close>

abbreviation MMAP_START :: u64 where "MMAP_START \<equiv> 0x6F3C8E0C0000"

partial_function (option) map_loop ::
  "u64 \<Rightarrow> u32 \<Rightarrow> u64 \<Rightarrow> u64 \<Rightarrow> mmu_map \<Rightarrow> kern \<Rightarrow> (bool \<times> kern) run" where
  "map_loop vas prot va_cur va_end spec s =
     (if va_cur < va_end then
        (case mmu_map_single vas spec prot s of
           Panic \<Rightarrow> Some Panic
         | Fault \<Rightarrow> Some Fault
         | Ret (r, s) \<Rightarrow>
             if isl r then Some (Ret (False, s))
             else map_loop vas prot (va_cur + 4096) va_end (spec\<lparr>va := va spec + 4096, pa := pa spec + 4096\<rparr>) s)
      else Some (Ret (True, s)))"

text \<open>\<^verbatim>\<open>__vm_map\<close>: the value returned (an \<^verbatim>\<open>int\<close>, also when it is the address), and the specifier as it leaves it.\<close>

definition vm_map1 :: "u64 \<Rightarrow> mmu_map \<Rightarrow> u64 \<Rightarrow> u32 \<Rightarrow> kern \<Rightarrow> (int \<times> mmu_map \<times> kern) run" where
  "vm_map1 vas spec len prot s =
     (if len = 0 then Some (Ret (- errno_code EINVAL, spec, s))
      else
        (let len = ALIGN_UP len 4096
         in run_bind
              (if pa spec = 0 \<or> va spec = 0 then
                 (case vm_alloc_frame (unat (len div 4096)) s of
                    Panic \<Rightarrow> Some Panic
                  | Fault \<Rightarrow> Some Fault
                  | Ret (f, s) \<Rightarrow>
                      Some (Ret (spec\<lparr>pa := of_nat f, va := if va spec = 0 then of_nat f else va spec\<rparr>, s)))
               else Some (Ret (spec, s)))
              (\<lambda>(spec, s).
                 if pa spec = 0 then Some (Ret (- errno_code ENOMEM, spec, s))
                 else
                   run_bind
                     (map_loop vas prot (va spec) (va spec + len)
                        (spec\<lparr>va := ALIGN_DOWN (va spec) 4096, pa := ALIGN_DOWN (pa spec) 4096\<rparr>) s)
                     (\<lambda>(ok, s). Some (Ret (if ok then 0 else sint (ucast (va spec) :: 32 word), spec, s))))))"

definition sizeof_vm_range :: nat where "sizeof_vm_range = 40"

definition proc_add_range :: "nat \<Rightarrow> u64 \<Rightarrow> u64 \<Rightarrow> u64 \<Rightarrow> kern \<Rightarrow> unit res \<times> kern" where
  "proc_add_range p v f len s =
     (case kalloc sizeof_vm_range (heap (kfs s)) of
        (None, h) \<Rightarrow> (Inl ENOMEM, set_heap h s)
      | (Some _, h) \<Rightarrow>
          (Inr (),
           upd_proc p (\<lambda>pr. pr\<lparr>maplist := maplist pr @
             [\<lparr>pa_base = f, va_base = v, r_len = ALIGN_UP len 4096\<rparr>]\<rparr>) (set_heap h s)))"

text \<open>The range goes to the list of the current process, whatever address space it is mapped into.\<close>

definition vm_map :: "u64 \<Rightarrow> mmu_map \<Rightarrow> u64 \<Rightarrow> u32 \<Rightarrow> kern \<Rightarrow> (bool \<times> mmu_map \<times> kern) run" where
  "vm_map vas spec len prot s =
     (let len = ALIGN_UP len 4096
      in run_bind (vm_map1 vas spec len prot s) (\<lambda>(retval, spec', s).
           if retval \<noteq> 0 then
             run_bind (vm_map1 vas spec (word_of_int retval - va spec) 0 s) (\<lambda>(_, _, s). Some (Ret (False, spec', s)))
           else
             (let s = (case proc_self s of
                         None \<Rightarrow> s
                       | Some self \<Rightarrow> snd (proc_add_range self (va spec') (pa spec') len s))
              in run_bind (vm_map1 vas (spec\<lparr>va := va spec + len\<rparr>) 4096 0 s)
                   (\<lambda>(_, _, s). Some (Ret (True, spec', s))))))"

definition mmap :: "u64 \<Rightarrow> u64 \<Rightarrow> u32 \<Rightarrow> kern \<Rightarrow> (u64 \<times> kern) run" where
  "mmap addr len prot s =
     (if len = 0 \<or> addr = 0 then Some (Ret (0, s))
      else
        run_bind (vm_map (mmu_this_vas s) \<lparr>va = addr, pa = 0\<rparr> len prot s)
          (\<lambda>(ok, spec, s). Some (Ret (if ok then va spec else 0, s))))"

definition sys_mmap :: "u64 \<Rightarrow> u64 \<Rightarrow> u32 \<Rightarrow> kern \<Rightarrow> (u64 \<times> kern) run" where
  "sys_mmap address len prot s =
     mmap (if address \<noteq> 0 then address + MMAP_START else address) len (prot OR PROT_USER) s"

section \<open>User memory\<close>

abbreviation STACK_TOP :: u64 where "STACK_TOP \<equiv> 0xBFFFFFFF"
abbreviation STACK_LEN :: u64 where "STACK_LEN \<equiv> 4096"

text \<open>\<open>stack_end\<close> is the uninitialised local variable.\<close>

definition proc_check_addr :: "u64 \<Rightarrow> u64 \<Rightarrow> u64 \<Rightarrow> bool" where
  "proc_check_addr stack_end addr len =
     (let stack_base = STACK_TOP - STACK_LEN
      in if stack_base \<le> addr \<and> addr \<le> STACK_TOP then True
         else stack_base + len < stack_end)"

definition uread :: "u64 \<Rightarrow> nat \<Rightarrow> kern \<Rightarrow> char list option" where
  "uread a n s = those (map (\<lambda>i. umem s (a + of_nat i)) [0..<n])"

definition uwrite :: "u64 \<Rightarrow> char list \<Rightarrow> kern \<Rightarrow> kern option" where
  "uwrite a bs s =
     (if list_all (\<lambda>i. umem s (a + of_nat i) \<noteq> None) [0..<length bs]
      then Some (s\<lparr>umem := fold (\<lambda>i m. m(a + of_nat i \<mapsto> bs ! i)) [0..<length bs] (umem s)\<rparr>)
      else None)"

definition copyin :: "u64 \<Rightarrow> u64 \<Rightarrow> nat \<Rightarrow> kern \<Rightarrow> char list res run" where
  "copyin ue uaddr len s =
     (if uaddr = 0 \<or> len = 0 then Some (Ret (Inl EINVAL))
      else if proc_self s = None then Some (Ret (Inl EIO))
      else if \<not> proc_check_addr ue uaddr (of_nat len) then Some (Ret (Inl EFAULT))
      else run_bind (or_fault (uread uaddr len s)) (\<lambda>bs. Some (Ret (Inr bs))))"

definition copyout :: "u64 \<Rightarrow> char list \<Rightarrow> u64 \<Rightarrow> kern \<Rightarrow> (unit res \<times> kern) run" where
  "copyout ue bs uaddr s =
     (if uaddr = 0 \<or> bs = [] then Some (Ret (Inl EINVAL, s))
      else if proc_self s = None then Some (Ret (Inl EIO, s))
      else if \<not> proc_check_addr ue uaddr (of_nat (length bs)) then Some (Ret (Inl EFAULT, s))
      else run_bind (or_fault (uwrite uaddr bs s)) (\<lambda>s. Some (Ret (Inr (), s))))"

text \<open>The buffer keeps what has been copied before a fault; without a NUL among its bytes it is not terminated.\<close>

fun copyinstr_loop :: "u64 \<Rightarrow> u64 \<Rightarrow> nat \<Rightarrow> nat \<Rightarrow> char list \<Rightarrow> kern \<Rightarrow> (bool \<times> char list) run" where
  "copyinstr_loop ue uaddr 0 i dest s = Some (Ret (True, dest))"
| "copyinstr_loop ue uaddr (Suc k) i dest s =
     run_bind (copyin ue (uaddr + of_nat i) 1 s) (\<lambda>r.
       case r of
         Inl _ \<Rightarrow> Some (Ret (False, dest))
       | Inr bs \<Rightarrow>
           run_bind (or_fault (buf_put dest i (hd bs))) (\<lambda>dest.
             if hd bs = NUL then Some (Ret (True, dest)) else copyinstr_loop ue uaddr k (i + 1) dest s))"

definition copyinstr :: "u64 \<Rightarrow> u64 \<Rightarrow> char list \<Rightarrow> nat \<Rightarrow> kern \<Rightarrow> (unit res \<times> char list) run" where
  "copyinstr ue uaddr dest len s =
     run_bind (copyin ue uaddr 1 s) (\<lambda>r.
       if isl r then Some (Ret (Inl EFAULT, dest))
       else
         run_bind (copyinstr_loop ue uaddr len 0 dest s)
           (\<lambda>(ok, dest). Some (Ret (if ok then Inr () else Inl EFAULT, dest))))"

definition copyoutstr :: "u64 \<Rightarrow> char list \<Rightarrow> u64 \<Rightarrow> nat \<Rightarrow> kern \<Rightarrow> (unit res \<times> kern) run" where
  "copyoutstr ue kstr addr len s = copyout ue (take (min (length kstr) len) kstr) addr s"

section \<open>Credentials and access levels\<close>

definition ucred_init :: "proc option \<Rightarrow> ucred" where
  "ucred_init pr = (let r = (case pr of None \<Rightarrow> 0 | Some pr \<Rightarrow> ruid (cred pr)) in \<lparr>ruid = r, euid = r, suid = r\<rparr>)"

definition seteuid :: "u32 \<Rightarrow> kern \<Rightarrow> (unit res \<times> kern) option" where
  "seteuid e s =
     (case proc_self s of
        None \<Rightarrow> Some (Inl ESRCH, s)
      | Some self \<Rightarrow>
          (case procs s self of
             None \<Rightarrow> None
           | Some pr \<Rightarrow>
               if e = euid (cred pr) \<or> e = ruid (cred pr) \<or> e = suid (cred pr) \<or> euid (cred pr) = 0
               then Some (Inr (), upd_proc self (\<lambda>pr. pr\<lparr>cred := (cred pr)\<lparr>euid := e\<rparr>\<rparr>) s)
               else Some (Inl EPERM, s)))"

fun mac_num :: "mac_level \<Rightarrow> nat" where
  "mac_num MAC_GLOBAL = 0"
| "mac_num MAC_RESTRICTED = 1"
| "mac_num MAC_SECRET = 2"

definition mac_check_lvl :: "proc option \<Rightarrow> mac_level \<Rightarrow> unit res" where
  "mac_check_lvl pr lvl =
     (case pr of
        None \<Rightarrow> Inl EINVAL
      | Some pr \<Rightarrow> if mac_num (level pr) < mac_num lvl then Inl EACCES else Inr ())"

section \<open>Loading a program\<close>

record Elf64_Ehdr =
  e_ident :: "char list"
  e_machine :: nat
  e_entry :: u64
  e_phoff :: u64
  e_phentsize :: nat
  e_phnum :: nat

record Elf64_Phdr =
  p_type :: nat
  p_flags :: u32
  p_offset :: u64
  p_vaddr :: u64
  p_filesz :: u64
  p_memsz :: u64

abbreviation PT_LOAD :: nat where "PT_LOAD \<equiv> 1"
abbreviation PF_X :: u32 where "PF_X \<equiv> 1"
abbreviation PF_W :: u32 where "PF_W \<equiv> 2"
abbreviation EM_X86_64 :: nat where "EM_X86_64 \<equiv> 62"

definition ELFMAG :: "char list" where "ELFMAG = CHR 0x7F # ''ELF''"

text \<open>A field of \<open>n\<close> bytes at offset \<open>o\<close>; the headers are read where they lie in the image.\<close>

definition fld :: "char list \<Rightarrow> nat \<Rightarrow> nat \<Rightarrow> nat" where
  "fld bs off n = le_dec (take n (drop off bs))"

definition ehdr_dec :: "char list \<Rightarrow> Elf64_Ehdr option" where
  "ehdr_dec bs =
     (if length bs < 64 then None
      else Some \<lparr>e_ident = take 16 bs, e_machine = fld bs 18 2, e_entry = of_nat (fld bs 24 8),
                 e_phoff = of_nat (fld bs 32 8), e_phentsize = fld bs 54 2, e_phnum = fld bs 56 2\<rparr>)"

definition phdr_dec :: "char list \<Rightarrow> Elf64_Phdr option" where
  "phdr_dec bs =
     (if length bs < 56 then None
      else Some \<lparr>p_type = fld bs 0 4, p_flags = of_nat (fld bs 4 4), p_offset = of_nat (fld bs 8 8),
                 p_vaddr = of_nat (fld bs 16 8), p_filesz = of_nat (fld bs 32 8), p_memsz = of_nat (fld bs 40 8)\<rparr>)"

definition elf64_verify :: "Elf64_Ehdr \<Rightarrow> unit res" where
  "elf64_verify eh =
     (if take 4 (e_ident eh) \<noteq> ELFMAG then Inl ENOEXEC
      else if e_machine eh \<noteq> EM_X86_64 then Inl ENOEXEC
      else if of_char (e_ident eh ! 6) \<noteq> (1 :: nat) then Inl ENOEXEC
      else Inr ())"

definition put_bytes :: "nat \<Rightarrow> char list \<Rightarrow> pmem \<Rightarrow> pmem" where
  "put_bytes a bs m = (\<lambda>x. if a \<le> x \<and> x < a + length bs then of_char (bs ! (x - a)) else m x)"

text \<open>
  One \<^verbatim>\<open>PT_LOAD\<close> segment.  The file's bytes are copied to the frames before they are mapped, without a comparison
  of their number with the size of the frames.
\<close>

definition load_segment :: "char list \<Rightarrow> u64 \<Rightarrow> Elf64_Phdr \<Rightarrow> kern \<Rightarrow> (unit res \<times> kern) run" where
  "load_segment data vas ph s =
     (if p_memsz ph = 0 \<and> p_filesz ph = 0 then Some (Ret (Inr (), s))
      else
        (let prot = PROT_READ OR PROT_USER OR (if p_flags ph AND PF_W \<noteq> 0 then PROT_WRITE else 0) OR
                    (if p_flags ph AND PF_X \<noteq> 0 then PROT_EXEC else 0);
             misalign = p_memsz ph AND 0xFFF;
             len = ALIGN_UP (p_memsz ph + misalign) 4096;
             npgs = (if len div 4096 = 0 then 1 else len div 4096)
         in case vm_alloc_frame (unat npgs) s of
              Panic \<Rightarrow> Some Panic
            | Fault \<Rightarrow> Some Fault
            | Ret (frame, s) \<Rightarrow>
                if frame = 0 then Some (Ret (Inl ENOMEM, s))
                else
                  (let n = unat (p_filesz ph); src = drop (unat (p_offset ph)) data
                   in if length src < n then Some Fault
                      else
                        run_bind
                          (vm_map vas \<lparr>va = p_vaddr ph, pa = of_nat frame\<rparr> len prot
                             (s\<lparr>mem := put_bytes frame (take n src) (mem s)\<rparr>))
                          (\<lambda>(ok, _, s). Some (Ret (if ok then Inr () else Inl minus_one, s))))))"

fun elf_segments :: "char list \<Rightarrow> u64 \<Rightarrow> Elf64_Ehdr \<Rightarrow> nat list \<Rightarrow> kern \<Rightarrow> (unit res \<times> kern) run" where
  "elf_segments data vas eh [] s = Some (Ret (Inr (), s))"
| "elf_segments data vas eh (i # is) s =
     (case phdr_dec (drop (unat (e_phoff eh) + e_phentsize eh * i) data) of
        None \<Rightarrow> Some Fault
      | Some ph \<Rightarrow>
          run_bind (if p_type ph = PT_LOAD then load_segment data vas ph s else Some (Ret (Inr (), s)))
            (\<lambda>(r, s). if isl r then Some (Ret (r, s)) else elf_segments data vas eh is s))"

definition elf64_do_load :: "char list \<Rightarrow> Elf64_Ehdr \<Rightarrow> u64 \<Rightarrow> kern \<Rightarrow> (unit res \<times> kern) run" where
  "elf64_do_load data eh vas s = elf_segments data vas eh [0..<e_phnum eh] s"

text \<open>
  \<open>nb\<close> is the uninitialised name buffer of the image lookup.  The result is the value returned and the entry
  point, which is set on success.
\<close>

definition res_code :: "unit res \<Rightarrow> int" where
  "res_code r = (case r of Inl e \<Rightarrow> - errno_code e | Inr _ \<Rightarrow> 0)"

definition elf_load :: "char list \<Rightarrow> char list \<Rightarrow> nat \<Rightarrow> kern \<Rightarrow> (int \<times> u64 \<times> kern) run" where
  "elf_load nb nm p s =
     (case (initrd_root (kfs s), procs s p) of
        (Some img, Some pr) \<Rightarrow>
          (case initrd_open img nb (Some nm) of
             None \<Rightarrow> Some Fault
           | Some (len, None) \<Rightarrow> Some (Ret (len, 0, s))
           | Some (len, Some off) \<Rightarrow>
               (let data = drop off img
                in case ehdr_dec data of
                     None \<Rightarrow> Some Fault
                   | Some eh \<Rightarrow>
                       if isl (elf64_verify eh) then Some (Ret (res_code (elf64_verify eh), 0, s))
                       else
                         run_bind (elf64_do_load data eh (pcb_vas pr) s)
                           (\<lambda>(r, s). Some (Ret (res_code r, if isl r then 0 else e_entry eh, s)))))
      | _ \<Rightarrow> Some Fault)"
section \<open>Creating a process\<close>

definition zero_tf :: trapframe where
  "zero_tf = \<lparr>trapno = 0, rax = 0, rcx = 0, rdx = 0, rbx = 0, rsi = 0, rdi = 0, rbp = 0, r8 = 0, r9 = 0, r10 = 0,
     r11 = 0, r12 = 0, r13 = 0, r14 = 0, r15 = 0, error_code = 0, rip = 0, cs = 0, rflags = 0, rsp = 0, ss = 0\<rparr>"

text \<open>The process after it has been cleared.\<close>

definition zero_proc :: proc where
  "zero_proc = \<lparr>pid = 0, flags = 0, pcb_vas = 0, pcb_tf = zero_tf, fdtab = replicate FD_MAX None, envblk = None,
     envblk_box = None, parent = None, cred = \<lparr>ruid = 0, euid = 0, suid = 0\<rparr>, level = MAC_GLOBAL, maplist = []\<rparr>"

abbreviation SPAWN_KTD :: u32 where "SPAWN_KTD \<equiv> 1"

definition md_proc_init :: "nat \<Rightarrow> u32 \<Rightarrow> kern \<Rightarrow> (unit res \<times> kern) run" where
  "md_proc_init p fl s =
     (case mmu_new_vas s of
        Panic \<Rightarrow> Some Panic
      | Fault \<Rightarrow> Some Fault
      | Ret (Inl e, s) \<Rightarrow> Some (Ret (Inl e, s))
      | Ret (Inr vas, s) \<Rightarrow>
          (let ktd = (fl AND SPAWN_KTD \<noteq> 0);
               s = upd_proc p (\<lambda>pr. pr\<lparr>pcb_vas := vas, flags := (if ktd then flags pr OR PROC_KTD else flags pr),
                     pcb_tf := zero_tf\<lparr>rflags := 0x202, cs := if ktd then 0x08 else 0x18 OR 3,
                                        ss := if ktd then 0x10 else 0x20 OR 3\<rparr>\<rparr>) s
           in run_bind (vm_map vas \<lparr>va = STACK_TOP, pa = 0\<rparr> STACK_LEN (PROT_READ OR PROT_WRITE OR PROT_USER) s)
                (\<lambda>(_, _, s). Some (Ret (Inr (), upd_proc p (\<lambda>pr. pr\<lparr>pcb_tf := (pcb_tf pr)\<lparr>rsp := STACK_TOP\<rparr>\<rparr>) s)))))"

text \<open>\<open>n1\<close> and \<open>n2\<close> are what the uninitialised pointers of the two \<^verbatim>\<open>fd_dup\<close> calls hold.\<close>

definition proc_init :: "bool \<Rightarrow> bool \<Rightarrow> nat \<Rightarrow> u32 \<Rightarrow> kern \<Rightarrow> (bool \<times> kern) run" where
  "proc_init n1 n2 p fl s =
     (let s = (if procq_i s then s else s\<lparr>procq := [], procq_i := True\<rparr>);
          i = next_pid s + 1;
          s = s\<lparr>next_pid := i, procs := (procs s)(p \<mapsto> zero_proc\<lparr>pid := i\<rparr>)\<rparr>
      in run_bind (md_proc_init p fl s) (\<lambda>(r, s).
           if isl r then Some (Ret (False, s))
           else or_fault (fdtab_init n1 n2 p s)))"

fun lookup_loop :: "u32 \<Rightarrow> nat list \<Rightarrow> kern \<Rightarrow> nat option" where
  "lookup_loop i [] s = None"
| "lookup_loop i (p # ps) s = (if map_option pid (procs s p) = Some i then Some p else lookup_loop i ps s)"

definition proc_lookup :: "u32 \<Rightarrow> kern \<Rightarrow> nat option" where
  "proc_lookup i s = lookup_loop i (procq s) s"

definition sizeof_proc :: nat where "sizeof_proc = 3440"

text \<open>The start of \<^verbatim>\<open>proc_spawn\<close> ignores the result of \<^verbatim>\<open>proc_init\<close>.\<close>

definition proc_spawn ::
  "bool \<Rightarrow> bool \<Rightarrow> char list \<Rightarrow> char list \<Rightarrow> penv_blk option \<Rightarrow> kern \<Rightarrow> (int \<times> kern) run" where
  "proc_spawn n1 n2 nb nm envbp s =
     (case kalloc sizeof_proc (heap (kfs s)) of
        (None, h) \<Rightarrow> Some (Ret (- errno_code ENOMEM, set_heap h s))
      | (Some p, h) \<Rightarrow>
          run_bind (proc_init n1 n2 p 0 (set_heap h s)) (\<lambda>(_, s).
          run_bind (elf_load nb nm p s) (\<lambda>(error, entrypoint, s).
            if error < 0 then Some (Ret (error, set_heap (kfree (Some p) (heap (kfs s))) s))
            else
              (case cpu_sched s of
                 (None, s) \<Rightarrow> Some Panic
               | (Some core, s) \<Rightarrow>
                   (let par = proc_self s;
                        s = upd_proc p (\<lambda>pr. pr\<lparr>envblk := envbp, parent := par,
                              cred := ucred_init (case par of None \<Rightarrow> None | Some q \<Rightarrow> procs s q)\<rparr>) s;
                        s = md_set_ip p entrypoint s
                    in case sched_enq core p s of
                         None \<Rightarrow> Some Fault
                       | Some s \<Rightarrow>
                           Some (Ret (case procs s p of None \<Rightarrow> 0 | Some pr \<Rightarrow> sint (pid pr),
                                      s\<lparr>procq := procq s @ [p]\<rparr>)))))))"

definition proc_ktd :: "bool \<Rightarrow> bool \<Rightarrow> u64 \<Rightarrow> kern \<Rightarrow> (nat res \<times> kern) run" where
  "proc_ktd n1 n2 fn s =
     (case kalloc sizeof_proc (heap (kfs s)) of
        (None, h) \<Rightarrow> Some (Ret (Inl ENOMEM, set_heap h s))
      | (Some p, h) \<Rightarrow>
          (case cpu_sched (set_heap h s) of
             (None, s) \<Rightarrow> Some (Ret (Inl EIO, set_heap (kfree (Some p) (heap (kfs s))) s))
           | (Some core, s) \<Rightarrow>
               run_bind (proc_init n1 n2 p SPAWN_KTD s) (\<lambda>(_, s).
                 case sched_enq core p (md_set_ip p fn s) of
                   None \<Rightarrow> Some Fault
                 | Some s \<Rightarrow> Some (Ret (Inr p, s\<lparr>procq := procq s @ [p]\<rparr>)))))"

section \<open>Ending a process\<close>

text \<open>Freeing the frames of a list of ranges; \<open>up\<close> tells whether the length is rounded up first.\<close>

fun free_ranges :: "bool \<Rightarrow> vm_range list \<Rightarrow> kern \<Rightarrow> kern run" where
  "free_ranges up [] s = Some (Ret s)"
| "free_ranges up (r # rs) s =
     run_bind (vm_free_frame (pa_base r) ((if up then ALIGN_UP (r_len r) 4096 else r_len r) div 4096) s) (free_ranges up rs)"

definition proc_clear_ranges :: "nat \<Rightarrow> kern \<Rightarrow> kern run" where
  "proc_clear_ranges p s = (case procs s p of None \<Rightarrow> Some Fault | Some pr \<Rightarrow> free_ranges True (maplist pr) s)"

text \<open>
  The result tells whether the core goes idle for good (the process killed is the current one).  The argument
  vector belongs to the pointer box; it is freed again here.
\<close>

definition md_proc_kill :: "nat \<Rightarrow> kern \<Rightarrow> (bool res \<times> kern) run" where
  "md_proc_kill p s =
     (case this_core s of
        None \<Rightarrow> Some (Ret (Inl ENXIO, s))
      | Some c \<Rightarrow>
          (case procs s p of
             None \<Rightarrow> Some Fault
           | Some pr \<Rightarrow>
               run_bind (free_ranges False (maplist pr) s) (\<lambda>s.
                 let s = (case envblk pr of
                            None \<Rightarrow> s
                          | Some eb \<Rightarrow>
                              (case ptrbox_terminate (envblk_box pr) (heap (kfs s)) of
                                 (_, box, h) \<Rightarrow>
                                   upd_proc p (\<lambda>pr. pr\<lparr>envblk := None, envblk_box := box\<rparr>)
                                     (set_heap (kfree (Some (eb_argv eb)) h) s)))
                 in run_bind (mmu_free_vas (pcb_vas pr) s) (\<lambda>(vas, s).
                      let s = upd_proc p (\<lambda>pr. pr\<lparr>pcb_vas := vas\<rparr>) s;
                          self = (case curproc (cores s ! c) of None \<Rightarrow> rootproc s | Some q \<Rightarrow> q)
                      in case procs s self of
                           None \<Rightarrow> Some Fault
                         | Some spr \<Rightarrow>
                             if pid spr = pid pr
                             then Some (Ret (Inr True, upd_core c (\<lambda>k. k\<lparr>curproc := None\<rparr>) s))
                             else Some (Ret (Inr False, s))))))"

definition proc_kill :: "nat option \<Rightarrow> kern \<Rightarrow> (bool res \<times> kern) run" where
  "proc_kill pp s =
     (case pp of
        None \<Rightarrow> Some (Ret (Inl EINVAL, s))
      | Some p \<Rightarrow>
          (case proc_self s of
             None \<Rightarrow> Some Fault
           | Some self \<Rightarrow>
               (case (procs s self, procs s p) of
                  (Some spr, Some pr) \<Rightarrow>
                    (let s = (if pid spr = pid pr \<and> parent spr \<noteq> None then snd (proc_wake (parent spr) s) else s);
                         s = upd_proc p (\<lambda>pr. pr\<lparr>flags := flags pr OR PROC_EXITING\<rparr>) s
                     in run_bind (proc_clear_ranges p s) (\<lambda>s.
                          md_proc_kill p (s\<lparr>procq := remove1 p (procq s)\<rparr>)))
                | _ \<Rightarrow> Some Fault)))"

definition sys_exit :: "kern \<Rightarrow> (bool res \<times> kern) run" where
  "sys_exit s = (case this_core s of None \<Rightarrow> Some Fault | Some c \<Rightarrow> proc_kill (curproc (cores s ! c)) s)"

section \<open>System calls\<close>

abbreviation NARG_MAX :: nat where "NARG_MAX \<equiv> 16"
abbreviation ARG_LEN :: nat where "ARG_LEN \<equiv> 64"
abbreviation PATH_MAX :: nat where "PATH_MAX \<equiv> 1024"

definition sizeof_penv_blk :: nat where "sizeof_penv_blk = 16"

text \<open>
  The loop of \<^verbatim>\<open>penv_blk_cpy\<close> over the arguments: the vector so far, the box and the heap, and whether it ended
  without an error.  \<open>argbuf\<close> is the uninitialised buffer that the strings go through.
\<close>

fun penv_loop ::
  "u64 \<Rightarrow> u64 \<Rightarrow> nat list \<Rightarrow> char list \<Rightarrow> heapstr option list \<Rightarrow> ptrbox option \<Rightarrow> kheap \<Rightarrow> kern \<Rightarrow>
   (bool \<times> heapstr option list \<times> ptrbox option \<times> kheap) run" where
  "penv_loop ue u_argv [] argbuf args box h s = Some (Ret (True, args, box, h))"
| "penv_loop ue u_argv (i # is) argbuf args box h s =
     (if \<not> proc_check_addr ue (u_argv + 8 * of_nat i) 8 then Some (Ret (False, args, box, h))
      else
        run_bind (or_fault (uread (u_argv + 8 * of_nat i) 8 s)) (\<lambda>ptr.
        run_bind (copyinstr ue (of_nat (le_dec ptr)) argbuf ARG_LEN s) (\<lambda>(r, argbuf).
          if isl r then Some (Ret (False, args, box, h))
          else if NUL \<notin> set argbuf then Some Fault
          else
            (case ptrbox_strdup (Some (cstr argbuf)) box h of
               (a, box, h) \<Rightarrow> penv_loop ue u_argv is argbuf (args @ [a]) box h s))))"

text \<open>The box is stored in \<open>p\<close>, the process that makes the call, while the block goes to the new process.\<close>

definition penv_blk_cpy :: "u64 \<Rightarrow> char list \<Rightarrow> nat \<Rightarrow> u64 \<Rightarrow> kern \<Rightarrow> (penv_blk option \<times> kern) run" where
  "penv_blk_cpy ue argbuf p u_blk s =
     (if u_blk = 0 then Some (Ret (None, s))
      else
        (case kalloc sizeof_penv_blk (heap (kfs s)) of
           (None, h) \<Rightarrow> Some (Ret (None, set_heap h s))
         | (Some b, h) \<Rightarrow>
             run_bind (copyin ue u_blk sizeof_penv_blk s) (\<lambda>r.
               case r of
                 Inl _ \<Rightarrow> Some (Ret (None, set_heap (kfree (Some b) h) s))
               | Inr blk \<Rightarrow>
                   (let u_argv = of_nat (fld blk 0 8); argc = fld blk 8 2
                    in if NARG_MAX < argc then Some (Ret (None, set_heap (kfree (Some b) h) s))
                       else
                         (case ptrbox_init h of
                            (Inl _, h) \<Rightarrow> Some (Ret (None, set_heap h s))
                          | (Inr box, h) \<Rightarrow>
                              (case ptrbox_alloc (8 * argc) (Some box) h of
                                 (None, box, h) \<Rightarrow>
                                   Some (Ret (None, upd_proc p (\<lambda>pr. pr\<lparr>envblk_box := box\<rparr>) (set_heap (kfree (Some b) h) s)))
                               | (Some v, box, h) \<Rightarrow>
                                   run_bind (penv_loop ue u_argv [0..<argc] argbuf [] box h s) (\<lambda>(ok, args, box, h).
                                     if ok then
                                       Some (Ret (Some \<lparr>eb_id = b, eb_argv = v, eb_args = args\<rparr>,
                                         upd_proc p (\<lambda>pr. pr\<lparr>envblk_box := box\<rparr>) (set_heap h s)))
                                     else
                                       (case ptrbox_terminate box h of
                                          (_, box, h) \<Rightarrow>
                                            Some (Ret (None,
                                              upd_proc p (\<lambda>pr. pr\<lparr>envblk_box := box\<rparr>)
                                                (set_heap (kfree (Some b) h) s)))))))))))"

definition sys_spawn ::
  "bool \<Rightarrow> bool \<Rightarrow> u64 \<Rightarrow> char list \<Rightarrow> char list \<Rightarrow> char list \<Rightarrow> u64 \<Rightarrow> u64 \<Rightarrow> kern \<Rightarrow> (int \<times> kern) run" where
  "sys_spawn n1 n2 ue buf argbuf nb u_path u_blk s =
     run_bind (copyinstr ue u_path buf PATH_MAX s) (\<lambda>(r, buf).
       if isl r then Some (Ret (res_code r, s))
       else if NUL \<notin> set buf then Some Fault
       else
         (case proc_self s of
            None \<Rightarrow> Some Fault
          | Some self \<Rightarrow>
              run_bind (penv_blk_cpy ue argbuf self u_blk s) (\<lambda>(envblk, s). proc_spawn n1 n2 nb (cstr buf) envblk s)))"

definition sys_getargv :: "u64 \<Rightarrow> nat \<Rightarrow> u64 \<Rightarrow> nat \<Rightarrow> kern \<Rightarrow> (unit res \<times> kern) run" where
  "sys_getargv ue argno u_buf maxlen s =
     (case (case proc_self s of None \<Rightarrow> None | Some self \<Rightarrow> procs s self) of
        None \<Rightarrow> Some Fault
      | Some pr \<Rightarrow>
          (case envblk pr of
             None \<Rightarrow> Some (Ret (Inl EIO, s))
           | Some eb \<Rightarrow>
               if length (eb_args eb) \<le> argno then Some (Ret (Inl EINVAL, s))
               else
                 (case eb_args eb ! argno of
                    None \<Rightarrow> Some Fault
                  | Some (_, arg) \<Rightarrow> copyoutstr ue arg u_buf maxlen s)))"

definition sys_waitpid :: "u64 \<Rightarrow> u32 \<Rightarrow> u64 \<Rightarrow> kern \<Rightarrow> (unit res \<times> kern) run" where
  "sys_waitpid ue i u_status s =
     (case proc_lookup i s of
        None \<Rightarrow> Some (Ret (Inl ESRCH, s))
      | Some p \<Rightarrow>
          run_bind (if u_status \<noteq> 0 then copyout ue (replicate 4 NUL) u_status s else Some (Ret (Inr (), s)))
            (\<lambda>(r, s). if isl r then Some (Ret (r, s)) else Some (Ret (Inr (), snd (proc_sleep (proc_self s) s)))))"

definition sys_seteuid :: "u32 \<Rightarrow> kern \<Rightarrow> (unit res \<times> kern) option" where
  "sys_seteuid e s = seteuid e s"

section \<open>Mapping a range\<close>

lemma unat_small: "m < 2 ^ 64 \<Longrightarrow> unat (of_nat m :: u64) = m"
  by (simp only: unat_of_nat) simp

lemma page_no_nat:
  assumes "k < 2 ^ 36"
  shows "page_no (of_nat (4096 * k)) = of_nat k"
proof -
  have "4096 * k < 2 ^ 48" using assms by simp
  have "unat (of_nat (4096 * k) :: u64) = 4096 * k" using \<open>4096 * k < 2 ^ 48\<close> by (intro unat_page) simp
  moreover have "unat (of_nat k :: u64) = k" using assms by (simp add: unat_of_nat)
  ultimately show ?thesis
    unfolding page_no_def word_unat_eq_iff
    using assms by (simp only: unsigned_take_bit_eq unsigned_drop_bit_eq) (simp add: drop_bit_eq_div take_bit_eq_mod)
qed

lemma map_loop_pages:
  assumes "pt_inv s root" and "root = unat (vas AND PTE_ADDR_MASK)" and "\<not> ISSET (cr4 s) 0x1000"
    and "k + n \<le> 2 ^ 36" and "3 * n \<le> card {i. frame_free s i}"
  shows "\<exists>s'. map_loop vas prot (of_nat (4096 * k)) (of_nat (4096 * (k + n))) \<lparr>va = of_nat (4096 * k), pa = x\<rparr> s =
      Some (Ret (True, s')) \<and> pt_inv s' root \<and>
    (\<forall>i < n. pte (mem s') root (of_nat (4096 * (k + i))) =
       (if prot = 0 then 0 else prot_to_pte prot OR (x + of_nat (4096 * i)))) \<and>
    (\<forall>w. (\<forall>i < n. page_no w \<noteq> of_nat (k + i)) \<longrightarrow> pte (mem s') root w = pte (mem s) root w)"
  using assms
proof (induction n arbitrary: k x s)
  case 0
  then show ?case by (subst map_loop.simps) simp
next
  case (Suc n)
  let ?p = "of_nat (4096 * k) :: u64" and ?q = "of_nat (4096 * (k + Suc n)) :: u64"
  let ?sp = "\<lparr>va = ?p, pa = x\<rparr>"
  have b: "4096 * k < 2 ^ 64" "4096 * (k + Suc n) < 2 ^ 64" using Suc.prems(4) by simp_all
  have u: "unat ?p = 4096 * k" "unat ?q = 4096 * (k + Suc n)" by (rule unat_page [OF b(1)], rule unat_page [OF b(2)])
  have lt: "?p < ?q" unfolding word_less_nat_alt u by simp
  have "\<not> card {i. frame_free s i} < 3" using Suc.prems(5) by simp
  then obtain s1 where m: "mmu_map_single vas ?sp prot s = Ret (Inr (), s1)" "pt_inv s1 root" "cr4 s1 = cr4 s"
      "card {i. frame_free s i} \<le> card {i. frame_free s1 i} + 3"
      "pte (mem s1) root ?p = (if prot = 0 then 0 else prot_to_pte prot OR x)"
      "\<forall>w. page_no w \<noteq> page_no ?p \<longrightarrow> pte (mem s1) root w = pte (mem s) root w"
    using map_single_ok [OF Suc.prems(1-3), of ?sp prot] by auto
  have nx: "?p + 4096 = of_nat (4096 * Suc k)" by simp
  have step: "map_loop vas prot ?p ?q ?sp s =
      map_loop vas prot (of_nat (4096 * Suc k)) (of_nat (4096 * (Suc k + n))) \<lparr>va = of_nat (4096 * Suc k), pa = x + 4096\<rparr> s1"
    using lt m(1) by (subst map_loop.simps) (simp only: if_True exec.case prod.case nx, simp add: add.commute)
  have pg: "page_no ?p = of_nat k" using Suc.prems(4) by (intro page_no_nat) simp
  have kk: "(of_nat k :: u64) \<noteq> of_nat (Suc k + i)" if "i < n" for i
  proof -
    have "unat (of_nat k :: u64) = k" "unat (of_nat (Suc k + i) :: u64) = Suc k + i"
      by (rule unat_small, use Suc.prems(4) that in simp)+
    moreover have "k \<noteq> Suc k + i" by simp
    ultimately show ?thesis by metis
  qed
  obtain s' where s': "map_loop vas prot ?p ?q ?sp s = Some (Ret (True, s'))" "pt_inv s' root"
      "\<forall>i < n. pte (mem s') root (of_nat (4096 * (Suc k + i))) =
         (if prot = 0 then 0 else prot_to_pte prot OR (x + 4096 + of_nat (4096 * i)))"
      "\<forall>w. (\<forall>i < n. page_no w \<noteq> of_nat (Suc k + i)) \<longrightarrow> pte (mem s') root w = pte (mem s1) root w"
    unfolding step using Suc.IH [OF m(2) Suc.prems(2), of "Suc k" "x + 4096"] m(3,4) Suc.prems(3-5) by auto
  have "pte (mem s') root (of_nat (4096 * (k + i))) =
      (if prot = 0 then 0 else prot_to_pte prot OR (x + of_nat (4096 * i)))" if "i < Suc n" for i
  proof (cases i)
    case 0
    have "pte (mem s') root ?p = pte (mem s1) root ?p" using s'(4) kk pg by auto
    then show ?thesis using m(5) 0 by simp
  next
    case (Suc j)
    then show ?thesis using s'(3) [rule_format, of j] that by (simp add: algebra_simps)
  qed
  moreover have "pte (mem s') root w = pte (mem s) root w" if "\<forall>i < Suc n. page_no w \<noteq> of_nat (k + i)" for w
  proof -
    have "\<forall>i < n. page_no w \<noteq> of_nat (Suc k + i)" using that by (metis Suc_less_eq add_Suc add_Suc_right)
    moreover have "page_no w \<noteq> page_no ?p" using that pg by force
    ultimately show ?thesis using s'(4) m(6) by simp
  qed
  ultimately show ?case using s'(1,2) by blast
qed

text \<open>
  C16 (\<^verbatim>\<open>__vm_map\<close>).  Mapping \<open>n\<close> pages from a page-aligned virtual to a given physical range succeeds when three frames per
  page are free: afterwards page \<open>i\<close> of the range translates to frame \<open>i\<close> with the rights asked for, every other page
  translates as before, and the invariant of the address space holds.
\<close>

theorem vm_map_range:
  assumes "pt_inv s root" and "root = unat (vas AND PTE_ADDR_MASK)" and "\<not> ISSET (cr4 s) 0x1000"
    and "0 < k" and "0 < f" and "0 < n" and "k + n \<le> 2 ^ 36" and "f < 2 ^ 40" and "3 * n \<le> card {i. frame_free s i}"
  shows "\<exists>s'. vm_map1 vas \<lparr>va = of_nat (4096 * k), pa = of_nat (4096 * f)\<rparr> (of_nat (4096 * n)) prot s =
      Some (Ret (0, \<lparr>va = of_nat (4096 * k), pa = of_nat (4096 * f)\<rparr>, s')) \<and> pt_inv s' root \<and>
    (\<forall>i < n. pte (mem s') root (of_nat (4096 * (k + i))) =
       (if prot = 0 then 0 else prot_to_pte prot OR of_nat (4096 * (f + i)))) \<and>
    (\<forall>w. (\<forall>i < n. page_no w \<noteq> of_nat (k + i)) \<longrightarrow> pte (mem s') root w = pte (mem s) root w)"
proof -
  have u: "unat (of_nat (4096 * k) :: u64) = 4096 * k" "unat (of_nat (4096 * f) :: u64) = 4096 * f"
      "unat (of_nat (4096 * n) :: u64) = 4096 * n"
    by (rule unat_page, use assms(7,8) in simp)+
  have nz: "(of_nat (4096 * k) :: u64) \<noteq> 0" "(of_nat (4096 * f) :: u64) \<noteq> 0" "(of_nat (4096 * n) :: u64) \<noteq> 0"
    using u assms(4-6) by (metis mult_eq_0_iff not_gr_zero unat_0 zero_neq_numeral)+
  have al: "ALIGN_UP (of_nat (4096 * n)) 4096 = of_nat (4096 * n)"
    using assms(7) by (intro ALIGN_UP_page) simp
  have dn: "ALIGN_DOWN (of_nat (4096 * m)) 4096 = of_nat (4096 * m)" if "m < 2 ^ 40" for m
    using ALIGN_DOWN_unat [of 12 "of_nat (4096 * m)"] unat_page [of m] that by (simp add: word_unat_eq_iff)
  have e: "of_nat (4096 * k) + of_nat (4096 * n) = (of_nat (4096 * (k + n)) :: u64)" by (simp add: algebra_simps)
  obtain s' where s': "map_loop vas prot (of_nat (4096 * k)) (of_nat (4096 * (k + n)))
        \<lparr>va = of_nat (4096 * k), pa = of_nat (4096 * f)\<rparr> s = Some (Ret (True, s'))" "pt_inv s' root"
      "\<forall>i < n. pte (mem s') root (of_nat (4096 * (k + i))) =
         (if prot = 0 then 0 else prot_to_pte prot OR (of_nat (4096 * f) + of_nat (4096 * i)))"
      "\<forall>w. (\<forall>i < n. page_no w \<noteq> of_nat (k + i)) \<longrightarrow> pte (mem s') root w = pte (mem s) root w"
    using map_loop_pages [OF assms(1-3,7,9), of prot "of_nat (4096 * f)"] by blast
  have "vm_map1 vas \<lparr>va = of_nat (4096 * k), pa = of_nat (4096 * f)\<rparr> (of_nat (4096 * n)) prot s =
      Some (Ret (0, \<lparr>va = of_nat (4096 * k), pa = of_nat (4096 * f)\<rparr>, s'))"
    using nz s'(1) dn [of k] dn [of f] assms(7,8) unfolding vm_map1_def Let_def al
    by (simp only: e mmu_map.simps) simp
  moreover have "of_nat (4096 * f) + of_nat (4096 * i) = (of_nat (4096 * (f + i)) :: u64)" for i
    by (simp add: algebra_simps)
  ultimately show ?thesis using s'(2-4) by auto
qed

definition ex_kmem :: kern where
  "ex_kmem = mmu.extend mmu_demo (mmu.more (ex_kern 0))"

lemma ex_kmem_fields:
  "mem ex_kmem = mem mmu_demo" "bitmap ex_kmem = bitmap mmu_demo" "bitmap_size ex_kmem = bitmap_size mmu_demo"
  "highest_frame_idx ex_kmem = highest_frame_idx mmu_demo" "pages_free ex_kmem = pages_free mmu_demo"
  "cr4 ex_kmem = cr4 mmu_demo" "procs ex_kmem = procs (ex_kern 0)" "this_core ex_kmem = Some 0"
  "cores ex_kmem = cores (ex_kern 0)" "pages_used ex_kmem = 4"
  by (simp_all add: ex_kmem_def mmu.extend_def mmu_demo_def ex_kern_def)

lemma ex_kmem_inv: "pt_inv ex_kmem 24576" "Collect (frame_free ex_kmem) = {2, 3, 4, 5}"
proof -
  note e = pt_inv_same [OF ex_kmem_fields(1-5)]
  show "pt_inv ex_kmem 24576" unfolding e by (rule mmu_demo_inv)
  show "Collect (frame_free ex_kmem) = {2, 3, 4, 5}" unfolding e by (auto simp: mmu_demo_free)
qed

theorem vm_map_range_witness:
  "\<exists>s'. vm_map1 24576 \<lparr>va = 0x400000, pa = 0x7000\<rparr> 4096 PROT_READ ex_kmem =
     Some (Ret (0, \<lparr>va = 0x400000, pa = 0x7000\<rparr>, s')) \<and>
     pte (mem s') 24576 0x400000 = prot_to_pte PROT_READ OR 0x7000"
proof -
  have root: "24576 = unat ((24576 :: u64) AND PTE_ADDR_MASK)" by (simp add: PTE_ADDR_MASK_def)
  have c4: "\<not> ISSET (cr4 ex_kmem) 0x1000" by (simp add: ex_kmem_fields mmu_demo_fields)
  have c: "3 * 1 \<le> card {i. frame_free ex_kmem i}" using ex_kmem_inv(2) by simp
  from vm_map_range [OF ex_kmem_inv(1) root c4 _ _ _ _ _ c, of 1024 7 PROT_READ] show ?thesis by auto
qed

section \<open>Strings from user memory\<close>

definition on_stack :: "u64 \<Rightarrow> bool" where
  "on_stack a \<longleftrightarrow> STACK_TOP - STACK_LEN \<le> a \<and> a \<le> STACK_TOP"

lemma check_on_stack: "on_stack a \<Longrightarrow> proc_check_addr ue a len"
  by (simp add: on_stack_def proc_check_addr_def Let_def)

lemma on_stack_nz: "on_stack a \<Longrightarrow> a \<noteq> 0"
  by (auto simp: on_stack_def)

lemma copyin_byte:
  assumes "on_stack a" and "proc_self s \<noteq> None" and "umem s a = Some c"
  shows "copyin ue a 1 s = Some (Ret (Inr [c]))"
  using assms on_stack_nz [OF assms(1)] check_on_stack [OF assms(1)]
  by (simp add: copyin_def uread_def)

lemma copyinstr_loop_ok:
  assumes "proc_self s \<noteq> None"
    and "\<And>i. i \<le> length str \<Longrightarrow> on_stack (a + of_nat i) \<and> umem s (a + of_nat i) = Some ((str @ [NUL]) ! i)"
    and "NUL \<notin> set str" and "i \<le> length str" and "i + k = length dest" and "take i dest = take i str"
  shows "copyinstr_loop ue a k i dest s =
    Some (Ret (True, if length str < length dest then str @ NUL # drop (Suc (length str)) dest else take (length dest) str))"
  using assms(4-6)
proof (induction k arbitrary: i dest)
  case 0
  then show ?case by simp
next
  case (Suc k)
  let ?c = "(str @ [NUL]) ! i"
  have ci: "copyin ue (a + of_nat i) 1 s = Some (Ret (Inr [?c]))"
    using copyin_byte assms(1,2) Suc.prems(1) by blast
  have bp: "buf_put dest i x = Some (dest[i := x])" for x using Suc.prems(2) by (simp add: buf_put_def)
  show ?case
  proof (cases "i = length str")
    case True
    have "dest[i := NUL] = str @ NUL # drop (Suc i) dest"
      using Suc.prems(2,3) True upd_conv_take_nth_drop [of i dest NUL] by simp
    then show ?thesis using ci bp True Suc.prems(2) by simp
  next
    case False
    then have lt: "i < length str" using Suc.prems(1) by simp
    then have c: "?c = str ! i" "str ! i \<noteq> NUL" using assms(3) by (simp_all add: nth_append) (metis nth_mem)
    have "take (Suc i) (dest[i := str ! i]) = take (Suc i) str"
      using Suc.prems(2,3) lt by (simp add: take_Suc_conv_app_nth)
    then have "copyinstr_loop ue a k (Suc i) (dest[i := str ! i]) s =
        Some (Ret (True, if length str < length dest then str @ NUL # drop (Suc (length str)) (dest[i := str ! i]) else take (length dest) str))"
      using Suc.IH [of "Suc i" "dest[i := str ! i]"] lt Suc.prems(2) by simp
    then show ?thesis using ci bp c lt by (simp add: drop_update_cancel)
  qed
qed

text \<open>
  C32 (\<^verbatim>\<open>copyinstr\<close>).  Copying a string from the user stack into a buffer of \<open>len\<close> bytes succeeds.  A string that is
  shorter than the buffer is copied with its terminator and leaves the rest of the buffer alone; of a longer
  one the buffer gets the first \<open>len\<close> characters and no terminator.
\<close>

theorem copyinstr_spec:
  assumes "proc_self s \<noteq> None" and "NUL \<notin> set str" and "length dest = len"
    and "\<And>i. i \<le> length str \<Longrightarrow> on_stack (a + of_nat i) \<and> umem s (a + of_nat i) = Some ((str @ [NUL]) ! i)"
  shows "copyinstr ue a dest len s =
    Some (Ret (Inr (), if length str < len then str @ NUL # drop (Suc (length str)) dest else take len str))"
proof -
  have "copyin ue a 1 s = Some (Ret (Inr [(str @ [NUL]) ! 0]))"
    using copyin_byte [of a s] assms(1) assms(4) [of 0] by simp
  then show ?thesis
    using copyinstr_loop_ok [OF assms(1,4,2), of 0 len dest] assms(3) by (simp add: copyinstr_def)
qed

definition ex_user :: kern where
  "ex_user = (ex_kern 0)\<lparr>umem := [0xBFFFFF00 \<mapsto> CHR ''h'', 0xBFFFFF01 \<mapsto> CHR ''i'', 0xBFFFFF02 \<mapsto> NUL,
     0xBFFFFFFF \<mapsto> NUL, 0xC0000000 \<mapsto> NUL]\<rparr>"

lemma ex_user_self: "proc_self ex_user = Some 3"
  by (simp add: ex_user_def proc_self_def ex_kern_def)

theorem copyinstr_spec_witness:
  "copyinstr 0 0xBFFFFF00 ''....'' 4 ex_user = Some (Ret (Inr (), ''hi'' @ [NUL] @ ''.'')) \<and>
   copyinstr 0 0xBFFFFF00 ''..'' 2 ex_user = Some (Ret (Inr (), ''hi''))"
proof -
  have p: "proc_self ex_user \<noteq> None" by (simp add: ex_user_self)
  have a: "on_stack (0xBFFFFF00 + of_nat i) \<and> umem ex_user (0xBFFFFF00 + of_nat i) = Some ((''hi'' @ [NUL]) ! i)"
    if le: "i \<le> length ''hi''" for i
  proof -
    have "i \<le> 2" using le by simp
    then consider "i = 0" | "i = 1" | "i = 2" by linarith
    then show ?thesis by cases (simp_all add: on_stack_def ex_user_def)
  qed
  show ?thesis
    using copyinstr_spec [OF p _ _ a, of "''....''" 4 0] copyinstr_spec [OF p _ _ a, of "''..''" 2 0] by simp
qed

text \<open>The bytes written by \<open>uwrite\<close>.\<close>

lemma fold_upd:
  fixes a :: u64
  assumes "n \<le> length bs" and "length bs < 2 ^ 64" and "i < n"
  shows "fold (\<lambda>i m. m(a + of_nat i \<mapsto> bs ! i)) [0..<n] m (a + of_nat i) = Some (bs ! i)"
  using assms(1,3)
proof (induction n)
  case (Suc n)
  show ?case
  proof (cases "i = n")
    case False
    have "unat (of_nat i :: u64) = i" "unat (of_nat n :: u64) = n"
      by (rule unat_small, use assms(2) Suc.prems in simp)+
    then have "(of_nat i :: u64) \<noteq> of_nat n" using False by metis
    then show ?thesis using Suc False by simp
  qed simp
qed simp

text \<open>
  C40 (\<^verbatim>\<open>copyout\<close>, \<^verbatim>\<open>proc_check_addr\<close>).  The check of a user range looks at its first address only: when the range starts at the
  last address of the stack, the kernel writes all of it to the memory above the stack.
\<close>

theorem copyout_past_stack:
  assumes "proc_self s \<noteq> None" and "bs \<noteq> []" and "length bs < 2 ^ 64"
    and "\<And>i. i < length bs \<Longrightarrow> umem s (STACK_TOP + of_nat i) \<noteq> None"
  shows "\<exists>s'. copyout ue bs STACK_TOP s = Some (Ret (Inr (), s')) \<and>
    (\<forall>i < length bs. umem s' (STACK_TOP + of_nat i) = Some (bs ! i))"
proof -
  have st: "on_stack STACK_TOP" by (simp add: on_stack_def)
  define s' where "s' = s\<lparr>umem := fold (\<lambda>i m. m(STACK_TOP + of_nat i \<mapsto> bs ! i)) [0..<length bs] (umem s)\<rparr>"
  have "uwrite STACK_TOP bs s = Some s'"
    using assms(4) by (auto simp: uwrite_def s'_def list_all_iff)
  then have "copyout ue bs STACK_TOP s = Some (Ret (Inr (), s'))"
    using assms(1,2) check_on_stack [OF st] by (simp add: copyout_def)
  moreover have "umem s' (STACK_TOP + of_nat i) = Some (bs ! i)" if "i < length bs" for i
    using fold_upd [OF _ assms(3) that] by (simp add: s'_def)
  ultimately show ?thesis by blast
qed

theorem copyout_past_stack_witness:
  "\<exists>s'. copyout 0 ''xy'' STACK_TOP ex_user = Some (Ret (Inr (), s')) \<and> umem s' 0xC0000000 = Some CHR ''y''"
proof -
  have p: "proc_self ex_user \<noteq> None" by (simp add: ex_user_self)
  have a: "umem ex_user (STACK_TOP + of_nat i) \<noteq> None" if lt: "i < length ''xy''" for i
  proof -
    have "i < 2" using lt by simp
    then consider "i = 0" | "i = 1" by linarith
    then show ?thesis by cases (simp_all add: ex_user_def)
  qed
  obtain s' where "copyout 0 ''xy'' STACK_TOP ex_user = Some (Ret (Inr (), s'))"
      "\<forall>i < length ''xy''. umem s' (STACK_TOP + of_nat i) = Some (''xy'' ! i)"
    using copyout_past_stack [OF p _ _ a, of "''xy''" 0] by auto
  then show ?thesis by (auto dest!: spec [of _ 1])
qed

section \<open>Credentials\<close>

fun seteuids :: "u32 list \<Rightarrow> kern \<Rightarrow> kern option" where
  "seteuids [] s = Some s"
| "seteuids (e # es) s = (case seteuid e s of None \<Rightarrow> None | Some (_, s) \<Rightarrow> seteuids es s)"

text \<open>
  C30 (\<^verbatim>\<open>seteuid\<close>).  A process none of whose user ids is 0 cannot become root: after any sequence of calls, whatever
  ids it asks for, its effective id is one of the three it had, and the real and the saved id are unchanged.
\<close>

theorem seteuid_no_escalation:
  assumes "proc_self s = Some p" and "procs s p = Some pr"
    and "euid (cred pr) \<noteq> 0" and "ruid (cred pr) \<noteq> 0" and "suid (cred pr) \<noteq> 0"
  shows "\<exists>s' pr'. seteuids es s = Some s' \<and> procs s' p = Some pr' \<and>
    ruid (cred pr') = ruid (cred pr) \<and> suid (cred pr') = suid (cred pr) \<and>
    euid (cred pr') \<in> {euid (cred pr), ruid (cred pr), suid (cred pr)}"
  using assms
proof (induction es arbitrary: s pr)
  case (Cons e es)
  show ?case
  proof (cases "e \<in> {euid (cred pr), ruid (cred pr), suid (cred pr)}")
    case True
    define s1 where "s1 = upd_proc p (\<lambda>pr. pr\<lparr>cred := (cred pr)\<lparr>euid := e\<rparr>\<rparr>) s"
    have "seteuid e s = Some (Inr (), s1)" using True Cons.prems by (auto simp: seteuid_def s1_def)
    moreover have "proc_self s1 = Some p" using Cons.prems(1) by (auto simp: proc_self_def s1_def split: option.splits)
    moreover have "procs s1 p = Some (pr\<lparr>cred := (cred pr)\<lparr>euid := e\<rparr>\<rparr>)" using Cons.prems(2) by (simp add: s1_def)
    moreover have "e \<noteq> 0" using True Cons.prems(3-5) by auto
    ultimately show ?thesis
      using Cons.IH [of s1 "pr\<lparr>cred := (cred pr)\<lparr>euid := e\<rparr>\<rparr>"] Cons.prems(4,5) True by auto
  next
    case False
    then have "seteuid e s = Some (Inl EPERM, s)" using Cons.prems by (auto simp: seteuid_def)
    then show ?thesis using Cons by simp
  qed
qed simp

theorem seteuid_no_escalation_witness:
  "let s = upd_proc 3 (\<lambda>pr. pr\<lparr>cred := \<lparr>ruid = 10, euid = 11, suid = 12\<rparr>\<rparr>) (ex_kern 0)
   in \<exists>s' pr'. seteuids [0, 10, 0, 12] s = Some s' \<and> procs s' 3 = Some pr' \<and> euid (cred pr') \<in> {10, 11, 12}"
proof -
  define s where "s = upd_proc 3 (\<lambda>pr. pr\<lparr>cred := \<lparr>ruid = 10, euid = 11, suid = 12\<rparr>\<rparr>) (ex_kern 0)"
  have "proc_self s = Some 3" "procs s 3 = Some ((ex_proc 3 0)\<lparr>cred := \<lparr>ruid = 10, euid = 11, suid = 12\<rparr>\<rparr>)"
    by (simp_all add: s_def proc_self_def ex_kern_def)
  from seteuid_no_escalation [OF this, of "[0, 10, 0, 12]"] show ?thesis
    unfolding Let_def s_def [symmetric] by auto
qed
section \<open>Killing a process\<close>

text \<open>A range of whole pages that ends below the top of the address space.\<close>

definition page_range :: "vm_range \<Rightarrow> bool" where
  "page_range r \<longleftrightarrow>
     (\<exists>k n. pa_base r = of_nat (4096 * k) \<and> r_len r = of_nat (4096 * n) \<and> 0 < n \<and> 4096 * (k + n) < 2 ^ 64)"

lemma page_div: "4096 * n < 2 ^ 64 \<Longrightarrow> (of_nat (4096 * n) :: u64) div 4096 = of_nat n"
  unfolding word_unat_eq_iff unat_div
  by (subst unat_page, assumption, subst unat_small) (simp_all add: unat_numeral)

lemma free_ranges_counts:
  assumes "bitmap s = Some bm" and "\<forall>r \<in> set rs. page_range r"
  shows "\<exists>m. free_ranges up rs s =
    Some (Ret (s\<lparr>mem := m, pages_used := pages_used s - (\<Sum>r\<leftarrow>rs. r_len r div 4096),
      pages_free := pages_free s + (\<Sum>r\<leftarrow>rs. r_len r div 4096)\<rparr>))"
  using assms
proof (induction rs arbitrary: s)
  case Nil
  have "s = s\<lparr>mem := mem s, pages_used := pages_used s, pages_free := pages_free s\<rparr>" by simp
  then show ?case by (intro exI [of _ "mem s"]) simp
next
  case (Cons r rs)
  from Cons.prems(2) obtain k n where r: "pa_base r = of_nat (4096 * k)" "r_len r = of_nat (4096 * n)" "0 < n"
      "4096 * (k + n) < 2 ^ 64" by (auto simp: page_range_def)
  have n: "4096 * n < 2 ^ 64" using r(4) by simp
  have al: "ALIGN_UP (of_nat (4096 * n)) 4096 = of_nat (4096 * n)"
    using r(4) by (intro ALIGN_UP_page) simp
  have "vm_free_frame (pa_base r) ((if up then ALIGN_UP (r_len r) 4096 else r_len r) div 4096) s =
      Some (Ret (give_frames bm k n s))"
    unfolding r al if_cancel page_div [OF n] by (rule vm_free_frame_run [OF Cons.prems(1) r(4,3)])
  moreover have "r_len r div 4096 = of_nat n" unfolding r by (rule page_div [OF n])
  moreover have "bitmap (give_frames bm k n s) = Some bm" using Cons.prems(1) by (simp add: give_frames_def)
  ultimately show ?case
    using Cons.IH [of "give_frames bm k n s"] Cons.prems(2) by (auto simp: give_frames_def algebra_simps)
qed

text \<open>
  C39 (\<^verbatim>\<open>proc_kill\<close>).  Killing another process returns, but frees each of its ranges twice: the frames of the ranges are
  added to the free count (and taken from the used count) twice, the frame of the address space once.  Between
  the two passes the frames can already belong to somebody else.
\<close>

theorem proc_kill_frees_twice:
  assumes cur: "this_core s = Some c" "curproc (cores s ! c) = Some self" "procs s self = Some spr"
    and p: "procs s p = Some pr" "pid spr \<noteq> pid pr" "envblk pr = None"
    and mem: "bitmap s = Some bm" "\<forall>r \<in> set (maplist pr). page_range r"
      "pcb_vas pr = of_nat (4096 * v)" "4096 * (v + 1) < 2 ^ 64"
  shows "\<exists>s'. proc_kill (Some p) s = Some (Ret (Inr False, s')) \<and>
    pages_free s' = pages_free s + 2 * (\<Sum>r\<leftarrow>maplist pr. r_len r div 4096) + 1 \<and>
    pages_used s' = pages_used s - 2 * (\<Sum>r\<leftarrow>maplist pr. r_len r div 4096) - 1 \<and>
    procq s' = remove1 p (procq s)"
proof -
  let ?n = "\<Sum>r\<leftarrow>maplist pr. r_len r div 4096"
  define s0 where "s0 = upd_proc p (\<lambda>pr. pr\<lparr>flags := flags pr OR PROC_EXITING\<rparr>) s"
  define pr0 where "pr0 = pr\<lparr>flags := flags pr OR PROC_EXITING\<rparr>"
  have p0: "procs s0 p = Some pr0" using p(1) by (simp add: s0_def pr0_def)
  have ml: "maplist pr0 = maplist pr" by (simp add: pr0_def)
  have ne: "self \<noteq> p" using p(1,2) cur(3) by auto
  obtain m1 where f1: "free_ranges True (maplist pr) s0 =
      Some (Ret (s0\<lparr>mem := m1, pages_used := pages_used s0 - ?n, pages_free := pages_free s0 + ?n\<rparr>))"
    using free_ranges_counts [of s0 bm "maplist pr" True] mem(1,2) by (auto simp: s0_def upd_proc_def)
  define s1 where "s1 = s0\<lparr>mem := m1, pages_used := pages_used s0 - ?n, pages_free := pages_free s0 + ?n,
    procq := remove1 p (procq s0)\<rparr>"
  obtain m2 where f2: "free_ranges False (maplist pr) s1 =
      Some (Ret (s1\<lparr>mem := m2, pages_used := pages_used s1 - ?n, pages_free := pages_free s1 + ?n\<rparr>))"
    using free_ranges_counts [of s1 bm "maplist pr" False] mem(1,2) by (auto simp: s1_def s0_def upd_proc_def)
  define s2 where "s2 = s1\<lparr>mem := m2, pages_used := pages_used s1 - ?n, pages_free := pages_free s1 + ?n\<rparr>"
  have b2: "bitmap s2 = Some bm" using mem(1) by (simp add: s2_def s1_def s0_def upd_proc_def)
  define g where "g = give_frames bm v 1 s2"
  have vf: "mmu_free_vas (pcb_vas pr) s2 = Some (Ret (0, g))"
    using vm_free_frame_run [OF b2 mem(4)] by (simp add: mmu_free_vas_def mem(3) g_def)
  define s3 where "s3 = upd_proc p (\<lambda>pr. pr\<lparr>pcb_vas := 0\<rparr>) g"
  have k: "this_core s1 = Some c" "procs s1 p = Some pr0"
    using cur(1) p0 by (simp_all add: s1_def s0_def)
  have kg: "cores g = cores s" "procs g self = Some spr"
    using cur(3) ne by (simp_all add: g_def give_frames_def s2_def s1_def s0_def)
  have "md_proc_kill p s1 = Some (Ret (Inr False, s3))"
    unfolding md_proc_kill_def using k f2 vf kg cur(2) p(2,3) ne
    by (simp add: pr0_def s2_def [symmetric] s3_def Let_def)
  moreover have "proc_self s = Some self" using cur by (simp add: proc_self_def)
  ultimately have "proc_kill (Some p) s = Some (Ret (Inr False, s3))"
    unfolding proc_kill_def using cur(3) p(1,2) p0 f1
    by (simp add: s0_def [symmetric] proc_clear_ranges_def ml s1_def)
  moreover have "pages_free s3 = pages_free s + 2 * ?n + 1" "pages_used s3 = pages_used s - 2 * ?n - 1"
      "procq s3 = remove1 p (procq s)"
    by (simp_all add: s3_def g_def give_frames_def s2_def s1_def s0_def upd_proc_def algebra_simps)
  ultimately show ?thesis by blast
qed

theorem proc_kill_frees_twice_witness:
  "let s = upd_proc 1 (\<lambda>pr. pr\<lparr>pcb_vas := 24576, maplist := [\<lparr>pa_base = 28672, va_base = 0, r_len = 4096\<rparr>]\<rparr>) ex_kmem
   in \<exists>s'. proc_kill (Some 1) s = Some (Ret (Inr False, s')) \<and> pages_used s' = pages_used s - 3"
proof -
  define pr where "pr = (ex_proc 1 0)\<lparr>pcb_vas := 24576, maplist := [\<lparr>pa_base = 28672, va_base = 0, r_len = 4096\<rparr>]\<rparr>"
  define s where "s = upd_proc 1 (\<lambda>pr. pr\<lparr>pcb_vas := 24576, maplist := [\<lparr>pa_base = 28672, va_base = 0, r_len = 4096\<rparr>]\<rparr>) ex_kmem"
  have k: "this_core s = Some 0" "curproc (cores s ! 0) = Some 3" "procs s 3 = Some (ex_proc 3 0)" "procs s 1 = Some pr"
      "bitmap s = Some 4096"
    by (simp_all add: s_def ex_kmem_fields ex_kern_def pr_def) (simp add: upd_proc_def ex_kmem_fields mmu_demo_fields)
  have r: "\<forall>r \<in> set (maplist pr). page_range r"
    unfolding page_range_def pr_def by (simp, rule exI [of _ 7], simp, rule exI [of _ 1], simp)
  have "pid (ex_proc 3 0) \<noteq> pid pr" "envblk pr = None" "pcb_vas pr = of_nat (4096 * 6)"
      "(\<Sum>r\<leftarrow>maplist pr. r_len r div 4096) = 1"
    by (simp_all add: pr_def ex_proc_def)
  with proc_kill_frees_twice [OF k(1-4) _ _ k(5) r, of 6] show ?thesis
    unfolding Let_def s_def [symmetric] by (auto simp: algebra_simps)
qed

end
