(* ===== verification/Os_File.thy ===== *)
theory Os_File
  imports Os_Proc
begin

text \<open>
  Open files: the second part of \<^verbatim>\<open>os/os_filedes.c\<close> and the system calls of \<^verbatim>\<open>compat/unix/os/os_filedesc.c\<close>.  A write to
  the standard output goes to the console, which is not part of the state.  Buffers are given by their address
  (which is all that \<^verbatim>\<open>proc_check_addr\<close> looks at) and their bytes.
\<close>

section \<open>Opening and closing\<close>

definition fd_open ::
  "char list \<Rightarrow> char list \<Rightarrow> char list option \<Rightarrow> u32 \<Rightarrow> kern \<Rightarrow> (int \<times> kern) run" where
  "fd_open namebuf nb nm mode s =
     (case (proc_self s, nm) of
        (Some self, Some nm) \<Rightarrow>
          (case fd_alloc self s of
             None \<Rightarrow> Some Fault
           | Some (Inl e, s) \<Rightarrow> Some (Ret (- errno_code e, s))
           | Some (Inr fd, s) \<Rightarrow>
               (case namei namebuf nb (Some nm) (mode AND O_CREAT \<noteq> 0) (kfs s) of
                  None \<Rightarrow> Some Fault
                | Some (Inl e, fs) \<Rightarrow> Some (Ret (- errno_code e, s\<lparr>kfs := fs\<rparr>))
                | Some (Inr vp, fs) \<Rightarrow>
                    Some (Ret (fdno fd,
                      upd_fd self (nat (fdno fd)) (Some (fd\<lparr>fd_vp := Some vp, fd_mode := mode\<rparr>)) (s\<lparr>kfs := fs\<rparr>)))))
      | _ \<Rightarrow> Some (Ret (- errno_code ESRCH, s)))"

definition fd_close :: "int \<Rightarrow> kern \<Rightarrow> (int \<times> kern) run" where
  "fd_close n s =
     (if n < 0 then Some (Ret (- errno_code EBADF, s))
      else
        (case proc_self s of
           None \<Rightarrow> Some (Ret (- errno_code EIO, s))
         | Some self \<Rightarrow>
             (case fd_get self n s of
                None \<Rightarrow> Some Fault
              | Some None \<Rightarrow> Some (Ret (- errno_code EIO, s))
              | Some (Some fd) \<Rightarrow>
                  (let s = set_heap (kfree (Some (fd_id fd)) (heap (kfs s))) (upd_fd self (nat (fdno fd)) None s)
                   in case vop_reclaim (fd_vp fd) (kfs s) of
                        None \<Rightarrow> Some Fault
                      | Some (r, fs) \<Rightarrow> Some (Ret (res_code r, s\<lparr>kfs := fs\<rparr>))))))"

section \<open>Reading, writing and seeking\<close>

abbreviation STDOUT_FILENO :: int where "STDOUT_FILENO \<equiv> 1"
abbreviation KBUF_SIZE :: nat where "KBUF_SIZE \<equiv> 1024"

definition fd_write :: "u64 \<Rightarrow> int \<Rightarrow> u64 \<Rightarrow> char list \<Rightarrow> u64 \<Rightarrow> kern \<Rightarrow> (int \<times> kern) run" where
  "fd_write ue n a buf count s =
     (case proc_self s of
        None \<Rightarrow> Some (Ret (- errno_code ESRCH, s))
      | Some self \<Rightarrow>
          if \<not> proc_check_addr ue a count then Some (Ret (- errno_code EFAULT, s))
          else
            (case fd_get self n s of
               None \<Rightarrow> Some Fault
             | Some None \<Rightarrow> Some (Ret (- errno_code EBADF, s))
             | Some (Some fd) \<Rightarrow>
                 if fd_mode fd AND (O_WRONLY OR O_RDWR) = 0 then Some (Ret (- errno_code EPERM, s))
                 else if KBUF_SIZE < unat count \<or> length buf < unat count then Some Fault
                 else if n = STDOUT_FILENO then Some (Ret (sint count, s))
                 else if fd_vp fd = None then Some (Ret (- errno_code EIO, s))
                 else
                   (case vop_write (fd_vp fd) (Some (take (unat count) buf)) (fd_off fd) count (kfs s) of
                      None \<Rightarrow> Some Fault
                    | Some (retval, fs) \<Rightarrow>
                        if retval \<le> 0 then Some (Ret (retval, s\<lparr>kfs := fs\<rparr>))
                        else
                          Some (Ret (sint count,
                            upd_fd self (nat (fdno fd)) (Some (fd\<lparr>fd_off := fd_off fd + count\<rparr>)) (s\<lparr>kfs := fs\<rparr>))))))"

definition fd_read :: "cdev_read \<Rightarrow> u64 \<Rightarrow> int \<Rightarrow> u64 \<Rightarrow> char list \<Rightarrow> u64 \<Rightarrow> kern \<Rightarrow> (int \<times> char list \<times> kern) run" where
  "fd_read cdev ue n a buf count s =
     (if a = 0 then Some (Ret (- errno_code EINVAL, buf, s))
      else if \<not> proc_check_addr ue a count then Some (Ret (- errno_code EFAULT, buf, s))
      else
        (case (case proc_self s of None \<Rightarrow> Some None | Some self \<Rightarrow> fd_get self n s) of
           None \<Rightarrow> Some Fault
         | Some None \<Rightarrow> Some (Ret (- errno_code EBADF, buf, s))
         | Some (Some fd) \<Rightarrow>
             if fd_mode fd = O_WRONLY then Some (Ret (- errno_code EPERM, buf, s))
             else if fd_vp fd = None then Some (Ret (- errno_code EIO, buf, s))
             else
               (case vop_read cdev (fd_vp fd) (Some buf) (fd_off fd) count (kfs s) of
                  None \<Rightarrow> Some Fault
                | Some (retval, dest) \<Rightarrow>
                    (let buf = (case dest of None \<Rightarrow> buf | Some b \<Rightarrow> b)
                     in if retval \<le> 0 then Some (Ret (retval, buf, s))
                        else
                          Some (Ret (retval, buf,
                            (case proc_self s of
                               None \<Rightarrow> s
                             | Some self \<Rightarrow>
                                 upd_fd self (nat (fdno fd)) (Some (fd\<lparr>fd_off := fd_off fd + count\<rparr>)) s)))))))"

datatype whence = SEEK_SET | SEEK_CUR | SEEK_END

definition lseek :: "int \<Rightarrow> u64 \<Rightarrow> whence \<Rightarrow> kern \<Rightarrow> (u64 \<times> kern) run" where
  "lseek n off wh s =
     (if n < 0 then Some (Ret (word_of_int (- errno_code EBADF), s))
      else
        (case (case proc_self s of None \<Rightarrow> Some None | Some self \<Rightarrow> fd_get self n s) of
           None \<Rightarrow> Some Fault
         | Some None \<Rightarrow> Some (Ret (word_of_int (- errno_code EBADF), s))
         | Some (Some fd) \<Rightarrow>
             (case vop_getattr (fd_vp fd) (kfs s) of
                None \<Rightarrow> Some Fault
              | Some (Inl _) \<Rightarrow> Some (Ret (0, s))
              | Some (Inr sz) \<Rightarrow>
                  (let o' = (case wh of SEEK_SET \<Rightarrow> off | SEEK_CUR \<Rightarrow> fd_off fd + off | SEEK_END \<Rightarrow> sz)
                   in Some (Ret (o',
                        (case proc_self s of
                           None \<Rightarrow> s
                         | Some self \<Rightarrow> upd_fd self (nat (fdno fd)) (Some (fd\<lparr>fd_off := o'\<rparr>)) s)))))))"

section \<open>System calls\<close>

text \<open>The buffers \<open>pathbuf\<close>, \<open>namebuf\<close>, \<open>nb\<close> and \<open>kbuf\<close> are uninitialised.  A path without a terminator is read past its end.\<close>

definition sys_open ::
  "u64 \<Rightarrow> char list \<Rightarrow> char list \<Rightarrow> char list \<Rightarrow> u64 \<Rightarrow> u32 \<Rightarrow> kern \<Rightarrow> (int \<times> kern) run" where
  "sys_open ue pathbuf namebuf nb u_path mode s =
     run_bind (copyinstr ue u_path pathbuf PATH_MAX s) (\<lambda>(r, pathbuf).
       if isl r then Some (Ret (res_code r, s))
       else if NUL \<notin> set pathbuf then Some Fault
       else fd_open namebuf nb (Some (cstr pathbuf)) mode s)"

definition sys_lseek :: "int \<Rightarrow> u64 \<Rightarrow> whence \<Rightarrow> kern \<Rightarrow> (u64 \<times> kern) run" where
  "sys_lseek n off wh s = lseek n off wh s"

text \<open>\<open>ka\<close> is the address of the kernel's buffer, which \<^verbatim>\<open>write\<close> checks as if it were a user address.\<close>

definition sys_write :: "u64 \<Rightarrow> u64 \<Rightarrow> char list \<Rightarrow> int \<Rightarrow> u64 \<Rightarrow> u64 \<Rightarrow> kern \<Rightarrow> (int \<times> kern) run" where
  "sys_write ue ka kbuf n buf count s =
     run_bind (copyin ue buf (min (unat count) KBUF_SIZE) s) (\<lambda>r.
       case r of
         Inl _ \<Rightarrow> Some (Ret (- errno_code EFAULT, s))
       | Inr bs \<Rightarrow> fd_write ue n ka (bs @ drop (length bs) kbuf) count s)"

definition sys_read :: "cdev_read \<Rightarrow> u64 \<Rightarrow> int \<Rightarrow> u64 \<Rightarrow> u64 \<Rightarrow> kern \<Rightarrow> (int \<times> kern) run" where
  "sys_read cdev ue n u_buf count s =
     (case kalloc (unat count) (heap (kfs s)) of
        (None, h) \<Rightarrow> Some (Ret (- errno_code ENOMEM, set_heap h s))
      | (Some k, h) \<Rightarrow>
          run_bind (fd_read cdev ue n (k_addr h k) (map (junk (kfs s) k) [0..<unat count]) count (set_heap h s))
            (\<lambda>(retval, kbuf, s).
               if retval < 0 then Some (Ret (retval, set_heap (kfree (Some k) (heap (kfs s))) s))
               else
                 run_bind (copyout ue kbuf u_buf s) (\<lambda>(r, s).
                   Some (Ret (if isl r then res_code r else retval, set_heap (kfree (Some k) (heap (kfs s))) s)))))"

definition sys_close :: "int \<Rightarrow> kern \<Rightarrow> (int \<times> kern) run" where
  "sys_close n s = fd_close n s"

text \<open>The type is copied with the size of the pointer, 8, as the limit.\<close>

definition sys_mount ::
  "u64 \<Rightarrow> bool \<Rightarrow> char list \<Rightarrow> char list \<Rightarrow> char list \<Rightarrow> u64 \<Rightarrow> u64 \<Rightarrow> u64 \<Rightarrow> kern \<Rightarrow> (int \<times> kern) run" where
  "sys_mount ue err0 source target fstype u_source u_target u_fstype s =
     run_bind (copyinstr ue u_source source NAME_MAX s) (\<lambda>_.
     run_bind (copyinstr ue u_target target NAME_MAX s) (\<lambda>(r, target).
       if isl r then Some (Ret (res_code r, s))
       else
         run_bind (copyinstr ue u_fstype fstype 8 s) (\<lambda>(r, fstype).
           if isl r then Some (Ret (res_code r, s))
           else if NUL \<notin> set target \<or> NUL \<notin> set fstype then Some Fault
           else
             (case kmount err0 (Some (cstr target)) (Some (cstr fstype)) (kfs s) of
                (r, fs) \<Rightarrow> Some (Ret (res_code r, s\<lparr>kfs := fs\<rparr>))))))"

section \<open>What a descriptor promises\<close>

lemma sint_small:
  fixes w :: u64
  assumes "unat w < 2 ^ 63"
  shows "sint w = int (unat w)"
proof -
  have "uint w < 2 ^ 63" using assms by (metis of_nat_less_iff of_nat_numeral of_nat_power of_nat_unat)
  moreover have "- (2 ^ 63) \<le> uint w" by (rule order_trans [OF _ unsigned_greater_eq]) simp
  ultimately show ?thesis using signed_take_bit_int_eq_self [of 63 "uint w"] by (simp add: sint_uint)
qed

definition open_fd :: "nat \<Rightarrow> nat \<Rightarrow> filedesc \<Rightarrow> kern \<Rightarrow> bool" where
  "open_fd p i fd s \<longleftrightarrow>
     proc_self s = Some p \<and> i < FD_MAX \<and>
     (\<exists>pr. procs s p = Some pr \<and> fdtab_ok (fdtab pr) \<and> fdtab pr ! i = Some fd)"

lemma open_fd_get:
  assumes "open_fd p i fd s"
  shows "fd_get p (int i) s = Some (Some fd)" and "fdno fd = int i" and "proc_self s = Some p"
  using assms fd_find_ok by (auto simp: open_fd_def fd_get_def fdtab_ok_def)

lemma open_fd_kfs: "open_fd p i fd (s\<lparr>kfs := fs\<rparr>) = open_fd p i fd s"
  by (simp add: open_fd_def proc_self_def split: option.split)

lemma open_fd_upd:
  assumes "open_fd p i fd s" and "fdno fd' = int i"
  shows "open_fd p i fd' (upd_fd p i (Some fd') s)"
proof -
  from assms(1) obtain pr where pr: "proc_self s = Some p" "i < FD_MAX" "procs s p = Some pr" "fdtab_ok (fdtab pr)"
    by (auto simp: open_fd_def)
  have "proc_self (upd_fd p i (Some fd') s) = Some p"
    using pr(1) by (auto simp: proc_self_def upd_fd_def split: option.splits)
  moreover have "procs (upd_fd p i (Some fd') s) p = Some (pr\<lparr>fdtab := (fdtab pr)[i := Some fd']\<rparr>)"
    using pr(3) by (simp add: upd_fd_def)
  moreover have "fdtab_ok ((fdtab pr)[i := Some fd'])" using pr(4) assms(2) by (intro fdtab_ok_upd) auto
  moreover have "i < length (fdtab pr)" using pr(2,4) by (simp add: fdtab_ok_def)
  ultimately show ?thesis using pr(2) by (auto simp: open_fd_def)
qed

lemma upd_fd_kfs [simp]: "kfs (upd_fd p i fd s) = kfs s"
  by (simp add: upd_fd_def upd_proc_def)

text \<open>
  The contract between the descriptors and a file system: \<open>inv\<close> says which vnodes are files in a good state and \<open>room\<close>
  when a write to one of them can be served.  Reading what has just been written gives it back, and the size can
  be asked for.
\<close>

locale vnode_io =
  fixes inv :: "nat \<Rightarrow> fstate \<Rightarrow> bool" and room :: "nat \<Rightarrow> u64 \<Rightarrow> u64 \<Rightarrow> fstate \<Rightarrow> bool"
  assumes write_read:
    "inv vp fs \<Longrightarrow> room vp off len fs \<Longrightarrow> length data = unat len \<Longrightarrow> 0 < len \<Longrightarrow>
     \<exists>fs'. vop_write (Some vp) (Some data) off len fs = Some (sint len, fs') \<and> inv vp fs' \<and>
       (\<forall>cdev dest. length dest = unat len \<longrightarrow>
          vop_read cdev (Some vp) (Some dest) off len fs' = Some (sint len, Some data))"
    and getattr: "inv vp fs \<Longrightarrow> \<exists>n. vop_getattr (Some vp) fs = Some (Inr n)"
begin

lemma seek:
  assumes "open_fd p i fd s" and "fd_vp fd = Some vp" and "inv vp (kfs s)"
  shows "lseek (int i) off SEEK_SET s = Some (Ret (off, upd_fd p i (Some (fd\<lparr>fd_off := off\<rparr>)) s))"
  using open_fd_get [OF assms(1)] getattr [OF assms(3)] assms(2) by (auto simp: lseek_def)

lemma write_seek_read:
  assumes fd: "open_fd p i fd s" "fd_vp fd = Some vp" "fd_mode fd = O_RDWR" "i \<noteq> 1"
    and io: "inv vp (kfs s)" "room vp (fd_off fd) count (kfs s)" "0 < count" "unat count \<le> KBUF_SIZE"
    and buf: "on_stack a" "on_stack b" "length data = unat count" "length dest = unat count"
  shows "\<exists>s1 s2 s3. fd_write ue (int i) a data count s = Some (Ret (sint count, s1)) \<and>
    lseek (int i) (fd_off fd) SEEK_SET s1 = Some (Ret (fd_off fd, s2)) \<and>
    fd_read cdev ue (int i) b dest count s2 = Some (Ret (sint count, data, s3))"
proof -
  note g = open_fd_get [OF fd(1)]
  obtain fs' where w: "vop_write (Some vp) (Some data) (fd_off fd) count (kfs s) = Some (sint count, fs')" "inv vp fs'"
      "\<forall>cdev dest. length dest = unat count \<longrightarrow>
         vop_read cdev (Some vp) (Some dest) (fd_off fd) count fs' = Some (sint count, Some data)"
    using write_read [OF io(1,2) buf(3) io(3)] by blast
  have "0 < unat count" "unat count < 2 ^ 63" using io(3,4) by (simp_all add: word_less_nat_alt)
  then have pos: "\<not> sint count \<le> 0" by (simp only: sint_small)
  define fd1 where "fd1 = fd\<lparr>fd_off := fd_off fd + count\<rparr>"
  define s1 where "s1 = upd_fd p i (Some fd1) (s\<lparr>kfs := fs'\<rparr>)"
  define s2 where "s2 = upd_fd p i (Some (fd1\<lparr>fd_off := fd_off fd\<rparr>)) s1"
  have "int i \<noteq> STDOUT_FILENO" using fd(4) by simp
  then have 1: "fd_write ue (int i) a data count s = Some (Ret (sint count, s1))"
    using g fd(2,3) io(4) buf(3) w(1) pos check_on_stack [OF buf(1)]
    by (simp add: fd_write_def s1_def fd1_def)
  have o1: "open_fd p i fd1 s1"
    unfolding s1_def by (rule open_fd_upd) (use fd(1) g(2) in \<open>simp_all add: open_fd_kfs fd1_def\<close>)
  have 2: "lseek (int i) (fd_off fd) SEEK_SET s1 = Some (Ret (fd_off fd, s2))"
    using seek [OF o1] fd(2) w(2) by (simp add: s2_def s1_def fd1_def)
  have "open_fd p i (fd1\<lparr>fd_off := fd_off fd\<rparr>) s2"
    unfolding s2_def by (rule open_fd_upd [OF o1]) (simp add: fd1_def g(2))
  from open_fd_get [OF this] have "\<exists>s3. fd_read cdev ue (int i) b dest count s2 = Some (Ret (sint count, data, s3))"
    using fd(2,3) w(3) buf(4) pos check_on_stack [OF buf(2)] on_stack_nz [OF buf(2)]
    by (simp add: fd_read_def s2_def s1_def fd1_def)
  with 1 2 show ?thesis by blast
qed

end

text \<open>Files of the temporary file system keep the contract.\<close>

definition tmpfs_file :: "nat \<Rightarrow> fstate \<Rightarrow> bool" where
  "tmpfs_file vp fs \<longleftrightarrow>
     tmpfs_inv fs \<and>
     (\<exists>v n np. vnodes fs vp = Some v \<and> v_ops v = Some TMPFS_VOPS \<and> v_data v = Some (VD_tmpfs n) \<and> node_of n fs = Some np)"

definition tmpfs_room :: "nat \<Rightarrow> u64 \<Rightarrow> u64 \<Rightarrow> fstate \<Rightarrow> bool" where
  "tmpfs_room vp off len fs \<longleftrightarrow>
     \<not> k_oom (heap fs) (k_cnt (heap fs)) \<and> unat off + unat len < KREALLOC_MAX \<and>
     (\<forall>v n np. vnodes fs vp = Some v \<and> v_data v = Some (VD_tmpfs n) \<and> node_of n fs = Some np \<longrightarrow>
        off \<le> t_real_len np \<and> unat (t_real_len np) + unat len < 2 ^ 64)"

interpretation tmpfs_io: vnode_io tmpfs_file tmpfs_room
proof unfold_locales
  fix vp fs off len and data :: "char list"
  assume f: "tmpfs_file vp fs" and r: "tmpfs_room vp off len fs" and l: "length data = unat len" "0 < len"
  from f obtain v n np where v: "tmpfs_inv fs" "vnodes fs vp = Some v" "v_ops v = Some TMPFS_VOPS"
      "v_data v = Some (VD_tmpfs n)" "node_of n fs = Some np" by (auto simp: tmpfs_file_def)
  from r v have o: "off \<le> t_real_len np" "unat (t_real_len np) + unat len < 2 ^ 64" "unat off + unat len < KREALLOC_MAX"
      "\<not> k_oom (heap fs) (k_cnt (heap fs))" by (auto simp: tmpfs_room_def)
  obtain fs' np' where w: "tmpfs_write (Some vp) data off len fs = Some (Inr len, fs')" "tmpfs_inv fs'"
      "vnodes fs' = vnodes fs" "node_of n fs' = Some np'"
      "\<forall>dest. length dest = unat len \<longrightarrow> tmpfs_read (Some vp) dest off len fs' = Some (Inr len, data)"
    using tmpfs_write_ok [OF v(1,2,4,5) l o] by blast
  have "len \<noteq> 0" using l(2) by auto
  then have "vop_write (Some vp) (Some data) off len fs = Some (sint len, fs')"
    using v(2,3) w(1) by (simp add: vop_write_def ssize_def)
  moreover have "tmpfs_file vp fs'" using w v by (auto simp: tmpfs_file_def)
  moreover have "vop_read cdev (Some vp) (Some dest) off len fs' = Some (sint len, Some data)"
    if "length dest = unat len" for cdev dest
    using \<open>len \<noteq> 0\<close> v(2,3) w(3,5) that by (simp add: vop_read_def ssize_def)
  ultimately show "\<exists>fs'. vop_write (Some vp) (Some data) off len fs = Some (sint len, fs') \<and> tmpfs_file vp fs' \<and>
      (\<forall>cdev dest. length dest = unat len \<longrightarrow> vop_read cdev (Some vp) (Some dest) off len fs' = Some (sint len, Some data))"
    by blast
next
  fix vp fs
  assume "tmpfs_file vp fs"
  then show "\<exists>n. vop_getattr (Some vp) fs = Some (Inr n)"
    by (auto simp: tmpfs_file_def vop_getattr_def tmpfs_getattr_def)
qed

end
