(* ===== verification/Vm_Tlsf.thy ===== *)
theory Vm_Tlsf
  imports L5_Mem
begin

text \<open>
  The two-level segregated fit allocator behind \<^verbatim>\<open>kalloc\<close>, \<^verbatim>\<open>sys/vm/vm_tlsf.c\<close>, as it is built for amd64.
  Block headers lie in a byte memory and are read and written there, with 64-bit pointers and sizes and their
  wrap-around; the user data of a block shares that memory.  Of the control structure at address \<open>control\<close> the
  null block is in the memory, the bitmaps and the heads of the free lists are fields of the state.  A failed
  assertion is \<open>Panic\<close>, an index outside the arrays of the control structure is \<open>Fault\<close>.
\<close>

section \<open>Constants\<close>

abbreviation (input) SL_INDEX_COUNT_LOG2 :: nat where "SL_INDEX_COUNT_LOG2 \<equiv> 5"
abbreviation (input) ALIGN_SIZE :: u64 where "ALIGN_SIZE \<equiv> 8"
abbreviation (input) SL_INDEX_COUNT :: nat where "SL_INDEX_COUNT \<equiv> 32"
abbreviation (input) FL_INDEX_SHIFT :: nat where "FL_INDEX_SHIFT \<equiv> 8"
abbreviation (input) FL_INDEX_COUNT :: nat where "FL_INDEX_COUNT \<equiv> 25"
abbreviation (input) SMALL_BLOCK_SIZE :: u64 where "SMALL_BLOCK_SIZE \<equiv> 256"
abbreviation (input) block_header_free_bit :: u64 where "block_header_free_bit \<equiv> 1"
abbreviation (input) block_header_prev_free_bit :: u64 where "block_header_prev_free_bit \<equiv> 2"
abbreviation (input) block_header_overhead :: u64 where "block_header_overhead \<equiv> 8"
abbreviation (input) block_start_offset :: u64 where "block_start_offset \<equiv> 16"
abbreviation (input) sizeof_block_header :: u64 where "sizeof_block_header \<equiv> 32"
abbreviation (input) block_size_min :: u64 where "block_size_min \<equiv> 24"
abbreviation (input) block_size_max :: u64 where "block_size_max \<equiv> 0x100000000"
abbreviation (input) tlsf_size :: u64 where "tlsf_size \<equiv> 6536"

section \<open>Searching bits\<close>

definition tlsf_ffs :: "u32 \<Rightarrow> int" where
  "tlsf_ffs w = (case find (bit w) [0..<32] of None \<Rightarrow> - 1 | Some i \<Rightarrow> int i)"

definition tlsf_fls :: "u32 \<Rightarrow> int" where
  "tlsf_fls w = (case find (bit w) (rev [0..<32]) of None \<Rightarrow> - 1 | Some i \<Rightarrow> int i)"

definition tlsf_fls_sizet :: "u64 \<Rightarrow> int" where
  "tlsf_fls_sizet sz =
     (let high = ucast (drop_bit 32 sz) :: u32
      in if high \<noteq> 0 then 32 + tlsf_fls high else tlsf_fls (ucast sz))"

section \<open>The state\<close>

record tlsf =
  tmem :: pmem
  control :: u64
  fl_bitmap :: u32
  sl_bitmap :: "u32 list"
  blocks :: "u64 list list"

definition rd :: "tlsf \<Rightarrow> u64 \<Rightarrow> u64" where
  "rd t a = load64 (tmem t) (unat a)"

definition wr :: "u64 \<Rightarrow> u64 \<Rightarrow> tlsf \<Rightarrow> tlsf" where
  "wr a v t = t\<lparr>tmem := store64 (tmem t) (unat a) v\<rparr>"

text \<open>The members of \<^verbatim>\<open>block_header_t\<close> of the block at \<open>b\<close>.\<close>

abbreviation (input) prev_phys_block :: "tlsf \<Rightarrow> u64 \<Rightarrow> u64" where "prev_phys_block t b \<equiv> rd t b"
abbreviation (input) size_field :: "tlsf \<Rightarrow> u64 \<Rightarrow> u64" where "size_field t b \<equiv> rd t (b + 8)"
abbreviation (input) next_free :: "tlsf \<Rightarrow> u64 \<Rightarrow> u64" where "next_free t b \<equiv> rd t (b + 16)"
abbreviation (input) prev_free :: "tlsf \<Rightarrow> u64 \<Rightarrow> u64" where "prev_free t b \<equiv> rd t (b + 24)"

section \<open>Blocks\<close>

definition block_size :: "tlsf \<Rightarrow> u64 \<Rightarrow> u64" where
  "block_size t b = size_field t b AND NOT (block_header_free_bit OR block_header_prev_free_bit)"

definition block_set_size :: "u64 \<Rightarrow> u64 \<Rightarrow> tlsf \<Rightarrow> tlsf" where
  "block_set_size b sz t =
     (let oldsize = size_field t b
      in wr (b + 8) (sz OR (oldsize AND (block_header_free_bit OR block_header_prev_free_bit))) t)"

definition block_is_last :: "tlsf \<Rightarrow> u64 \<Rightarrow> bool" where
  "block_is_last t b \<longleftrightarrow> block_size t b = 0"

definition block_is_free :: "tlsf \<Rightarrow> u64 \<Rightarrow> bool" where
  "block_is_free t b \<longleftrightarrow> size_field t b AND block_header_free_bit \<noteq> 0"

definition block_set_free :: "u64 \<Rightarrow> tlsf \<Rightarrow> tlsf" where
  "block_set_free b t = wr (b + 8) (size_field t b OR block_header_free_bit) t"

definition block_set_used :: "u64 \<Rightarrow> tlsf \<Rightarrow> tlsf" where
  "block_set_used b t = wr (b + 8) (size_field t b AND NOT block_header_free_bit) t"

definition block_is_prev_free :: "tlsf \<Rightarrow> u64 \<Rightarrow> bool" where
  "block_is_prev_free t b \<longleftrightarrow> size_field t b AND block_header_prev_free_bit \<noteq> 0"

definition block_set_prev_free :: "u64 \<Rightarrow> tlsf \<Rightarrow> tlsf" where
  "block_set_prev_free b t = wr (b + 8) (size_field t b OR block_header_prev_free_bit) t"

definition block_set_prev_used :: "u64 \<Rightarrow> tlsf \<Rightarrow> tlsf" where
  "block_set_prev_used b t = wr (b + 8) (size_field t b AND NOT block_header_prev_free_bit) t"

definition block_from_ptr :: "u64 \<Rightarrow> u64" where
  "block_from_ptr p = p - block_start_offset"

definition block_to_ptr :: "u64 \<Rightarrow> u64" where
  "block_to_ptr b = b + block_start_offset"

definition offset_to_block :: "u64 \<Rightarrow> u64 \<Rightarrow> u64" where
  "offset_to_block p sz = p + sz"

definition block_prev :: "tlsf \<Rightarrow> u64 \<Rightarrow> u64 exec" where
  "block_prev t b = (if block_is_prev_free t b then Ret (prev_phys_block t b) else Panic)"

definition block_next :: "tlsf \<Rightarrow> u64 \<Rightarrow> u64 exec" where
  "block_next t b =
     (let next = offset_to_block (block_to_ptr b) (block_size t b - block_header_overhead)
      in if block_is_last t b then Panic else Ret next)"

definition block_link_next :: "u64 \<Rightarrow> tlsf \<Rightarrow> (u64 \<times> tlsf) exec" where
  "block_link_next b t = exec_bind (block_next t b) (\<lambda>next. Ret (next, wr next b t))"

definition block_mark_as_free :: "u64 \<Rightarrow> tlsf \<Rightarrow> tlsf exec" where
  "block_mark_as_free b t =
     exec_bind (block_link_next b t) (\<lambda>(next, t). Ret (block_set_free b (block_set_prev_free next t)))"

definition block_mark_as_used :: "u64 \<Rightarrow> tlsf \<Rightarrow> tlsf exec" where
  "block_mark_as_used b t =
     exec_bind (block_next t b) (\<lambda>next. Ret (block_set_used b (block_set_prev_used next t)))"

definition align_up :: "u64 \<Rightarrow> u64 \<Rightarrow> u64 exec" where
  "align_up x align =
     (if align AND (align - 1) = 0 then Ret ((x + (align - 1)) AND NOT (align - 1)) else Panic)"

definition align_down :: "u64 \<Rightarrow> u64 \<Rightarrow> u64 exec" where
  "align_down x align = (if align AND (align - 1) = 0 then Ret (x - (x AND (align - 1))) else Panic)"

definition align_ptr :: "u64 \<Rightarrow> u64 \<Rightarrow> u64 exec" where
  "align_ptr ptr align =
     (let aligned = (ptr + (align - 1)) AND NOT (align - 1)
      in if align AND (align - 1) = 0 then Ret aligned else Panic)"

definition tlsf_max :: "u64 \<Rightarrow> u64 \<Rightarrow> u64" where
  "tlsf_max a b = (if a > b then a else b)"

definition adjust_request_size :: "u64 \<Rightarrow> u64 \<Rightarrow> u64 exec" where
  "adjust_request_size sz align =
     (if sz \<noteq> 0 then
        exec_bind (align_up sz align)
          (\<lambda>aligned. Ret (if aligned < block_size_max then tlsf_max aligned block_size_min else 0))
      else Ret 0)"

section \<open>Size classes and free lists\<close>

definition mapping_insert :: "u64 \<Rightarrow> nat \<times> nat" where
  "mapping_insert sz =
     (if sz < SMALL_BLOCK_SIZE then (0, unat (ucast sz div (8 :: u32)))
      else
        (let fl = tlsf_fls_sizet sz;
             sl = (ucast (drop_bit (nat (fl - int SL_INDEX_COUNT_LOG2)) sz) :: u32) XOR push_bit SL_INDEX_COUNT_LOG2 1
         in (nat (fl - (int FL_INDEX_SHIFT - 1)), unat sl)))"

definition mapping_search :: "u64 \<Rightarrow> nat \<times> nat" where
  "mapping_search sz =
     mapping_insert
       (if sz \<ge> SMALL_BLOCK_SIZE
        then sz + (push_bit (nat (tlsf_fls_sizet sz - int SL_INDEX_COUNT_LOG2)) 1 - 1) else sz)"

definition search_suitable_block :: "tlsf \<Rightarrow> nat \<Rightarrow> nat \<Rightarrow> (u64 \<times> nat \<times> nat) exec" where
  "search_suitable_block t fl sl =
     (let pick = (\<lambda>fl sl_map.
            if sl_map = 0 then Panic
            else (let sl = nat (tlsf_ffs sl_map) in Ret (blocks t ! fl ! sl, fl, sl)));
          sl_map = sl_bitmap t ! fl AND push_bit sl (NOT 0)
      in if sl_map = 0 then
           (let fl_map = fl_bitmap t AND push_bit (fl + 1) (NOT 0)
            in if fl_map = 0 then Ret (0, fl, sl)
               else (let fl = nat (tlsf_ffs fl_map) in pick fl (sl_bitmap t ! fl)))
         else pick fl sl_map)"

text \<open>Indices inside \<^verbatim>\<open>blocks\<close> and \<^verbatim>\<open>sl_bitmap\<close>.\<close>

definition in_range :: "nat \<Rightarrow> nat \<Rightarrow> bool" where
  "in_range fl sl \<longleftrightarrow> fl < FL_INDEX_COUNT \<and> sl < SL_INDEX_COUNT"

definition set_head :: "nat \<Rightarrow> nat \<Rightarrow> u64 \<Rightarrow> tlsf \<Rightarrow> tlsf" where
  "set_head fl sl b t = t\<lparr>blocks := (blocks t)[fl := (blocks t ! fl)[sl := b]]\<rparr>"

definition remove_free_block :: "u64 \<Rightarrow> nat \<Rightarrow> nat \<Rightarrow> tlsf \<Rightarrow> tlsf exec" where
  "remove_free_block b fl sl t =
     (let prev = prev_free t b; next = next_free t b
      in if prev = 0 \<or> next = 0 then Panic
         else
           (let t = wr (next + 24) prev t; t = wr (prev + 16) next t
            in if \<not> in_range fl sl then Fault
               else if blocks t ! fl ! sl = b then
                 (let t = set_head fl sl next t
                  in if next = control t then
                       (let t = t\<lparr>sl_bitmap := (sl_bitmap t)[fl := sl_bitmap t ! fl AND NOT (push_bit sl 1)]\<rparr>
                        in Ret (if sl_bitmap t ! fl = 0
                                then t\<lparr>fl_bitmap := fl_bitmap t AND NOT (push_bit fl 1)\<rparr> else t))
                     else Ret t)
               else Ret t))"

definition insert_free_block :: "u64 \<Rightarrow> nat \<Rightarrow> nat \<Rightarrow> tlsf \<Rightarrow> tlsf exec" where
  "insert_free_block b fl sl t =
     (if \<not> in_range fl sl then Fault
      else
        (let current = blocks t ! fl ! sl
         in if current = 0 \<or> b = 0 then Panic
            else
              (let t = wr (b + 16) current t; t = wr (b + 24) (control t) t; t = wr (current + 24) b t
               in exec_bind (align_ptr (block_to_ptr b) ALIGN_SIZE)
                    (\<lambda>aligned.
                       if block_to_ptr b \<noteq> aligned then Panic
                       else
                         (let t = set_head fl sl b t;
                              t = t\<lparr>fl_bitmap := fl_bitmap t OR push_bit fl 1\<rparr>
                          in Ret (t\<lparr>sl_bitmap := (sl_bitmap t)[fl := sl_bitmap t ! fl OR push_bit sl 1]\<rparr>))))))"

definition block_remove :: "u64 \<Rightarrow> tlsf \<Rightarrow> tlsf exec" where
  "block_remove b t = (let (fl, sl) = mapping_insert (block_size t b) in remove_free_block b fl sl t)"

definition block_insert :: "u64 \<Rightarrow> tlsf \<Rightarrow> tlsf exec" where
  "block_insert b t = (let (fl, sl) = mapping_insert (block_size t b) in insert_free_block b fl sl t)"

section \<open>Splitting and merging\<close>

definition block_can_split :: "tlsf \<Rightarrow> u64 \<Rightarrow> u64 \<Rightarrow> bool" where
  "block_can_split t b sz \<longleftrightarrow> block_size t b \<ge> sizeof_block_header + sz"

definition block_split :: "u64 \<Rightarrow> u64 \<Rightarrow> tlsf \<Rightarrow> (u64 \<times> tlsf) exec" where
  "block_split b sz t =
     (let remaining = offset_to_block (block_to_ptr b) (sz - block_header_overhead);
          remain_size = block_size t b - (sz + block_header_overhead)
      in exec_bind (align_ptr (block_to_ptr remaining) ALIGN_SIZE)
           (\<lambda>aligned.
              if block_to_ptr remaining \<noteq> aligned then Panic
              else if block_size t b \<noteq> remain_size + sz + block_header_overhead then Panic
              else
                (let t = block_set_size remaining remain_size t
                 in if block_size t remaining < block_size_min then Panic
                    else
                      exec_bind (block_mark_as_free remaining (block_set_size b sz t))
                        (\<lambda>t. Ret (remaining, t)))))"

definition block_absorb :: "u64 \<Rightarrow> u64 \<Rightarrow> tlsf \<Rightarrow> (u64 \<times> tlsf) exec" where
  "block_absorb prev b t =
     (if block_is_last t prev then Panic
      else
        (let t = wr (prev + 8) (size_field t prev + (block_size t b + block_header_overhead)) t
         in exec_bind (block_link_next prev t) (\<lambda>(next, t). Ret (prev, t))))"

definition block_merge_prev :: "u64 \<Rightarrow> tlsf \<Rightarrow> (u64 \<times> tlsf) exec" where
  "block_merge_prev b t =
     (if block_is_prev_free t b then
        exec_bind (block_prev t b)
          (\<lambda>prev.
             if prev = 0 \<or> \<not> block_is_free t prev then Panic
             else exec_bind (block_remove prev t) (block_absorb prev b))
      else Ret (b, t))"

definition block_merge_next :: "u64 \<Rightarrow> tlsf \<Rightarrow> (u64 \<times> tlsf) exec" where
  "block_merge_next b t =
     exec_bind (block_next t b)
       (\<lambda>next.
          if next = 0 then Panic
          else if block_is_free t next then
            (if block_is_last t b then Panic
             else exec_bind (block_remove next t) (block_absorb b next))
          else Ret (b, t))"

definition block_trim_free :: "u64 \<Rightarrow> u64 \<Rightarrow> tlsf \<Rightarrow> tlsf exec" where
  "block_trim_free b sz t =
     (if \<not> block_is_free t b then Panic
      else if block_can_split t b sz then
        exec_bind (block_split b sz t)
          (\<lambda>(remaining, t).
             exec_bind (block_link_next b t)
               (\<lambda>(next, t). block_insert remaining (block_set_prev_free remaining t)))
      else Ret t)"

definition block_trim_used :: "u64 \<Rightarrow> u64 \<Rightarrow> tlsf \<Rightarrow> tlsf exec" where
  "block_trim_used b sz t =
     (if block_is_free t b then Panic
      else if block_can_split t b sz then
        exec_bind (block_split b sz t)
          (\<lambda>(remaining, t).
             exec_bind (block_merge_next remaining (block_set_prev_used remaining t))
               (\<lambda>(remaining, t). block_insert remaining t))
      else Ret t)"

definition block_trim_free_leading :: "u64 \<Rightarrow> u64 \<Rightarrow> tlsf \<Rightarrow> (u64 \<times> tlsf) exec" where
  "block_trim_free_leading b sz t =
     (if block_can_split t b sz then
        exec_bind (block_split b (sz - block_header_overhead) t)
          (\<lambda>(remaining, t).
             exec_bind (block_link_next b (block_set_prev_free remaining t))
               (\<lambda>(next, t). exec_bind (block_insert b t) (\<lambda>t. Ret (remaining, t))))
      else Ret (b, t))"

definition block_locate_free :: "u64 \<Rightarrow> tlsf \<Rightarrow> (u64 \<times> tlsf) exec" where
  "block_locate_free sz t =
     exec_bind
       (if sz \<noteq> 0 then
          (let (fl, sl) = mapping_search sz
           in if fl < FL_INDEX_COUNT then search_suitable_block t fl sl else Ret (0, fl, sl))
        else Ret (0, 0, 0))
       (\<lambda>(b, fl, sl).
          if b \<noteq> 0 then
            (if block_size t b < sz then Panic
             else exec_bind (remove_free_block b fl sl t) (\<lambda>t. Ret (b, t)))
          else Ret (b, t))"

definition block_prepare_used :: "u64 \<Rightarrow> u64 \<Rightarrow> tlsf \<Rightarrow> (u64 \<times> tlsf) exec" where
  "block_prepare_used b sz t =
     (if b \<noteq> 0 then
        (if sz = 0 then Panic
         else
           exec_bind (block_trim_free b sz t)
             (\<lambda>t. exec_bind (block_mark_as_used b t) (\<lambda>t. Ret (block_to_ptr b, t))))
      else Ret (0, t))"

section \<open>Creation and pools\<close>

definition control_construct :: "u64 \<Rightarrow> pmem \<Rightarrow> tlsf" where
  "control_construct c m =
     (let t = \<lparr>tmem = m, control = c, fl_bitmap = 0, sl_bitmap = replicate FL_INDEX_COUNT 0,
               blocks = replicate FL_INDEX_COUNT (replicate SL_INDEX_COUNT c)\<rparr>
      in wr (c + 24) c (wr (c + 16) c t))"

definition tlsf_add_pool :: "u64 \<Rightarrow> u64 \<Rightarrow> tlsf \<Rightarrow> (u64 \<times> tlsf) exec" where
  "tlsf_add_pool p bytes t =
     exec_bind (align_down (bytes - 2 * block_header_overhead) ALIGN_SIZE)
       (\<lambda>pool_bytes.
          if p mod ALIGN_SIZE \<noteq> 0 then Ret (0, t)
          else if pool_bytes < block_size_min \<or> pool_bytes > block_size_max then Ret (0, t)
          else
            (let b = offset_to_block p (- block_header_overhead);
                 t = block_set_size b pool_bytes t;
                 t = block_set_free b t;
                 t = block_set_prev_used b t
             in exec_bind (block_insert b t)
                  (\<lambda>t. exec_bind (block_link_next b t)
                     (\<lambda>(next, t).
                        (let t = block_set_size next 0 t;
                             t = block_set_used next t;
                             t = block_set_prev_free next t
                         in Ret (p, t))))))"

definition tlsf_create :: "u64 \<Rightarrow> pmem \<Rightarrow> tlsf option" where
  "tlsf_create p m = (if p mod ALIGN_SIZE \<noteq> 0 then None else Some (control_construct p m))"

text \<open>
  When \<^verbatim>\<open>tlsf_create\<close> returns null the pool is added to the null structure; that memory is not aligned either,
  so nothing is touched.
\<close>

definition tlsf_create_with_pool :: "u64 \<Rightarrow> u64 \<Rightarrow> pmem \<Rightarrow> tlsf option exec" where
  "tlsf_create_with_pool p bytes m =
     (case tlsf_create p m of
        None \<Rightarrow> if (p + tlsf_size) mod ALIGN_SIZE \<noteq> 0 then Ret None else Fault
      | Some t \<Rightarrow>
          exec_bind (tlsf_add_pool (p + tlsf_size) (bytes - tlsf_size) t) (\<lambda>(r, t). Ret (Some t)))"

definition tlsf_remove_pool :: "u64 \<Rightarrow> tlsf \<Rightarrow> tlsf exec" where
  "tlsf_remove_pool pool t =
     (let b = offset_to_block pool (- block_header_overhead)
      in if \<not> block_is_free t b then Panic
         else
           exec_bind (block_next t b)
             (\<lambda>next.
                if block_is_free t next \<or> block_size t next \<noteq> 0 then Panic
                else (let (fl, sl) = mapping_insert (block_size t b) in remove_free_block b fl sl t)))"

section \<open>The interface\<close>

definition tlsf_malloc :: "u64 \<Rightarrow> tlsf \<Rightarrow> (u64 \<times> tlsf) exec" where
  "tlsf_malloc sz t =
     exec_bind (adjust_request_size sz ALIGN_SIZE)
       (\<lambda>adjust. exec_bind (block_locate_free adjust t) (\<lambda>(b, t). block_prepare_used b adjust t))"

definition tlsf_memalign :: "u64 \<Rightarrow> u64 \<Rightarrow> tlsf \<Rightarrow> (u64 \<times> tlsf) exec" where
  "tlsf_memalign align sz t =
     exec_bind (adjust_request_size sz ALIGN_SIZE) (\<lambda>adjust.
     exec_bind (adjust_request_size (adjust + align + sizeof_block_header) align) (\<lambda>size_with_gap.
       (let aligned_size = (if adjust \<noteq> 0 \<and> align > ALIGN_SIZE then size_with_gap else adjust)
        in exec_bind (block_locate_free aligned_size t)
             (\<lambda>(b, t).
                if b \<noteq> 0 then
                  (let ptr = block_to_ptr b
                   in exec_bind (align_ptr ptr align) (\<lambda>aligned.
                      exec_bind
                        (let gap = aligned - ptr
                         in if gap \<noteq> 0 \<and> gap < sizeof_block_header then
                              (let offset = tlsf_max (sizeof_block_header - gap) align
                               in exec_bind (align_ptr (aligned + offset) align) (\<lambda>aligned. Ret (aligned - ptr)))
                            else Ret gap)
                        (\<lambda>gap.
                           if gap \<noteq> 0 then
                             (if gap < sizeof_block_header then Panic
                              else exec_bind (block_trim_free_leading b gap t)
                                     (\<lambda>(b, t). block_prepare_used b adjust t))
                           else block_prepare_used b adjust t)))
                else block_prepare_used b adjust t))))"

definition tlsf_free :: "u64 \<Rightarrow> tlsf \<Rightarrow> tlsf exec" where
  "tlsf_free ptr t =
     (if ptr \<noteq> 0 then
        (let b = block_from_ptr ptr
         in if block_is_free t b then Panic
            else
              exec_bind (block_mark_as_free b t) (\<lambda>t.
              exec_bind (block_merge_prev b t) (\<lambda>(b, t).
              exec_bind (block_merge_next b t) (\<lambda>(b, t). block_insert b t))))
      else Ret t)"

text \<open>\<^verbatim>\<open>memcpy\<close> inside the memory, byte by byte from the lowest address.\<close>

fun copy_bytes :: "nat \<Rightarrow> nat \<Rightarrow> nat \<Rightarrow> pmem \<Rightarrow> pmem" where
  "copy_bytes d s 0 m = m"
| "copy_bytes d s (Suc n) m = copy_bytes (Suc d) (Suc s) n (m(d := m s))"

definition tlsf_realloc :: "u64 \<Rightarrow> u64 \<Rightarrow> tlsf \<Rightarrow> (u64 \<times> tlsf) exec" where
  "tlsf_realloc ptr sz t =
     (if ptr \<noteq> 0 \<and> sz = 0 then exec_bind (tlsf_free ptr t) (\<lambda>t. Ret (0, t))
      else if ptr = 0 then tlsf_malloc sz t
      else
        (let b = block_from_ptr ptr
         in exec_bind (block_next t b) (\<lambda>next.
            (let cursize = block_size t b;
                 combined = cursize + block_size t next + block_header_overhead
             in exec_bind (adjust_request_size sz ALIGN_SIZE) (\<lambda>adjust.
                  if block_is_free t b then Panic
                  else if adjust > cursize \<and> (\<not> block_is_free t next \<or> adjust > combined) then
                    exec_bind (tlsf_malloc sz t)
                      (\<lambda>(p, t).
                         if p \<noteq> 0 then
                           (let minsize = (if cursize < sz then cursize else sz);
                                t = t\<lparr>tmem := copy_bytes (unat p) (unat ptr) (unat minsize) (tmem t)\<rparr>
                            in exec_bind (tlsf_free ptr t) (\<lambda>t. Ret (p, t)))
                         else Ret (p, t))
                  else
                    exec_bind
                      (if adjust > cursize
                       then exec_bind (block_merge_next b t) (\<lambda>(b', t). block_mark_as_used b t) else Ret t)
                      (\<lambda>t. exec_bind (block_trim_used b adjust t) (\<lambda>t. Ret (ptr, t))))))))"

end
