(* ===== verification/Vm_Tlsf_Cells.thy ===== *)
theory Vm_Tlsf_Cells
  imports Vm_Tlsf
begin

text \<open>
  The memory of the allocator as an array of cells, what each block operation does to the cells, and the size
  classes: \<^verbatim>\<open>mapping_insert\<close> puts a size into the last class that starts at or below it, and every size of the
  class \<^verbatim>\<open>mapping_search\<close> starts at is large enough.
\<close>

section \<open>Memory in words\<close>

text \<open>
  Headers are aligned, so the memory the allocator works on is seen as an array of 64-bit cells: block \<open>k\<close>
  is the block whose header starts at cell \<open>k\<close>, and its four members are the cells \<open>k\<close> to \<open>k + 3\<close>.
\<close>

definition cells :: "tlsf \<Rightarrow> nat \<Rightarrow> u64" where
  "cells t k = load64 (tmem t) (8 * k)"

definition adr :: "nat \<Rightarrow> u64" where
  "adr k = of_nat (8 * k)"

lemma unat_adr: "k < 2 ^ 61 \<Longrightarrow> unat (adr k) = 8 * k"
  by (simp only: adr_def unat_of_nat) (simp add: take_bit_nat_eq_self)

lemma adr_inj: "j < 2 ^ 61 \<Longrightarrow> k < 2 ^ 61 \<Longrightarrow> adr j = adr k \<longleftrightarrow> j = k"
  using unat_adr [of j] unat_adr [of k] by (metis mult_cancel1 zero_neq_numeral)

lemma adr_eq_0: "k < 2 ^ 61 \<Longrightarrow> adr k = 0 \<longleftrightarrow> k = 0"
  using adr_inj [of k 0] by (simp add: adr_def)

lemma adr_add: "adr k + of_nat (8 * j) = adr (k + j)"
  by (simp add: adr_def algebra_simps)

lemma adr_off: "adr k + 8 = adr (k + 1)" "adr k + 16 = adr (k + 2)" "adr k + 24 = adr (k + 3)"
  using adr_add [of k 1] adr_add [of k 2] adr_add [of k 3] by simp_all

lemma rd_cell: "k < 2 ^ 61 \<Longrightarrow> rd t (adr k) = cells t k"
  by (simp add: rd_def cells_def unat_adr)

lemma cells_wr: "k < 2 ^ 61 \<Longrightarrow> cells (wr (adr k) v t) = (cells t)(k := v)"
proof
  fix j assume k: "k < 2 ^ 61"
  show "cells (wr (adr k) v t) j = ((cells t)(k := v)) j"
  proof (cases "j = k")
    case False
    then have "8 * j + 8 \<le> 8 * k \<or> 8 * k + 8 \<le> 8 * j" by linarith
    then show ?thesis using k False by (simp add: cells_def wr_def unat_adr load64_store64_other)
  qed (use k in \<open>simp add: cells_def wr_def unat_adr\<close>)
qed

lemma wr_sel [simp]:
  "control (wr a v t) = control t" "fl_bitmap (wr a v t) = fl_bitmap t"
  "sl_bitmap (wr a v t) = sl_bitmap t" "blocks (wr a v t) = blocks t"
  by (simp_all add: wr_def)

lemma cells_upd [simp]:
  "cells (t\<lparr>fl_bitmap := w\<rparr>) = cells t" "cells (t\<lparr>sl_bitmap := ws\<rparr>) = cells t" "cells (t\<lparr>blocks := bss\<rparr>) = cells t"
  by (simp_all add: cells_def fun_eq_iff)

text \<open>Equal cells are equal bytes.\<close>

lemma load64_mem_bytes: "load64 m' a = load64 m a \<Longrightarrow> i < 8 \<Longrightarrow> m' (a + i) = m (a + i)"
proof (rule bit_word_eqI)
  fix n assume eq: "load64 m' a = load64 m a" and i: "i < 8" and n: "n < LENGTH(8)"
  have "bit (load64 m' a) (8 * i + n) = bit (load64 m a) (8 * i + n)" using eq by simp
  then show "bit (m' (a + i)) n = bit (m (a + i)) n"
    using i n by (simp add: bit_load64)
qed

section \<open>The size field\<close>

definition hdr :: "nat \<Rightarrow> bool \<Rightarrow> bool \<Rightarrow> u64" where
  "hdr n f p = adr n + of_bool f + 2 * of_bool p"

lemma bit_adr: "bit (adr n) i \<longleftrightarrow> 3 \<le> i \<and> bit (of_nat n :: u64) (i - 3) \<and> i < 64"
proof -
  have "adr n = push_bit 3 (of_nat n)" by (simp add: adr_def push_bit_eq_mult)
  then show ?thesis by (auto simp: bit_simps)
qed

lemma bit_123:
  "bit (1 :: u64) i \<longleftrightarrow> i = 0" "bit (2 :: u64) i \<longleftrightarrow> i = 1" "bit (3 :: u64) i \<longleftrightarrow> i = 0 \<or> i = 1"
proof -
  have "(3 :: u64) = 1 OR 2" by simp
  then show "bit (3 :: u64) i \<longleftrightarrow> i = 0 \<or> i = 1" by (simp only: bit_or_iff) (auto simp: bit_simps bit_1_iff)
qed (auto simp: bit_simps bit_1_iff)

lemma bit_hdr: "bit (hdr n f p) i \<longleftrightarrow> (i = 0 \<and> f) \<or> (i = 1 \<and> p) \<or> bit (adr n) i"
proof -
  define v :: u64 where "v = of_bool f + 2 * of_bool p"
  have b: "bit v i \<longleftrightarrow> (i = 0 \<and> f) \<or> (i = 1 \<and> p)" for i
    unfolding v_def by (cases f; cases p) (simp_all add: bit_123 del: bit_numeral_word_iff)
  have "hdr n f p = adr n + v" by (simp add: hdr_def v_def)
  also have "\<dots> = adr n OR v" by (rule disjunctive_add) (auto simp: b bit_adr)
  finally show ?thesis by (auto simp: bit_or_iff b)
qed

lemmas hdr_bit_simps = bit_hdr bit_and_iff bit_not_iff bit_or_iff bit_123 bit_adr

lemma hdr_andnot:
  assumes w: "\<And>i. bit w i \<longleftrightarrow> (a \<and> i = 0) \<or> (b \<and> i = 1)"
  shows "hdr n f p AND NOT w = hdr n (f \<and> \<not> a) (p \<and> \<not> b)"
proof (rule bit_word_eqI)
  fix i assume i: "i < LENGTH(64)"
  consider "i = 0" | "i = 1" | "2 \<le> i" by linarith
  then show "bit (hdr n f p AND NOT w) i = bit (hdr n (f \<and> \<not> a) (p \<and> \<not> b)) i"
    unfolding bit_and_iff bit_not_iff bit_hdr w using i by cases (simp_all add: bit_adr)
qed

lemma hdr_size [simp]: "hdr n f p AND - 4 = adr n"
  using hdr_andnot [of 3 True True n f p] by (simp add: bit_123 hdr_def del: bit_numeral_word_iff)

lemma hdr_set [simp]:
  "hdr n f p OR 1 = hdr n True p" "hdr n f p OR 2 = hdr n f True"
  by (rule bit_word_eqI, auto simp: hdr_bit_simps simp del: bit_numeral_word_iff)+

lemma hdr_clear [simp]: "hdr n f p AND - 2 = hdr n False p" "hdr n f p AND - 3 = hdr n f False"
  using hdr_andnot [of 1 True False n f p] hdr_andnot [of 2 False True n f p]
  by (simp_all add: bit_123 del: bit_numeral_word_iff)

lemma hdr_flags [simp]: "hdr n f p AND 1 = 0 \<longleftrightarrow> \<not> f" "hdr n f p AND 2 = 0 \<longleftrightarrow> \<not> p"
proof -
  have "hdr n f p AND 1 = of_bool f"
    by (rule bit_word_eqI) (cases f; auto simp: hdr_bit_simps simp del: bit_numeral_word_iff)
  moreover have "hdr n f p AND 2 = 2 * of_bool p"
    by (rule bit_word_eqI) (cases p; auto simp: hdr_bit_simps simp del: bit_numeral_word_iff)
  ultimately show "hdr n f p AND 1 = 0 \<longleftrightarrow> \<not> f" "hdr n f p AND 2 = 0 \<longleftrightarrow> \<not> p" by simp_all
qed

lemma hdr_resize: "adr m OR (w AND 3) = hdr m (bit w 0) (bit w 1)"
  by (rule bit_word_eqI) (auto simp: hdr_bit_simps simp del: bit_numeral_word_iff)

lemma bit_hdr_01 [simp]: "bit (hdr n f p) 0 = f" "bit (hdr n f p) (Suc 0) = p"
  by (simp_all add: bit_hdr bit_adr)

lemma hdr_grow: "hdr n f p + (adr m + 8) = hdr (n + 1 + m) f p"
  by (simp add: hdr_def adr_def)

section \<open>The block operations on cells\<close>

text \<open>What the operations on headers leave alone: the bitmaps and the heads of the lists.\<close>

definition ctl :: "tlsf \<Rightarrow> u64 \<times> u32 \<times> u32 list \<times> u64 list list" where
  "ctl t = (control t, fl_bitmap t, sl_bitmap t, blocks t)"

lemma ctl_wr [simp]: "ctl (wr a v t) = ctl t"
  by (simp add: ctl_def)

lemma adr_0 [simp]: "adr 0 = 0"
  by (simp add: adr_def)

lemma block_hdr:
  assumes "cells t (k + 1) = hdr n f p" and "k + 3 < 2 ^ 61"
  shows "size_field t (adr k) = hdr n f p" and "block_size t (adr k) = adr n"
    and "block_is_free t (adr k) \<longleftrightarrow> f" and "block_is_prev_free t (adr k) \<longleftrightarrow> p"
proof -
  show s: "size_field t (adr k) = hdr n f p"
    using assms by (simp add: adr_off rd_cell)
  show "block_size t (adr k) = adr n" "block_is_free t (adr k) \<longleftrightarrow> f" "block_is_prev_free t (adr k) \<longleftrightarrow> p"
    by (simp_all add: block_size_def block_is_free_def block_is_prev_free_def s)
qed

lemma cells_set:
  assumes "cells t (k + 1) = hdr n f p" and "k + 3 < 2 ^ 61"
  shows "cells (block_set_free (adr k) t) = (cells t)(k + 1 := hdr n True p)"
    and "cells (block_set_used (adr k) t) = (cells t)(k + 1 := hdr n False p)"
    and "cells (block_set_prev_free (adr k) t) = (cells t)(k + 1 := hdr n f True)"
    and "cells (block_set_prev_used (adr k) t) = (cells t)(k + 1 := hdr n f False)"
  using assms
  by (simp_all add: block_set_free_def block_set_used_def block_set_prev_free_def block_set_prev_used_def
      block_hdr(1) adr_off cells_wr rd_cell)

lemma ctl_set [simp]:
  "ctl (block_set_free b t) = ctl t" "ctl (block_set_used b t) = ctl t"
  "ctl (block_set_prev_free b t) = ctl t" "ctl (block_set_prev_used b t) = ctl t"
  "ctl (block_set_size b s t) = ctl t"
  by (simp_all add: block_set_free_def block_set_used_def block_set_prev_free_def block_set_prev_used_def
      block_set_size_def Let_def)

lemma cells_set_size:
  assumes "k + 3 < 2 ^ 61"
  shows "cells (block_set_size (adr k) (adr m) t) =
    (cells t)(k + 1 := hdr m (bit (cells t (k + 1)) 0) (bit (cells t (k + 1)) 1))"
  using assms by (simp add: block_set_size_def Let_def adr_off cells_wr rd_cell hdr_resize)

lemma block_next_cell:
  assumes "cells t (k + 1) = hdr n f p" and "0 < n" and "k + n + 3 < 2 ^ 61"
  shows "block_next t (adr k) = Ret (adr (k + 1 + n))"
proof -
  have "adr n \<noteq> 0" using assms by (simp add: adr_eq_0)
  moreover have "adr k + 16 + (adr n - 8) = adr (k + 1 + n)" by (simp add: adr_def)
  ultimately show ?thesis
    using assms
    by (simp add: block_next_def block_is_last_def block_hdr(2) offset_to_block_def block_to_ptr_def)
qed

lemma block_link_next_cell:
  assumes "cells t (k + 1) = hdr n f p" and "0 < n" and "k + n + 3 < 2 ^ 61"
  shows "\<exists>t'. block_link_next (adr k) t = Ret (adr (k + 1 + n), t') \<and> ctl t' = ctl t \<and>
    cells t' = (cells t)(k + 1 + n := adr k)"
proof -
  have "k + 1 + n < 2 ^ 61" using assms(3) by linarith
  then show ?thesis
    by (simp only: block_link_next_def block_next_cell [OF assms] exec_bind.simps) (simp add: cells_wr)
qed

lemma block_mark_as_free_cell:
  assumes h: "cells t (k + 1) = hdr n f p" and n: "0 < n" and bd: "k + n + 5 < 2 ^ 61"
    and h': "cells t (k + 1 + n + 1) = hdr m g q"
  shows "\<exists>t'. block_mark_as_free (adr k) t = Ret t' \<and> ctl t' = ctl t \<and>
    cells t' = (cells t)(k + 1 + n := adr k, k + 1 + n + 1 := hdr m g True, k + 1 := hdr n True p)"
proof -
  obtain t1 where t1: "block_link_next (adr k) t = Ret (adr (k + 1 + n), t1)" "ctl t1 = ctl t"
    and c1: "cells t1 = (cells t)(k + 1 + n := adr k)"
    using block_link_next_cell [OF h n] bd by auto
  define t2 where "t2 = block_set_prev_free (adr (k + 1 + n)) t1"
  have c2: "cells t2 = (cells t1)(k + 1 + n + 1 := hdr m g True)"
    unfolding t2_def using bd h' by (intro cells_set(3)) (simp_all add: c1)
  have "cells (block_set_free (adr k) t2) = (cells t2)(k + 1 := hdr n True p)"
    using bd h n by (intro cells_set(1)) (simp_all add: c1 c2)
  moreover have "block_mark_as_free (adr k) t = Ret (block_set_free (adr k) t2)"
    by (simp add: block_mark_as_free_def t1 t2_def)
  moreover have "ctl (block_set_free (adr k) t2) = ctl t" using t1 by (simp add: t2_def)
  ultimately show ?thesis by (simp add: c1 c2)
qed

lemma block_mark_as_used_cell:
  assumes h: "cells t (k + 1) = hdr n f p" and n: "0 < n" and bd: "k + n + 5 < 2 ^ 61"
    and h': "cells t (k + 1 + n + 1) = hdr m g q"
  shows "\<exists>t'. block_mark_as_used (adr k) t = Ret t' \<and> ctl t' = ctl t \<and>
    cells t' = (cells t)(k + 1 + n + 1 := hdr m g False, k + 1 := hdr n False p)"
proof -
  have nx: "block_next t (adr k) = Ret (adr (k + 1 + n))" using block_next_cell [OF h n] bd by simp
  define t2 where "t2 = block_set_prev_used (adr (k + 1 + n)) t"
  have c2: "cells t2 = (cells t)(k + 1 + n + 1 := hdr m g False)"
    unfolding t2_def using bd h' by (intro cells_set(4)) simp_all
  have "cells (block_set_used (adr k) t2) = (cells t2)(k + 1 := hdr n False p)"
    using bd h n by (intro cells_set(2)) (simp_all add: c2)
  moreover have "block_mark_as_used (adr k) t = Ret (block_set_used (adr k) t2)"
    by (simp add: block_mark_as_used_def nx t2_def)
  moreover have "ctl (block_set_used (adr k) t2) = ctl t" by (simp add: t2_def)
  ultimately show ?thesis by (simp add: c2)
qed

lemma align_adr [simp]: "align_ptr (adr k) 8 = Ret (adr k)"
proof -
  have "(adr k + 7) AND NOT 7 = (adr k OR 7) AND NOT 7"
  proof -
    have "adr k + 7 = adr k OR 7"
    proof (rule disjunctive_add)
      fix i :: nat
      have "bit (7 :: u64) i \<Longrightarrow> i < 3"
      proof -
        have "(7 :: u64) = mask 3" by (simp add: mask_eq_exp_minus_1)
        then show "bit (7 :: u64) i \<Longrightarrow> i < 3" by (simp only: bit_mask_iff)
      qed
      then show "\<not> bit (adr k) i \<or> \<not> bit (7 :: u64) i" by (auto simp: bit_adr)
    qed
    then show ?thesis by simp
  qed
  also have "\<dots> = adr k"
  proof (rule bit_word_eqI)
    fix i :: nat
    have "(7 :: u64) = mask 3" by (simp add: mask_eq_exp_minus_1)
    then have "bit (7 :: u64) i \<longleftrightarrow> i < 3 \<and> i < 64" by (simp only: bit_mask_iff) auto
    then show "bit ((adr k OR 7) AND NOT 7) i = bit (adr k) i"
      unfolding bit_and_iff bit_or_iff bit_not_iff bit_adr by auto
  qed
  finally show ?thesis by (simp add: align_ptr_def)
qed

lemma block_split_cell:
  assumes h: "cells t (k + 1) = hdr n f p" and w: "1 \<le> w" "w + 4 \<le> n" and n: "n < 2 ^ 60" and bd: "k + n + 5 < 2 ^ 61"
    and h': "cells t (k + 1 + n + 1) = hdr m g q"
  shows "\<exists>t'. block_split (adr k) (adr w) t = Ret (adr (k + 1 + w), t') \<and> ctl t' = ctl t \<and>
    (\<exists>j. cells t' = (cells t)(k + 1 + w + 1 := hdr (n - w - 1) True j, k + 1 := hdr w f p,
      k + 1 + n := adr (k + 1 + w), k + 1 + n + 1 := hdr m g True))"
proof -
  let ?r = "k + 1 + w" and ?s = "n - w - 1"
  have r: "adr k + 16 + (adr w - 8) = adr ?r" by (simp add: adr_def)
  have rs: "adr n - (adr w + 8) = adr ?s" using w by (simp add: adr_def of_nat_diff)
  define t1 where "t1 = block_set_size (adr ?r) (adr ?s) t"
  define F J where "F = bit (cells t (?r + 1)) 0" and "J = bit (cells t (?r + 1)) 1"
  have c1: "cells t1 = (cells t)(?r + 1 := hdr ?s F J)"
    unfolding t1_def F_def J_def using bd w by (intro cells_set_size) simp
  define t2 where "t2 = block_set_size (adr k) (adr w) t1"
  have c2: "cells t2 = (cells t1)(k + 1 := hdr w f p)"
    unfolding t2_def using bd h w by (subst cells_set_size) (simp_all add: c1)
  have "cells t2 (?r + 1) = hdr ?s F J" "cells t2 (?r + 1 + ?s + 1) = hdr m g q"
    using w h' by (simp_all add: c1 c2)
  then obtain t3 where t3: "block_mark_as_free (adr ?r) t2 = Ret t3" "ctl t3 = ctl t2"
    "cells t3 = (cells t2)(?r + 1 + ?s := adr ?r, ?r + 1 + ?s + 1 := hdr m g True, ?r + 1 := hdr ?s True J)"
    using block_mark_as_free_cell [of t2 ?r ?s F J m g q] w bd by auto
  have ms: "\<not> block_size t1 (adr ?r) < 24"
  proof -
    have "block_size t1 (adr ?r) = adr ?s" using bd w by (intro block_hdr(2)) (simp_all add: c1)
    then show ?thesis using w n by (simp add: word_less_nat_alt unat_adr)
  qed
  have bs: "block_size t (adr k) = adr n" using h bd by (intro block_hdr(2)) simp_all
  have e: "adr n = adr ?s + adr w + 8" using w by (simp add: adr_def of_nat_diff)
  have a: "align_ptr (adr ?r + 16) 8 = Ret (adr ?r + 16)" using align_adr [of "?r + 2"] by (simp only: adr_off)
  have "block_split (adr k) (adr w) t = Ret (adr ?r, t3)"
    unfolding block_split_def offset_to_block_def block_to_ptr_def r bs rs Let_def a exec_bind.simps
      t1_def [symmetric] t2_def [symmetric] t3(1)
    using e ms by simp
  moreover have "ctl t3 = ctl t" using t3(2) by (simp add: t1_def t2_def)
  moreover have "cells t3 = (cells t)(k + 1 + w + 1 := hdr ?s True J, k + 1 := hdr w f p,
      k + 1 + n := adr ?r, k + 1 + n + 1 := hdr m g True)"
    unfolding t3(3) c2 c1 using w by (auto simp: fun_eq_iff)
  ultimately show ?thesis by blast
qed

lemma block_absorb_cell:
  assumes h: "cells t (k + 1) = hdr n f p" and n: "0 < n" and h': "cells t (j + 1) = hdr m g q"
    and bd: "k + n + m + 5 < 2 ^ 61" "j + 3 < 2 ^ 61"
  shows "\<exists>t'. block_absorb (adr k) (adr j) t = Ret (adr k, t') \<and> ctl t' = ctl t \<and>
    cells t' = (cells t)(k + 1 := hdr (n + 1 + m) f p, k + 1 + (n + 1 + m) := adr k)"
proof -
  have l: "\<not> block_is_last t (adr k)"
    using h n bd by (simp add: block_is_last_def block_hdr(2) adr_eq_0)
  define t1 where "t1 = wr (adr k + 8) (size_field t (adr k) + (block_size t (adr j) + 8)) t"
  have c1: "cells t1 = (cells t)(k + 1 := hdr (n + 1 + m) f p)"
    unfolding t1_def block_hdr(1) [OF h] using h h' bd
    by (simp add: block_hdr(1) [OF h] block_hdr(2) [OF h'] hdr_grow) (simp add: adr_off cells_wr)
  have "cells t1 (k + 1) = hdr (n + 1 + m) f p" by (simp add: c1)
  then obtain t2 where "block_link_next (adr k) t1 = Ret (adr (k + 1 + (n + 1 + m)), t2)" "ctl t2 = ctl t1"
    "cells t2 = (cells t1)(k + 1 + (n + 1 + m) := adr k)"
    using block_link_next_cell [of t1 k "n + 1 + m" f p] bd by auto
  then show ?thesis
    using l by (simp add: block_absorb_def Let_def t1_def [symmetric] c1) (simp add: t1_def)
qed

section \<open>Searching bits\<close>

lemma find_up: "find P [0..<n] = Some i \<longleftrightarrow> i < n \<and> P i \<and> (\<forall>j < i. \<not> P j)"
  by (auto simp: find_Some_iff)

lemma find_down: "find P (rev [0..<n]) = Some i \<longleftrightarrow> i < n \<and> P i \<and> (\<forall>j. i < j \<and> j < n \<longrightarrow> \<not> P j)"
  by (induction n) (auto simp: less_Suc_eq)

lemma bit_word_exists: "(w :: 'a::len word) \<noteq> 0 \<Longrightarrow> \<exists>i < LENGTH('a). bit w i"
  by (metis bit_0_eq bit_imp_le_length bit_word_eqI bot_apply bot_bool_def)

lemma tlsf_ffs_spec:
  assumes "w \<noteq> 0"
  obtains i where "tlsf_ffs w = int i" "i < 32" "bit w i" "\<And>j. j < i \<Longrightarrow> \<not> bit w j"
proof -
  obtain j where "j < 32" "bit w j" using bit_word_exists [OF assms] by auto
  then have "find (bit w) [0..<32] \<noteq> None" by (auto simp: find_None_iff)
  then obtain i where i: "find (bit w) [0..<32] = Some i" by blast
  with that [of i] show thesis by (auto simp: tlsf_ffs_def find_up)
qed

lemma bit_imp_exp_le: "bit (s :: nat) e \<Longrightarrow> 2 ^ e \<le> s"
  by (metis bit_take_bit_iff less_irrefl not_le_imp_less take_bit_nat_eq_self)

lemma less_exp_if_bits:
  fixes w :: "'a::len word"
  assumes "\<And>j. e < j \<Longrightarrow> \<not> bit w j"
  shows "unat w < 2 ^ Suc e"
proof -
  have "take_bit (Suc e) w = w"
    by (rule bit_word_eqI) (use assms in \<open>auto simp: bit_take_bit_iff less_Suc_eq_le not_less [symmetric]\<close>)
  then have "unat w = take_bit (Suc e) (unat w)" by (metis unsigned_take_bit_eq)
  also have "\<dots> < 2 ^ Suc e" by (rule take_bit_nat_less_exp)
  finally show ?thesis .
qed

lemma tlsf_fls_spec:
  assumes "w \<noteq> 0"
  obtains e where "tlsf_fls w = int e" "2 ^ e \<le> unat w" "unat w < 2 ^ Suc e" "e < 32"
proof -
  obtain j where "j < 32" "bit w j" using bit_word_exists [OF assms] by auto
  then have "find (bit w) (rev [0..<32]) \<noteq> None" by (auto simp: find_None_iff)
  then obtain e where e: "find (bit w) (rev [0..<32]) = Some e" by blast
  then have b: "e < 32" "bit w e" "\<forall>j. e < j \<and> j < 32 \<longrightarrow> \<not> bit w j" unfolding find_down by auto
  have "\<not> bit w j" if "e < j" for j
    using b(3) bit_imp_le_length [of w j] that by auto
  then have "unat w < 2 ^ Suc e" by (rule less_exp_if_bits)
  moreover have "2 ^ e \<le> unat w" using b(2) by (intro bit_imp_exp_le) (simp add: bit_unsigned_iff)
  ultimately show thesis using that [of e] e b(1) by (simp add: tlsf_fls_def)
qed

lemma unat_high: "unat (ucast (drop_bit 32 (sz :: u64)) :: u32) = unat sz div 2 ^ 32"
proof -
  have d: "unat (drop_bit 32 sz) = unat sz div 2 ^ 32" by (simp only: unat_drop_bit_eq) (simp add: drop_bit_eq_div)
  have "unat sz < 2 ^ LENGTH(64)" by (rule unsigned_less)
  then have "unat sz div 2 ^ 32 < 2 ^ 32" by (simp add: div_less_iff_less_mult)
  then show ?thesis by (simp only: unsigned_ucast_eq d) (simp add: take_bit_nat_eq_self)
qed

lemma tlsf_fls_sizet_spec:
  assumes "sz \<noteq> 0"
  obtains e where "tlsf_fls_sizet sz = int e" "2 ^ e \<le> unat sz" "unat sz < 2 ^ Suc e" "e < 64"
proof (cases "(ucast (drop_bit 32 sz) :: u32) = 0")
  case False
  then obtain e where e: "tlsf_fls (ucast (drop_bit 32 sz) :: u32) = int e"
    "2 ^ e \<le> unat (ucast (drop_bit 32 sz) :: u32)" "unat (ucast (drop_bit 32 sz) :: u32) < 2 ^ Suc e" "e < 32"
    by (rule tlsf_fls_spec)
  have "2 ^ e * 2 ^ 32 \<le> unat sz" using e(2) unfolding unat_high by (simp add: less_eq_div_iff_mult_less_eq)
  moreover have "unat sz < 2 ^ Suc e * 2 ^ 32" using e(3) unfolding unat_high by (simp add: div_less_iff_less_mult)
  ultimately show thesis
    using that [of "32 + e"] e False by (simp add: tlsf_fls_sizet_def power_add mult.commute)
next
  case True
  have "unat sz < 2 ^ 32"
    using arg_cong [OF True, of unat] unfolding unat_high by (simp add: div_eq_0_iff)
  then have u: "unat (ucast sz :: u32) = unat sz" by (simp add: unsigned_ucast_eq take_bit_nat_eq_self)
  have "(ucast sz :: u32) \<noteq> 0"
  proof
    assume "(ucast sz :: u32) = 0"
    then have "unat sz = 0" using u by simp
    with assms show False by (simp add: unat_eq_0)
  qed
  then obtain e where "tlsf_fls (ucast sz :: u32) = int e"
    "2 ^ e \<le> unat (ucast sz :: u32)" "unat (ucast sz :: u32) < 2 ^ Suc e" "e < 32"
    by (rule tlsf_fls_spec)
  then show thesis using that [of e] True u by (simp add: tlsf_fls_sizet_def)
qed

section \<open>Size classes\<close>

text \<open>
  The classes are numbered \<open>32 * fl + sl\<close>; \<open>class_lo\<close> is the least size of a class.  A size belongs to the
  last class whose least size does not exceed it.
\<close>

definition class_lo :: "nat \<Rightarrow> nat" where
  "class_lo c = (let fl = c div 32; sl = c mod 32 in if fl = 0 then 8 * sl else (32 + sl) * 2 ^ (fl + 2))"

lemma class_lo_at: "sl < 32 \<Longrightarrow> class_lo (32 * fl + sl) = (if fl = 0 then 8 * sl else (32 + sl) * 2 ^ (fl + 2))"
  by (simp add: class_lo_def)

lemma class_lo_Suc: "class_lo c < class_lo (Suc c)"
proof (cases "c mod 32 = 31")
  case True
  then have d: "Suc c div 32 = Suc (c div 32)" "Suc c mod 32 = 0" by (simp_all add: div_Suc mod_Suc)
  show ?thesis
  proof (cases "c div 32 = 0")
    case False
    then show ?thesis by (simp add: class_lo_def Let_def d True)
  qed (simp add: class_lo_def Let_def d True)
next
  case False
  then have d: "Suc c div 32 = c div 32" "Suc c mod 32 = Suc (c mod 32)" by (simp_all add: div_Suc mod_Suc)
  then show ?thesis by (simp add: class_lo_def Let_def d)
qed

lemma class_lo_mono: "strict_mono class_lo"
  by (simp add: strict_mono_Suc_iff class_lo_Suc)

lemma class_unique:
  assumes "class_lo c \<le> s" "s < class_lo (Suc c)" "class_lo d \<le> s" "s < class_lo (Suc d)"
  shows "c = d"
proof -
  have "class_lo c < class_lo (Suc d)" "class_lo d < class_lo (Suc c)" using assms by linarith+
  then have "c < Suc d" "d < Suc c" by (simp_all add: strict_mono_less [OF class_lo_mono])
  then show ?thesis by simp
qed

lemma mapping_insert_class:
  assumes "mapping_insert sz = (fl, sl)"
  shows "sl < 32" and "class_lo (32 * fl + sl) \<le> unat sz" and "unat sz < class_lo (Suc (32 * fl + sl))"
    and "256 \<le> unat sz \<Longrightarrow> class_lo (Suc (32 * fl + sl)) = class_lo (32 * fl + sl) + 2 ^ (nat (tlsf_fls_sizet sz) - 5)"
proof -
  have "sl < 32 \<and> class_lo (32 * fl + sl) \<le> unat sz \<and> unat sz < class_lo (Suc (32 * fl + sl)) \<and>
    (256 \<le> unat sz \<longrightarrow> class_lo (Suc (32 * fl + sl)) = class_lo (32 * fl + sl) + 2 ^ (nat (tlsf_fls_sizet sz) - 5))"
  proof (cases "sz < 256")
    case True
    then have s: "unat sz < 256" by (simp add: word_less_nat_alt)
    then have "unat (ucast sz :: u32) = unat sz" by (simp add: unsigned_ucast_eq take_bit_nat_eq_self)
    then have "fl = 0" "sl = unat sz div 8"
      using True assms by (auto simp: mapping_insert_def unat_div)
    moreover have "class_lo c = 8 * c" if "c \<le> 32" for c
      using that by (cases "c = 32") (auto simp: class_lo_def)
    ultimately show ?thesis using s by simp presburger
  next
    case False
    then have s: "256 \<le> unat sz" and nz: "sz \<noteq> 0" by (auto simp: word_less_nat_alt)
    obtain e where e: "tlsf_fls_sizet sz = int e" "2 ^ e \<le> unat sz" "unat sz < 2 ^ Suc e" "e < 64"
      using tlsf_fls_sizet_spec [OF nz] by blast
    have "8 \<le> e"
    proof (rule ccontr)
      assume "\<not> 8 \<le> e"
      then have "2 ^ Suc e \<le> (2 :: nat) ^ 8" by (intro power_increasing) auto
      with e(3) s show False by simp
    qed
    then obtain d where d: "e = d + 8" using le_Suc_ex by (metis add.commute)
    define q where "q = unat sz div 2 ^ (d + 3)"
    have q: "32 \<le> q" "q < 64"
      using e(2,3) unfolding q_def d by (simp_all add: less_eq_div_iff_mult_less_eq div_less_iff_less_mult power_add)
    have dq: "unat (drop_bit (d + 3) sz) = q" by (simp only: unat_drop_bit_eq q_def) (simp add: drop_bit_eq_div)
    have dr: "unat (ucast (drop_bit (d + 3) sz) :: u32) = q"
      using q by (simp only: unsigned_ucast_eq dq) (simp add: take_bit_nat_eq_self)
    have "unat ((ucast (drop_bit (d + 3) sz) :: u32) XOR 32) = q - 32"
    proof -
      have "unat ((ucast (drop_bit (d + 3) sz) :: u32) XOR 32) = q XOR 32"
        by (simp only: unsigned_xor_eq dr) simp
      also have "q XOR 32 = q - 32"
      proof -
        have "\<forall>q \<in> {32..<64}. (q :: nat) XOR 32 = q - 32" by code_simp
        with q show ?thesis by simp
      qed
      finally show ?thesis .
    qed
    then have i: "fl = d + 1" "sl = q - 32"
      using False assms by (auto simp: mapping_insert_def e(1) d push_bit_eq_mult nat_add_distrib algebra_simps)
    have lo: "class_lo (32 * fl + sl) = q * 2 ^ (d + 3)"
      using class_lo_at [of sl fl] q i by (simp add: power_add)
    have up: "class_lo (Suc (32 * fl + sl)) = Suc q * 2 ^ (d + 3)"
    proof (cases "q = 63")
      case True
      then have "Suc (32 * fl + sl) = 32 * (d + 2) + 0" using i by simp
      then show ?thesis using True class_lo_at [of 0 "d + 2"] by (simp add: power_add)
    next
      case False
      then have "Suc (32 * fl + sl) = 32 * (d + 1) + (q - 31)" "q - 31 < 32" using i q by simp_all
      then show ?thesis using q class_lo_at [of "q - 31" "d + 1"] by (simp add: power_add)
    qed
    show ?thesis
      unfolding lo up using i q by (auto simp: q_def dividend_less_div_times e(1) d)
  qed
  then show "sl < 32" "class_lo (32 * fl + sl) \<le> unat sz" "unat sz < class_lo (Suc (32 * fl + sl))"
    "256 \<le> unat sz \<Longrightarrow> class_lo (Suc (32 * fl + sl)) = class_lo (32 * fl + sl) + 2 ^ (nat (tlsf_fls_sizet sz) - 5)"
    by blast+
qed

lemma class_lo_le: "class_lo c \<le> class_lo d \<longleftrightarrow> c \<le> d"
  by (rule strict_mono_less_eq [OF class_lo_mono])

lemma class_lo_less: "class_lo c < class_lo d \<longleftrightarrow> c < d"
  by (rule strict_mono_less [OF class_lo_mono])

definition class_of :: "nat \<Rightarrow> nat \<times> nat" where
  "class_of n = mapping_insert (adr n)"

lemma class_of_range:
  assumes "n < 2 ^ 29"
  shows "in_range (fst (class_of n)) (snd (class_of n))"
proof -
  obtain fl sl where c: "mapping_insert (adr n) = (fl, sl)" by (cases "mapping_insert (adr n)")
  have "class_lo (32 * fl + sl) \<le> 8 * n"
    using mapping_insert_class(2) [OF c] assms by (simp add: unat_adr)
  also have "\<dots> < class_lo (32 * 25 + 0)"
    using assms class_lo_at [of 0 25] by simp
  finally have "32 * fl + sl < 800" by (simp only: class_lo_less)
  then show ?thesis using mapping_insert_class(1) [OF c] by (simp add: class_of_def c in_range_def)
qed

lemma mapping_search_class:
  assumes m: "mapping_search (adr w) = (fl, sl)" and w: "w < 2 ^ 29"
  shows "sl < 32" and "8 * w \<le> class_lo (32 * fl + sl)" and "class_lo (32 * fl + sl) \<le> 8 * w + w div 4"
proof -
  have u: "unat (adr w) = 8 * w" using w by (simp add: unat_adr)
  have "sl < 32 \<and> 8 * w \<le> class_lo (32 * fl + sl) \<and> class_lo (32 * fl + sl) \<le> 8 * w + w div 4"
  proof (cases "adr w < 256")
    case True
    then have s: "w < 32" by (simp add: word_less_nat_alt u)
    have "\<not> 256 \<le> adr w" using True by simp
    then have c: "mapping_insert (adr w) = (fl, sl)" using m by (simp add: mapping_search_def)
    have f: "fl = 0"
    proof -
      have "class_lo (32 * fl + sl) < class_lo (32 * 1 + 0)"
        using mapping_insert_class(2) [OF c] s class_lo_at [of 0 1] by (simp add: u)
      then have "32 * fl + sl < 32 * 1 + 0" by (simp only: class_lo_less)
      then show ?thesis by simp
    qed
    have lo: "class_lo sl = 8 * sl" using class_lo_at [of sl 0] mapping_insert_class(1) [OF c] by simp
    have "8 * w < class_lo (Suc sl)" using mapping_insert_class(3) [OF c] f by (simp add: u)
    also have "\<dots> = 8 * Suc sl"
      using class_lo_at [of "Suc sl" 0] class_lo_at [of 0 1] mapping_insert_class(1) [OF c]
      by (cases "sl = 31") simp_all
    finally have "w \<le> sl" by simp
    moreover have "sl \<le> w" using mapping_insert_class(2) [OF c] f lo by (simp add: u)
    ultimately show ?thesis using mapping_insert_class(1) [OF c] f lo by simp
  next
    case False
    then have s: "256 \<le> 8 * w" by (simp add: word_less_nat_alt u)
    then have nz: "adr w \<noteq> 0" using w by (simp add: adr_eq_0)
    obtain e where e: "tlsf_fls_sizet (adr w) = int e" "2 ^ e \<le> 8 * w" "8 * w < 2 ^ Suc e" "e < 64"
      using tlsf_fls_sizet_spec [OF nz] unfolding u by blast
    have "8 \<le> e"
    proof (rule ccontr)
      assume "\<not> 8 \<le> e"
      then have "2 ^ Suc e \<le> (2 :: nat) ^ 8" by (intro power_increasing) auto
      with e(3) s show False by simp
    qed
    have e32: "e < 32"
    proof (rule ccontr)
      assume "\<not> e < 32"
      then have "(2 :: nat) ^ 32 \<le> 2 ^ e" by (intro power_increasing) auto
      with e(2) w show False by simp
    qed
    define r :: nat where "r = 2 ^ (e - 5)"
    have r: "32 * r = 2 ^ e"
    proof -
      have "(2 :: nat) ^ e = 2 ^ (5 + (e - 5))" using \<open>8 \<le> e\<close> by simp
      then show ?thesis unfolding r_def power_add by simp
    qed
    then have rb: "32 * r \<le> 8 * w" "0 < r" using e(2) by (simp_all add: r_def)
    have rw: "unat (push_bit (e - 5) 1 :: u64) = r"
      using e32 unat_pow2 [of "e - 5", where 'a = 64] by (simp add: push_bit_eq_mult r_def)
    have "unat (push_bit (e - 5) 1 - 1 :: u64) = r - 1"
      using rw rb by (simp add: unat_sub word_le_nat_alt)
    then have "unat (adr w + (push_bit (e - 5) 1 - 1)) = 8 * w + (r - 1)"
      using rb w by (subst unat_add_lem [THEN iffD1]) (simp_all add: u)
    moreover have c: "mapping_insert (adr w + (push_bit (e - 5) 1 - 1)) = (fl, sl)"
      using m False e \<open>8 \<le> e\<close> by (simp add: mapping_search_def not_less nat_diff_distrib)
    ultimately have b: "class_lo (32 * fl + sl) \<le> 8 * w + (r - 1)" "8 * w + (r - 1) < class_lo (Suc (32 * fl + sl))"
      using mapping_insert_class(2,3) [OF c] by simp_all
    obtain fl0 sl0 where c0: "mapping_insert (adr w) = (fl0, sl0)" by (cases "mapping_insert (adr w)")
    have b0: "class_lo (32 * fl0 + sl0) \<le> 8 * w" "8 * w < class_lo (Suc (32 * fl0 + sl0))"
      "class_lo (Suc (32 * fl0 + sl0)) = class_lo (32 * fl0 + sl0) + r"
      using mapping_insert_class(2,3,4) [OF c0] s by (simp_all add: u e r_def)
    have "8 * w \<le> class_lo (32 * fl + sl)"
    proof (rule ccontr)
      assume a: "\<not> 8 * w \<le> class_lo (32 * fl + sl)"
      then have "class_lo (32 * fl + sl) < class_lo (Suc (32 * fl0 + sl0))" using b0(2) by linarith
      moreover have "class_lo (32 * fl0 + sl0) < class_lo (Suc (32 * fl + sl))" using b0(1) b(2) by linarith
      ultimately have "32 * fl + sl = 32 * fl0 + sl0" unfolding class_lo_less by linarith
      then show False using a b b0(3) rb by simp
    qed
    moreover have "r - 1 \<le> w div 4" using rb by linarith
    ultimately show ?thesis using b(1) mapping_insert_class(1) [OF c] by linarith
  qed
  then show "sl < 32" "8 * w \<le> class_lo (32 * fl + sl)" "class_lo (32 * fl + sl) \<le> 8 * w + w div 4" by blast+
qed

end
