(* ===== verification/Vm_Tlsf_Lists.thy ===== *)
theory Vm_Tlsf_Lists
  imports Vm_Tlsf_Cells
begin

text \<open>
  The free lists.  \<open>free_lists z t F\<close> says that the lists and bitmaps of \<open>t\<close>, whose null block is block \<open>z\<close>, hold
  exactly the blocks of \<open>F\<close> (block number and size in cells), each in the list of its class.
\<close>

section \<open>Doubly linked lists\<close>

text \<open>The blocks \<open>bs\<close> linked in both directions, with \<open>p\<close> before the first and \<open>q\<close> after the last.\<close>

fun dls :: "(nat \<Rightarrow> u64) \<Rightarrow> nat \<Rightarrow> nat list \<Rightarrow> nat \<Rightarrow> bool" where
  "dls c p [] q = True"
| "dls c p (b # bs) q = (c (b + 3) = adr p \<and> c (b + 2) = adr (hd (bs @ [q])) \<and> dls c b bs q)"

lemma dls_append:
  "dls c p (xs @ ys) q \<longleftrightarrow> dls c p xs (hd (ys @ [q])) \<and> dls c (last (p # xs)) ys q"
proof (induction xs arbitrary: p)
  case (Cons x xs)
  have "hd ((xs @ ys) @ [q]) = hd (xs @ [hd (ys @ [q])])" by (cases xs) simp_all
  then show ?case using Cons [of x] by simp
qed simp

lemma dls_cong:
  "(\<And>b. b \<in> set bs \<Longrightarrow> c' (b + 2) = c (b + 2) \<and> c' (b + 3) = c (b + 3)) \<Longrightarrow> dls c' p bs q = dls c p bs q"
  by (induction bs arbitrary: p) auto

text \<open>The cells that hold the links of a set of blocks; blocks are \<open>sep\<close>arate when their links do not overlap.\<close>

definition link_cells :: "nat set \<Rightarrow> nat set" where
  "link_cells S = (\<Union>k \<in> S. {k + 2, k + 3})"

definition sep :: "nat set \<Rightarrow> bool" where
  "sep S \<longleftrightarrow> (\<forall>a \<in> S. \<forall>b \<in> S. a \<noteq> b \<longrightarrow> a + 2 \<le> b \<or> b + 2 \<le> a)"

lemma sep_subset: "sep S \<Longrightarrow> T \<subseteq> S \<Longrightarrow> sep T"
  unfolding sep_def by (meson subsetD)

lemma sepD: "sep S \<Longrightarrow> a \<in> S \<Longrightarrow> b \<in> S \<Longrightarrow> a + 2 = b + 3 \<Longrightarrow> False"
  unfolding sep_def by fastforce

lemma sepD': "sep S \<Longrightarrow> a \<in> S \<Longrightarrow> b \<in> S \<Longrightarrow> Suc a = b \<Longrightarrow> False"
  unfolding sep_def by fastforce

text \<open>Unlinking \<open>k\<close>, and linking \<open>k\<close> in at the front.\<close>

lemma dls_remove:
  assumes d: "dls c z (us @ k # vs) z" and s: "sep (insert z (set (us @ k # vs)))"
    and di: "distinct (us @ k # vs)" and z: "z \<notin> set (us @ k # vs)"
  defines "p \<equiv> last (z # us)" and "n \<equiv> hd (vs @ [z])"
  shows "dls (c(n + 3 := adr p, p + 2 := adr n)) z (us @ vs) z"
proof -
  let ?c = "c(n + 3 := adr p, p + 2 := adr n)"
  have pm: "p \<in> insert z (set us)" and nm: "n \<in> insert z (set vs)"
    unfolding p_def n_def by (cases us; simp) (cases vs; simp)
  have np: "n + 3 \<noteq> x + 2" "p + 2 \<noteq> x + 3" if "x \<in> insert z (set (us @ k # vs))" for x
    using sepD' [OF s _ that, of n] sepD' [OF s that, of p] pm nm by auto
  have us: "dls c z us k" and vs: "dls c k vs z" using d unfolding dls_append by simp_all
  have "dls ?c z us n"
  proof (cases us rule: rev_cases)
    case (snoc xs x)
    have x: "p = x" by (simp add: p_def snoc)
    have "dls c z xs x" "c (x + 3) = adr (last (z # xs))" using us by (simp_all add: snoc dls_append)
    moreover have "dls ?c z xs x = dls c z xs x"
    proof (rule dls_cong)
      fix b assume b: "b \<in> set xs"
      then have "b \<noteq> n" "b \<noteq> p" using nm di z x snoc by auto
      then show "?c (b + 2) = c (b + 2) \<and> ?c (b + 3) = c (b + 3)" using np [of b] b snoc by auto
    qed
    moreover have "x \<noteq> n" using nm di z snoc by auto
    ultimately show ?thesis using np [of x] x snoc by (auto simp: dls_append)
  qed simp
  moreover have "dls ?c p vs z"
  proof (cases vs)
    case (Cons y ys)
    have y: "n = y" by (simp add: n_def Cons)
    have "dls c y ys z" "c (y + 2) = adr (hd (ys @ [z]))" using vs by (simp_all add: Cons)
    moreover have "dls ?c y ys z = dls c y ys z"
    proof (rule dls_cong)
      fix b assume b: "b \<in> set ys"
      then have "b \<noteq> n" "b \<noteq> p" using pm di z y Cons by auto
      then show "?c (b + 2) = c (b + 2) \<and> ?c (b + 3) = c (b + 3)" using np [of b] b Cons by auto
    qed
    moreover have "y \<noteq> p" using pm di z Cons by auto
    ultimately show ?thesis using np [of y] y Cons by auto
  qed simp
  ultimately show ?thesis unfolding dls_append p_def [symmetric] n_def [symmetric] by blast
qed

lemma dls_insert:
  assumes d: "dls c z l z" and s: "sep (insert k (insert z (set l)))" and k: "k \<notin> set l" "k \<noteq> z"
    and z: "z \<notin> set l" and di: "distinct l"
  defines "h \<equiv> hd (l @ [z])"
  shows "dls (c(k + 2 := adr h, k + 3 := adr z, h + 3 := adr k)) z (k # l) z"
proof -
  let ?c = "c(k + 2 := adr h, k + 3 := adr z, h + 3 := adr k)"
  have hm: "h \<in> insert z (set l)" unfolding h_def by (cases l) simp_all
  have ne: "h + 3 \<noteq> x + 2" "k + 3 \<noteq> x + 2" "k + 2 \<noteq> x + 3" if "x \<in> insert k (insert z (set l))" for x
    using sepD' [OF s _ that, of h] sepD' [OF s _ that, of k] sepD' [OF s that, of k] hm by auto
  have hk: "h \<noteq> k" using hm k by auto
  have "?c (k + 3) = adr z" "?c (k + 2) = adr h" using ne [of k] hk by auto
  moreover have "dls ?c k l z"
  proof (cases l)
    case (Cons y ys)
    have y: "h = y" by (simp add: h_def Cons)
    have "dls c y ys z" "c (y + 2) = adr (hd (ys @ [z]))" using d by (simp_all add: Cons)
    moreover have "dls ?c y ys z = dls c y ys z"
    proof (rule dls_cong)
      fix b assume b: "b \<in> set ys"
      then have "b \<noteq> h" "b \<noteq> k" using di k y Cons by auto
      then show "?c (b + 2) = c (b + 2) \<and> ?c (b + 3) = c (b + 3)" using ne [of b] b Cons by auto
    qed
    moreover have "y \<noteq> k" using hk y by simp
    ultimately show ?thesis using ne [of y] y Cons by auto
  qed simp
  ultimately show ?thesis by (simp add: h_def)
qed

section \<open>The free lists of a heap\<close>

definition slot_ok :: "nat \<Rightarrow> tlsf \<Rightarrow> (nat \<times> nat) set \<Rightarrow> nat \<Rightarrow> nat \<Rightarrow> nat list \<Rightarrow> bool" where
  "slot_ok z t F fl sl l \<longleftrightarrow>
     distinct l \<and> set l = {k. \<exists>n. (k, n) \<in> F \<and> class_of n = (fl, sl)} \<and> dls (cells t) z l z \<and>
     blocks t ! fl ! sl = adr (hd (l @ [z])) \<and> (bit (sl_bitmap t ! fl) sl \<longleftrightarrow> l \<noteq> [])"

definition shape_ok :: "tlsf \<Rightarrow> bool" where
  "shape_ok t \<longleftrightarrow> length (sl_bitmap t) = FL_INDEX_COUNT \<and> length (blocks t) = FL_INDEX_COUNT \<and>
     (\<forall>fl < FL_INDEX_COUNT. length (blocks t ! fl) = SL_INDEX_COUNT) \<and>
     (\<forall>fl. bit (fl_bitmap t) fl \<longleftrightarrow> fl < FL_INDEX_COUNT \<and> sl_bitmap t ! fl \<noteq> 0)"

definition blocks_ok :: "nat \<Rightarrow> (nat \<times> nat) set \<Rightarrow> bool" where
  "blocks_ok z F \<longleftrightarrow> inj_on fst F \<and> z \<notin> fst ` F \<and> sep (insert z (fst ` F)) \<and>
     (\<forall>k \<in> insert z (fst ` F). 0 < k \<and> k + 3 < 2 ^ 61) \<and> (\<forall>(k, n) \<in> F. n < 2 ^ 29)"

definition free_lists :: "nat \<Rightarrow> tlsf \<Rightarrow> (nat \<times> nat) set \<Rightarrow> bool" where
  "free_lists z t F \<longleftrightarrow> control t = adr z \<and> shape_ok t \<and> blocks_ok z F \<and>
     (\<forall>fl sl. in_range fl sl \<longrightarrow> (\<exists>l. slot_ok z t F fl sl l))"

lemma free_lists_cong:
  assumes "free_lists z t F" and "ctl t' = ctl t" and "\<And>i. i \<in> link_cells (fst ` F) \<Longrightarrow> cells t' i = cells t i"
  shows "free_lists z t' F"
proof -
  have "slot_ok z t' F fl sl l" if "slot_ok z t F fl sl l" for fl sl l
  proof -
    have "dls (cells t') z l z = dls (cells t) z l z"
    proof (rule dls_cong)
      fix b assume "b \<in> set l"
      then have "b \<in> fst ` F" using that by (force simp: slot_ok_def)
      then show "cells t' (b + 2) = cells t (b + 2) \<and> cells t' (b + 3) = cells t (b + 3)"
        using assms(3) by (auto simp: link_cells_def)
    qed
    then show ?thesis using that assms(2) by (simp add: slot_ok_def ctl_def)
  qed
  moreover have "control t' = control t" "shape_ok t' = shape_ok t"
    using assms(2) by (simp_all add: ctl_def shape_ok_def)
  ultimately show ?thesis using assms(1) unfolding free_lists_def by metis
qed

lemma slot_mem:
  "slot_ok z t F fl sl l \<Longrightarrow> (k, n) \<in> F \<Longrightarrow> class_of n = (fl, sl) \<Longrightarrow> k \<in> set l"
  by (auto simp: slot_ok_def)

lemma slot_sub: "slot_ok z t F fl sl l \<Longrightarrow> set l \<subseteq> fst ` F"
  by (force simp: slot_ok_def)

text \<open>A slot other than the one of \<open>k\<close> does not see \<open>k\<close> come or go.\<close>

lemma slot_other:
  assumes s: "slot_ok z t F fl sl l" and bl: "\<And>k. k \<in> set l \<Longrightarrow> cells t' (k + 2) = cells t (k + 2) \<and> cells t' (k + 3) = cells t (k + 3)"
    and "blocks t' ! fl ! sl = blocks t ! fl ! sl" and "bit (sl_bitmap t' ! fl) sl = bit (sl_bitmap t ! fl) sl"
    and F: "\<And>k n. class_of n = (fl, sl) \<Longrightarrow> (k, n) \<in> F' \<longleftrightarrow> (k, n) \<in> F"
  shows "slot_ok z t' F' fl sl l"
proof -
  have "dls (cells t') z l z = dls (cells t) z l z" by (rule dls_cong) (use bl in blast)
  moreover have "{k. \<exists>n. (k, n) \<in> F' \<and> class_of n = (fl, sl)} = {k. \<exists>n. (k, n) \<in> F \<and> class_of n = (fl, sl)}"
    using F by blast
  ultimately show ?thesis using assms(1,3,4) by (simp add: slot_ok_def)
qed

lemma bit_clear: "bit (w AND NOT (2 ^ n)) i \<longleftrightarrow> bit (w :: 'a::len word) i \<and> i \<noteq> n"
  by (auto simp: bit_and_iff bit_not_iff bit_exp_iff dest: bit_imp_le_length)

lemma bit_set: "n < LENGTH('a) \<Longrightarrow> bit (w OR 2 ^ n) i \<longleftrightarrow> bit (w :: 'a::len word) i \<or> i = n"
  by (auto simp: bit_or_iff bit_exp_iff)

lemma word_nz_bit: "(w :: 'a::len word) \<noteq> 0 \<longleftrightarrow> (\<exists>i. bit w i)"
  using bit_word_exists [of w] by auto

lemma set_head_nth:
  assumes "shape_ok t" and "in_range fl sl" and "in_range fl' sl'"
  shows "blocks (set_head fl sl b t) ! fl' ! sl' = (if fl' = fl \<and> sl' = sl then b else blocks t ! fl' ! sl')"
  using assms by (auto simp: set_head_def shape_ok_def in_range_def nth_list_update)

lemma set_head_shape: "shape_ok t \<Longrightarrow> in_range fl sl \<Longrightarrow> shape_ok (set_head fl sl b t)"
  by (auto simp: set_head_def shape_ok_def in_range_def nth_list_update)

lemma set_head_sel [simp]:
  "control (set_head fl sl b t) = control t" "fl_bitmap (set_head fl sl b t) = fl_bitmap t"
  "sl_bitmap (set_head fl sl b t) = sl_bitmap t" "cells (set_head fl sl b t) = cells t"
  by (simp_all add: set_head_def)

lemma blocks_okD:
  assumes "blocks_ok z F" and "k \<in> insert z (fst ` F)"
  shows "0 < k" and "k + 3 < 2 ^ 61" and "adr k \<noteq> 0"
proof -
  show k: "0 < k" "k + 3 < 2 ^ 61" using assms unfolding blocks_ok_def by blast+
  then show "adr k \<noteq> 0" by (simp add: adr_eq_0)
qed

lemma slot_hd: "slot_ok z t F fl sl l \<Longrightarrow> hd (l @ [z]) \<in> insert z (fst ` F)"
  using slot_sub [of z t F fl sl l] by (cases l) auto

text \<open>Blocks of two lists of different classes are different.\<close>

lemma slot_disjoint:
  assumes "blocks_ok z F" "slot_ok z t F fl sl l" "slot_ok z t F fl' sl' l'" "(fl', sl') \<noteq> (fl, sl)" "k \<in> set l"
  shows "k \<notin> set l'"
proof
  assume "k \<in> set l'"
  then obtain n' where n': "(k, n') \<in> F" "class_of n' = (fl', sl')" using assms(3) by (auto simp: slot_ok_def)
  obtain n where n: "(k, n) \<in> F" "class_of n = (fl, sl)" using assms(2,5) by (auto simp: slot_ok_def)
  have "n = n'" using assms(1) n(1) n'(1) by (auto simp: blocks_ok_def dest: inj_onD [of fst F "(k, n)" "(k, n')"])
  then show False using n n' assms(4) by simp
qed

text \<open>
  A change of one list: the links of its blocks and of the null block, its head and its bit change, and the rest
  of the lists does not notice.
\<close>

lemma free_lists_update:
  assumes L: "free_lists z t F" and l: "slot_ok z t F fl sl l" and l': "slot_ok z t' F' fl sl l'"
    and F': "blocks_ok z F'" and t': "control t' = control t" "shape_ok t'"
    and b: "\<And>fl' sl'. in_range fl' sl' \<Longrightarrow> (fl', sl') \<noteq> (fl, sl) \<Longrightarrow>
      blocks t' ! fl' ! sl' = blocks t ! fl' ! sl' \<and> (bit (sl_bitmap t' ! fl') sl' = bit (sl_bitmap t ! fl') sl')"
    and S: "\<And>i. i \<notin> link_cells S \<Longrightarrow> cells t' i = cells t i" "S \<inter> fst ` F \<subseteq> set l" "sep (S \<union> fst ` F)"
    and F: "\<And>k n. class_of n \<noteq> (fl, sl) \<Longrightarrow> (k, n) \<in> F' \<longleftrightarrow> (k, n) \<in> F"
  shows "free_lists z t' F'"
proof -
  have bo: "blocks_ok z F" using L by (simp add: free_lists_def)
  have "\<exists>l. slot_ok z t' F' fl' sl' l" if r': "in_range fl' sl'" for fl' sl'
  proof (cases "(fl', sl') = (fl, sl)")
    case False
    obtain m where m: "slot_ok z t F fl' sl' m" using L r' unfolding free_lists_def by blast
    have "slot_ok z t' F' fl' sl' m"
    proof (rule slot_other [OF m])
      fix x assume x: "x \<in> set m"
      have xF: "x \<in> fst ` F" using x slot_sub [OF m] by blast
      have xl: "x \<notin> set l" using slot_disjoint [OF bo m l] False x by auto
      have "x + 2 \<notin> link_cells S" "x + 3 \<notin> link_cells S"
        using S(2) xF xl sepD' [OF S(3), of _ x] sepD' [OF S(3), of x] by (auto simp: link_cells_def)
      then show "cells t' (x + 2) = cells t (x + 2) \<and> cells t' (x + 3) = cells t (x + 3)" using S(1) by blast
    qed (use b [OF r'] False F in auto)
    then show ?thesis by blast
  qed (use l' in blast)
  then show ?thesis using L t' F' by (simp add: free_lists_def)
qed

lemma insert_free_block_ok:
  assumes L: "free_lists z t F" and k: "blocks_ok z (insert (k, n) F)" "k \<notin> fst ` F" and c: "class_of n = (fl, sl)"
  shows "\<exists>t'. insert_free_block (adr k) fl sl t = Ret t' \<and> free_lists z t' (insert (k, n) F) \<and>
    (\<forall>i. i \<notin> link_cells (insert z (insert k (fst ` F))) \<longrightarrow> cells t' i = cells t i)"
proof -
  have n: "n < 2 ^ 29" using k by (auto simp: blocks_ok_def)
  have r: "in_range fl sl" using class_of_range [OF n] c by simp
  have bo: "blocks_ok z F" and sh: "shape_ok t" and ct: "control t = adr z" using L by (simp_all add: free_lists_def)
  obtain l where l: "slot_ok z t F fl sl l" using L r unfolding free_lists_def by blast
  define h where "h = hd (l @ [z])"
  have hm: "h \<in> insert z (fst ` F)" using slot_hd [OF l] by (simp add: h_def)
  have hd: "blocks t ! fl ! sl = adr h" using l by (simp add: slot_ok_def h_def)
  have nz: "adr h \<noteq> 0" "adr k \<noteq> 0" and bd: "h + 3 < 2 ^ 61" "k + 3 < 2 ^ 61"
    using blocks_okD [OF bo hm] blocks_okD [OF k(1), of k] by simp_all
  define t1 where "t1 = wr (adr h + 24) (adr k) (wr (adr k + 24) (adr z) (wr (adr k + 16) (adr h) t))"
  define c1 where "c1 = (cells t)(k + 2 := adr h, k + 3 := adr z, h + 3 := adr k)"
  have ce: "cells t1 = c1"
    unfolding t1_def c1_def adr_off using bd by (simp add: cells_wr)
  define t2 where "t2 = set_head fl sl (adr k) t1"
  define t3 where "t3 = t2\<lparr>fl_bitmap := fl_bitmap t2 OR push_bit fl 1,
    sl_bitmap := (sl_bitmap t2)[fl := sl_bitmap t2 ! fl OR push_bit sl 1]\<rparr>"
  have b2: "fl_bitmap t2 = fl_bitmap t" "sl_bitmap t2 = sl_bitmap t" by (simp_all add: t2_def t1_def)
  have "align_ptr (adr k + 16) 8 = Ret (adr k + 16)" using align_adr [of "k + 2"] by (simp only: adr_off)
  then have ex: "insert_free_block (adr k) fl sl t = Ret t3"
    using r nz by (simp add: insert_free_block_def hd ct Let_def block_to_ptr_def t1_def [symmetric]
        t2_def [symmetric] t3_def b2)
  have sh1: "shape_ok t1" using sh by (simp add: shape_ok_def t1_def)
  have bl: "blocks t3 ! fl' ! sl' = (if fl' = fl \<and> sl' = sl then adr k else blocks t ! fl' ! sl')"
    if "in_range fl' sl'" for fl' sl'
    using set_head_nth [OF sh1 r that] by (simp add: t3_def t2_def) (simp add: t1_def)
  have len: "length (sl_bitmap t) = 25" using sh by (simp add: shape_ok_def)
  have sb: "sl_bitmap t3 ! fl' = (if fl' = fl then sl_bitmap t ! fl OR push_bit sl 1 else sl_bitmap t ! fl')"
    if "fl' < 25" for fl'
    using that r len by (simp add: t3_def t2_def t1_def in_range_def nth_list_update)
  have bs: "bit (sl_bitmap t3 ! fl') sl' \<longleftrightarrow> bit (sl_bitmap t ! fl') sl' \<or> (fl' = fl \<and> sl' = sl)"
    if "in_range fl' sl'" for fl' sl'
    using that r by (auto simp: sb in_range_def bit_set)
  have sh3: "shape_ok t3"
  proof -
    have nz: "sl_bitmap t ! fl OR push_bit sl 1 \<noteq> 0"
      unfolding word_nz_bit using r by (auto simp: bit_set in_range_def)
    have "bit (fl_bitmap t3) i \<longleftrightarrow> i < 25 \<and> sl_bitmap t3 ! i \<noteq> 0" for i
    proof -
      have "bit (fl_bitmap t3) i \<longleftrightarrow> bit (fl_bitmap t) i \<or> i = fl"
        using r by (simp add: t3_def b2 in_range_def bit_set)
      also have "bit (fl_bitmap t) i \<longleftrightarrow> i < 25 \<and> sl_bitmap t ! i \<noteq> 0"
        using sh by (simp add: shape_ok_def)
      finally show ?thesis using r nz sb [of i] by (cases "i = fl") (auto simp: in_range_def)
    qed
    moreover have "length (sl_bitmap t3) = 25" using len by (simp add: t3_def t2_def t1_def)
    moreover have "length (blocks t3) = 25 \<and> (\<forall>fl < 25. length (blocks t3 ! fl) = 32)"
      using set_head_shape [OF sh1 r] by (simp add: shape_ok_def t3_def t2_def)
    ultimately show ?thesis by (simp add: shape_ok_def)
  qed
  have sp: "sep (insert k (insert z (fst ` F)))" using k by (simp add: blocks_ok_def insert_commute)
  have kz: "k \<noteq> z" using k by (auto simp: blocks_ok_def)
  have c3: "cells t3 = c1" by (simp add: t3_def t2_def ce)
  have "slot_ok z t3 (insert (k, n) F) fl sl (k # l)"
  proof -
    have "dls c1 z (k # l) z"
      unfolding c1_def h_def
    proof (rule dls_insert)
      show "dls (cells t) z l z" "distinct l" using l by (simp_all add: slot_ok_def)
      show "sep (insert k (insert z (set l)))" by (rule sep_subset [OF sp]) (use slot_sub [OF l] in auto)
      show "k \<notin> set l" using k slot_sub [OF l] by blast
      show "z \<notin> set l" using bo slot_sub [OF l] by (auto simp: blocks_ok_def)
    qed (rule kz)
    moreover have "set (k # l) = {j. \<exists>m. (j, m) \<in> insert (k, n) F \<and> class_of m = (fl, sl)}"
      using l c by (auto simp: slot_ok_def)
    moreover have "distinct (k # l)" using l k slot_sub [OF l] by (auto simp: slot_ok_def)
    ultimately show ?thesis using bl [OF r] bs [OF r] by (simp add: slot_ok_def c3)
  qed
  then have "free_lists z t3 (insert (k, n) F)"
  proof (rule free_lists_update [OF L l _ k(1) _ sh3, where S = "{k, h}"])
    show "control t3 = control t" by (simp add: t3_def t2_def t1_def)
    show "cells t3 i = cells t i" if "i \<notin> link_cells {k, h}" for i
      using that unfolding c3 c1_def by (auto simp: link_cells_def)
    show "{k, h} \<inter> fst ` F \<subseteq> set l" using k bo by (cases l) (auto simp: h_def blocks_ok_def)
    show "sep ({k, h} \<union> fst ` F)" by (rule sep_subset [OF sp]) (use hm in auto)
  qed (use bl bs c in auto)
  moreover have "\<forall>i. i \<notin> link_cells (insert z (insert k (fst ` F))) \<longrightarrow> cells t3 i = cells t i"
    unfolding c3 c1_def using hm by (auto simp: link_cells_def)
  ultimately show ?thesis using ex by blast
qed

lemma remove_free_block_ok:
  assumes L: "free_lists z t F" and k: "(k, n) \<in> F" and c: "class_of n = (fl, sl)"
  shows "\<exists>t'. remove_free_block (adr k) fl sl t = Ret t' \<and> free_lists z t' (F - {(k, n)}) \<and>
    (\<forall>i. i \<notin> link_cells (insert z (fst ` F)) \<longrightarrow> cells t' i = cells t i)"
proof -
  have bo: "blocks_ok z F" and sh: "shape_ok t" and ct: "control t = adr z" using L by (simp_all add: free_lists_def)
  have n: "n < 2 ^ 29" using k bo by (auto simp: blocks_ok_def)
  have r: "in_range fl sl" using class_of_range [OF n] c by simp
  obtain l where l: "slot_ok z t F fl sl l" using L r unfolding free_lists_def by blast
  obtain us vs where uv: "l = us @ k # vs" using slot_mem [OF l k c] by (metis split_list)
  have di: "distinct (us @ k # vs)" and dl: "dls (cells t) z (us @ k # vs) z"
    and hd: "blocks t ! fl ! sl = adr (hd (us @ k # vs @ [z]))"
    using l by (simp_all add: slot_ok_def uv)
  have sb: "set (us @ k # vs) \<subseteq> fst ` F" using slot_sub [OF l] by (simp add: uv)
  have sp: "sep (insert z (fst ` F))" and zF: "z \<notin> fst ` F" using bo by (simp_all add: blocks_ok_def)
  define p where "p = last (z # us)"
  define x where "x = hd (vs @ [z])"
  have pm: "p \<in> insert z (set us)" and xm: "x \<in> insert z (set vs)"
    unfolding p_def x_def by (cases us; simp) (cases vs; simp)
  have pF: "p \<in> insert z (fst ` F)" and xF: "x \<in> insert z (fst ` F)" and kF: "k \<in> insert z (fst ` F)"
    using pm xm sb by auto
  note bd = blocks_okD [OF bo pF] blocks_okD [OF bo xF] blocks_okD [OF bo kF]
  have lk: "prev_free t (adr k) = adr p" "next_free t (adr k) = adr x"
    using dl bd unfolding dls_append adr_off by (simp_all add: rd_cell p_def x_def)
  define t1 where "t1 = wr (adr p + 16) (adr x) (wr (adr x + 24) (adr p) t)"
  define c1 where "c1 = (cells t)(x + 3 := adr p, p + 2 := adr x)"
  have ce: "cells t1 = c1" unfolding t1_def c1_def adr_off using bd by (simp add: cells_wr)
  have kn: "k \<notin> set us" "k \<notin> set vs" "k \<noteq> z" using di sb zF by auto
  have hk: "blocks t ! fl ! sl = adr k \<longleftrightarrow> us = []"
  proof (cases us)
    case (Cons y ys)
    then have "y \<in> insert z (fst ` F)" "y \<noteq> k" using sb kn by auto
    then show ?thesis using hd Cons bd blocks_okD(2) [OF bo, of y] by (simp add: adr_inj)
  qed (simp add: hd)
  have xz: "adr x = control t \<longleftrightarrow> vs = []"
  proof -
    have "x = z \<longleftrightarrow> vs = []" unfolding x_def using sb zF by (cases vs) auto
    then show ?thesis using bd blocks_okD(2) [OF bo, of z] by (simp add: ct adr_inj)
  qed
  define empty where "empty \<longleftrightarrow> us = [] \<and> vs = []"
  define w where "w = sl_bitmap t ! fl AND NOT (push_bit sl 1)"
  define t3 where "t3 = (if us = [] then
      (if vs = [] then
         (let t2 = (set_head fl sl (adr x) t1)\<lparr>sl_bitmap := (sl_bitmap t)[fl := w]\<rparr>
          in if w = 0 then t2\<lparr>fl_bitmap := fl_bitmap t AND NOT (push_bit fl 1)\<rparr> else t2)
       else set_head fl sl (adr x) t1)
    else t1)"
  have len: "length (sl_bitmap t) = 25" using sh by (simp add: shape_ok_def)
  have b1: "fl_bitmap t1 = fl_bitmap t" "sl_bitmap t1 = sl_bitmap t" "blocks t1 = blocks t" "control t1 = control t"
    by (simp_all add: t1_def)
  have ex: "remove_free_block (adr k) fl sl t = Ret t3"
    using bd r len unfolding remove_free_block_def lk Let_def t1_def [symmetric]
    by (simp add: b1 hk xz t3_def w_def in_range_def Let_def)
  have sh1: "shape_ok t1" using sh by (simp add: shape_ok_def b1)
  have bl: "blocks t3 ! fl' ! sl' = (if us = [] \<and> fl' = fl \<and> sl' = sl then adr x else blocks t ! fl' ! sl')"
    if "in_range fl' sl'" for fl' sl'
    using set_head_nth [OF sh1 r that, of "adr x"] by (auto simp: t3_def Let_def b1)
  have sl: "sl_bitmap t3 ! fl' = (if fl' = fl \<and> empty then w else sl_bitmap t ! fl')" if "fl' < 25" for fl'
    using that r len by (simp add: t3_def b1 in_range_def nth_list_update Let_def empty_def)
  have sh3: "shape_ok t3"
  proof -
    have "bit (fl_bitmap t3) i \<longleftrightarrow> i < 25 \<and> sl_bitmap t3 ! i \<noteq> 0" for i
    proof -
      have "bit (fl_bitmap t) i \<longleftrightarrow> i < 25 \<and> sl_bitmap t ! i \<noteq> 0" using sh by (simp add: shape_ok_def)
      moreover have "bit (fl_bitmap t3) i \<longleftrightarrow> bit (fl_bitmap t) i \<and> (empty \<and> w = 0 \<longrightarrow> i \<noteq> fl)"
        by (auto simp: t3_def Let_def b1 bit_clear empty_def)
      moreover have "w \<noteq> 0 \<Longrightarrow> sl_bitmap t ! fl \<noteq> 0" unfolding w_def by auto
      ultimately show ?thesis using sl [of i] by (auto split: if_splits)
    qed
    moreover have "length (sl_bitmap t3) = 25" using len by (simp add: t3_def b1 Let_def)
    moreover have "length (blocks t3) = 25 \<and> (\<forall>fl < 25. length (blocks t3 ! fl) = 32)"
      using set_head_shape [OF sh1 r, of "adr x"] sh1 by (auto simp: shape_ok_def t3_def Let_def)
    ultimately show ?thesis by (simp add: shape_ok_def)
  qed
  have c3: "cells t3 = c1" by (simp add: t3_def Let_def ce)
  have bs: "bit (sl_bitmap t3 ! fl') sl' \<longleftrightarrow> bit (sl_bitmap t ! fl') sl' \<and> \<not> (empty \<and> fl' = fl \<and> sl' = sl)"
    if "in_range fl' sl'" for fl' sl'
    using that r sl [of fl'] by (auto simp: in_range_def w_def bit_clear)
  have "slot_ok z t3 (F - {(k, n)}) fl sl (us @ vs)"
  proof -
    have "dls c1 z (us @ vs) z"
      unfolding c1_def p_def x_def
    proof (rule dls_remove [OF dl _ di])
      show "sep (insert z (set (us @ k # vs)))" by (rule sep_subset [OF sp]) (use sb in auto)
      show "z \<notin> set (us @ k # vs)" using sb zF by blast
    qed
    moreover have "set (us @ vs) = {j. \<exists>m. (j, m) \<in> F - {(k, n)} \<and> class_of m = (fl, sl)}"
    proof -
      have "m = n" if "(k, m) \<in> F" for m
        using that k bo by (auto simp: blocks_ok_def dest: inj_onD [of fst F "(k, n)" "(k, m)"])
      moreover have "set (us @ vs) = {j. \<exists>m. (j, m) \<in> F \<and> class_of m = (fl, sl)} - {k}"
        using l kn by (auto simp: slot_ok_def uv)
      ultimately show ?thesis by blast
    qed
    moreover have "blocks t3 ! fl ! sl = adr (hd ((us @ vs) @ [z]))"
      using bl [OF r] hd by (cases us) (simp_all add: x_def)
    moreover have "bit (sl_bitmap t3 ! fl) sl \<longleftrightarrow> us @ vs \<noteq> []"
      using bs [OF r] l uv by (auto simp: slot_ok_def empty_def)
    ultimately show ?thesis using di by (simp add: slot_ok_def c3)
  qed
  then have "free_lists z t3 (F - {(k, n)})"
  proof (rule free_lists_update [OF L l _ _ _ sh3, where S = "{p, x}"])
    show "blocks_ok z (F - {(k, n)})"
      using bo unfolding blocks_ok_def by (auto intro: inj_on_diff elim!: sep_subset)
    show "control t3 = control t" by (simp add: t3_def b1 Let_def)
    show "cells t3 i = cells t i" if "i \<notin> link_cells {p, x}" for i
      using that unfolding c3 c1_def by (auto simp: link_cells_def)
    show "{p, x} \<inter> fst ` F \<subseteq> set l" using pm xm zF by (auto simp: uv)
    show "sep ({p, x} \<union> fst ` F)" by (rule sep_subset [OF sp]) (use pF xF in auto)
  qed (use bl bs c in auto)
  moreover have "\<forall>i. i \<notin> link_cells (insert z (fst ` F)) \<longrightarrow> cells t3 i = cells t i"
    unfolding c3 c1_def using pF xF by (auto simp: link_cells_def)
  ultimately show ?thesis using ex by blast
qed

section \<open>The search\<close>

lemma bit_above: "bit (w AND NOT (mask n)) i \<longleftrightarrow> bit (w :: 'a::len word) i \<and> n \<le> i"
  by (auto simp: bit_and_iff bit_mask_iff bit_not_iff dest: bit_imp_le_length)

lemma slot_bit:
  assumes "free_lists z t F" and "in_range fl sl"
  shows "bit (sl_bitmap t ! fl) sl \<longleftrightarrow> (\<exists>k n. (k, n) \<in> F \<and> class_of n = (fl, sl))"
proof -
  obtain l where l: "slot_ok z t F fl sl l" using assms unfolding free_lists_def by blast
  have "bit (sl_bitmap t ! fl) sl \<longleftrightarrow> set l \<noteq> {}" using l unfolding slot_ok_def set_empty by blast
  also have "set l = {k. \<exists>n. (k, n) \<in> F \<and> class_of n = (fl, sl)}" using l by (simp add: slot_ok_def)
  finally show ?thesis by auto
qed

lemma slot_head:
  assumes L: "free_lists z t F" and r: "in_range fl sl" and b: "bit (sl_bitmap t ! fl) sl"
  obtains k n where "(k, n) \<in> F" "class_of n = (fl, sl)" "blocks t ! fl ! sl = adr k"
proof -
  obtain l where l: "slot_ok z t F fl sl l" using L r unfolding free_lists_def by blast
  then have "l \<noteq> []" using b by (simp add: slot_ok_def)
  then obtain k ks where k: "l = k # ks" by (cases l) auto
  then have "k \<in> {k. \<exists>n. (k, n) \<in> F \<and> class_of n = (fl, sl)}" using l by (auto simp: slot_ok_def)
  then show thesis using that l k by (auto simp: slot_ok_def)
qed

text \<open>
  The search returns the first block of a non-empty list whose class is not below the class asked for, and null
  only when there is none.
\<close>

lemma search_suitable_block_ok:
  assumes L: "free_lists z t F" and r: "in_range fl sl"
  obtains (none) "search_suitable_block t fl sl = Ret (0, fl, sl)"
      "\<And>k n. (k, n) \<in> F \<Longrightarrow> 32 * fst (class_of n) + snd (class_of n) < 32 * fl + sl"
    | (some) k n fl' sl' where "search_suitable_block t fl sl = Ret (adr k, fl', sl')" "(k, n) \<in> F"
      "class_of n = (fl', sl')" "32 * fl + sl \<le> 32 * fl' + sl'"
proof -
  define sm where "sm = sl_bitmap t ! fl AND NOT (mask sl)"
  define fm where "fm = fl_bitmap t AND NOT (mask (Suc fl))"
  have sh: "shape_ok t" and bo: "blocks_ok z F" using L by (simp_all add: free_lists_def)
  have fb: "bit (fl_bitmap t) i \<longleftrightarrow> i < 25 \<and> sl_bitmap t ! i \<noteq> 0" for i using sh by (simp add: shape_ok_def)
  show thesis
  proof (cases "sm = 0")
    case False
    then obtain i where i: "tlsf_ffs sm = int i" "i < 32" "bit sm i" using tlsf_ffs_spec by blast
    then have b: "bit (sl_bitmap t ! fl) i" "sl \<le> i" by (simp_all add: sm_def bit_above)
    have r': "in_range fl i" using r i by (simp add: in_range_def)
    obtain k n where k: "(k, n) \<in> F" "class_of n = (fl, i)" "blocks t ! fl ! i = adr k"
      using slot_head [OF L r' b(1)] .
    have "search_suitable_block t fl sl = Ret (adr k, fl, i)"
      using False i k by (simp add: search_suitable_block_def Let_def sm_def [symmetric])
    then show thesis using some k b by simp
  next
    case sm: True
    show thesis
    proof (cases "fm = 0")
      case False
      then obtain i where i: "tlsf_ffs fm = int i" "i < 32" "bit fm i" using tlsf_ffs_spec by blast
      then have b: "i < 25" "sl_bitmap t ! i \<noteq> 0" "fl < i" by (simp_all add: fm_def bit_above fb)
      obtain j where j: "tlsf_ffs (sl_bitmap t ! i) = int j" "j < 32" "bit (sl_bitmap t ! i) j"
        using tlsf_ffs_spec [OF b(2)] by blast
      have r': "in_range i j" using b j by (simp add: in_range_def)
      obtain k n where k: "(k, n) \<in> F" "class_of n = (i, j)" "blocks t ! i ! j = adr k"
        using slot_head [OF L r' j(3)] .
      have "search_suitable_block t fl sl = Ret (adr k, i, j)"
        using False sm i j k b by (simp add: search_suitable_block_def Let_def sm_def [symmetric] fm_def [symmetric])
      moreover have "32 * fl + sl \<le> 32 * i + j" using b r by (simp add: in_range_def)
      ultimately show thesis using some k by simp
    next
      case fm: True
      have "search_suitable_block t fl sl = Ret (0, fl, sl)"
        using fm sm by (simp add: search_suitable_block_def Let_def sm_def [symmetric] fm_def [symmetric])
      moreover have "32 * fst (class_of n) + snd (class_of n) < 32 * fl + sl" if kn: "(k, n) \<in> F" for k n
      proof -
        obtain i j where ij: "class_of n = (i, j)" by (cases "class_of n")
        have "n < 2 ^ 29" using kn bo by (auto simp: blocks_ok_def)
        then have r': "in_range i j" using class_of_range [of n] ij by simp
        have b: "bit (sl_bitmap t ! i) j" using slot_bit [OF L r'] kn ij by blast
        then have "bit (fl_bitmap t) i" using r' by (auto simp: fb in_range_def)
        then have "\<not> fl < i" using fm unfolding fm_def by (metis Suc_eq_plus1 Suc_leI bit_0_eq bit_above bot_apply bot_bool_def)
        moreover have "i = fl \<Longrightarrow> j < sl" using sm b unfolding sm_def
          by (metis bit_0_eq bit_above bot_apply bot_bool_def leI)
        ultimately show ?thesis using ij r' by (cases "i = fl") (auto simp: in_range_def)
      qed
      ultimately show thesis using none by blast
    qed
  qed
qed

end
