(* ===== verification/Vm_Tlsf_Pool.thy ===== *)
theory Vm_Tlsf_Pool
  imports Vm_Tlsf_Lists
begin

text \<open>
  The pool as a sequence of blocks.  \<open>pool z k0 t bs F\<close> says that the memory from block \<open>k0\<close> on is tiled by the
  blocks \<open>bs\<close> (size in cells and whether the block is marked free), that the headers, the flags of the
  neighbours and the back pointers agree with them, and that the free lists hold the blocks \<open>F\<close>.  Every
  operation on blocks is shown to rewrite the sequence and to leave the payload of the other used blocks alone.
\<close>

section \<open>Sequences of blocks\<close>

fun seg :: "(nat \<Rightarrow> u64) \<Rightarrow> nat \<Rightarrow> bool \<Rightarrow> (nat \<times> bool) list \<Rightarrow> bool" where
  "seg c k pf [] = True"
| "seg c k pf ((n, f) # bs) =
     (c (k + 1) = hdr n f pf \<and> (f \<longrightarrow> c (k + 1 + n) = adr k) \<and> seg c (k + 1 + n) f bs)"

fun span :: "(nat \<times> bool) list \<Rightarrow> nat" where
  "span [] = 0"
| "span ((n, f) # bs) = 1 + n + span bs"

fun endf :: "bool \<Rightarrow> (nat \<times> bool) list \<Rightarrow> bool" where
  "endf pf [] = pf"
| "endf pf ((n, f) # bs) = endf f bs"

fun frees :: "nat \<Rightarrow> (nat \<times> bool) list \<Rightarrow> (nat \<times> nat) set" where
  "frees k [] = {}"
| "frees k ((n, f) # bs) = (if f then {(k, n)} else {}) \<union> frees (k + 1 + n) bs"

text \<open>The cells of the payloads of the used blocks.\<close>

fun pay :: "nat \<Rightarrow> (nat \<times> bool) list \<Rightarrow> nat set" where
  "pay k [] = {}"
| "pay k ((n, f) # bs) = (if f then {} else {k + 2..k + n + 1}) \<union> pay (k + 1 + n) bs"

definition large :: "(nat \<times> bool) list \<Rightarrow> bool" where
  "large bs \<longleftrightarrow> (\<forall>(n, f) \<in> set bs. 3 \<le> n)"

lemma span_append [simp]: "span (xs @ ys) = span xs + span ys"
  by (induction xs rule: span.induct) simp_all

lemma endf_append [simp]: "endf pf (xs @ ys) = endf (endf pf xs) ys"
  by (induction pf xs rule: endf.induct) simp_all

lemma seg_append: "seg c k pf (xs @ ys) \<longleftrightarrow> seg c k pf xs \<and> seg c (k + span xs) (endf pf xs) ys"
  by (induction c k pf xs rule: seg.induct) (simp_all add: ac_simps)

lemma frees_append: "frees k (xs @ ys) = frees k xs \<union> frees (k + span xs) ys"
  by (induction k xs rule: frees.induct) (auto simp: ac_simps)

lemma pay_append: "pay k (xs @ ys) = pay k xs \<union> pay (k + span xs) ys"
  by (induction k xs rule: pay.induct) (auto simp: ac_simps)

lemma large_simps [simp]:
  "large []" "large ((n, f) # bs) \<longleftrightarrow> 3 \<le> n \<and> large bs" "large (xs @ ys) \<longleftrightarrow> large xs \<and> large ys"
  by (auto simp: large_def)

lemma seg_cong:
  "(\<And>i. k < i \<Longrightarrow> i \<le> k + span bs \<Longrightarrow> c' i = c i) \<Longrightarrow> seg c' k pf bs = seg c k pf bs"
proof (induction c k pf bs rule: seg.induct)
  case (2 c k pf n f bs)
  have "seg c' (k + 1 + n) f bs = seg c (k + 1 + n) f bs" using 2 by simp
  then show ?case using 2(2) [of "k + 1"] 2(2) [of "k + 1 + n"] by simp
qed simp

lemma frees_bound: "(k, n) \<in> frees k0 bs \<Longrightarrow> k0 \<le> k \<and> k + 1 + n \<le> k0 + span bs"
  by (induction k0 bs rule: frees.induct) (auto split: if_splits)

lemma pay_bound: "i \<in> pay k0 bs \<Longrightarrow> k0 + 2 \<le> i \<and> i \<le> k0 + span bs"
  by (induction k0 bs rule: pay.induct) (auto split: if_splits)

lemma frees_large: "(k, n) \<in> frees k0 bs \<Longrightarrow> large bs \<Longrightarrow> 3 \<le> n"
  by (induction k0 bs rule: frees.induct) (auto split: if_splits)

lemma frees_sep:
  "(a, n) \<in> frees k0 bs \<Longrightarrow> (b, m) \<in> frees k0 bs \<Longrightarrow> (a, n) = (b, m) \<or> a + 1 + n \<le> b \<or> b + 1 + m \<le> a"
proof (induction k0 bs rule: frees.induct)
  case (2 k l f bs)
  then show ?case
    using frees_bound [of a n "k + 1 + l" bs] frees_bound [of b m "k + 1 + l" bs] by (auto split: if_splits)
qed simp

lemma frees_pay:
  "(a, n) \<in> frees k0 bs \<Longrightarrow> i \<in> pay k0 bs \<Longrightarrow> i \<le> a + 1 \<or> a + 1 + n < i"
proof (induction k0 bs rule: frees.induct)
  case (2 k l f bs)
  then show ?case
    using frees_bound [of a n "k + 1 + l" bs] pay_bound [of i "k + 1 + l" bs] by (auto split: if_splits)
qed simp

lemma frees_split:
  assumes "(k, n) \<in> frees k0 bs"
  obtains xs ys where "bs = xs @ (n, True) # ys" "k = k0 + span xs"
proof -
  have "\<exists>xs ys. bs = xs @ (n, True) # ys \<and> k = k0 + span xs"
    using assms
  proof (induction k0 bs rule: frees.induct)
    case (2 k' l f bs)
    show ?case
    proof (cases "(k, n) \<in> frees (k' + 1 + l) bs")
      case True
      then obtain xs ys where "bs = xs @ (n, True) # ys" "k = k' + 1 + l + span xs" using 2 by blast
      then have "(l, f) # bs = ((l, f) # xs) @ (n, True) # ys" "k = k' + span ((l, f) # xs)" by simp_all
      then show ?thesis by blast
    next
      case False
      then have "(l, f) # bs = [] @ (n, True) # bs" "k = k' + span []" using 2(2) by (auto split: if_splits)
      then show ?thesis by blast
    qed
  qed simp
  then show thesis using that by blast
qed

section \<open>Pools\<close>

text \<open>Where the control structure and the pool lie: 817 cells for the former, then the pool.\<close>

definition geo :: "nat \<Rightarrow> nat \<Rightarrow> (nat \<times> bool) list \<Rightarrow> bool" where
  "geo z k0 bs \<longleftrightarrow> large bs \<and> 0 < z \<and> z + 817 \<le> k0 + 1 \<and> span bs \<le> 2 ^ 29 \<and> k0 + span bs + 6 < 2 ^ 61"

definition pool :: "nat \<Rightarrow> nat \<Rightarrow> tlsf \<Rightarrow> (nat \<times> bool) list \<Rightarrow> (nat \<times> nat) set \<Rightarrow> bool" where
  "pool z k0 t bs F \<longleftrightarrow>
     geo z k0 bs \<and> seg (cells t) k0 False (bs @ [(0, False)]) \<and> free_lists z t F \<and> F \<subseteq> frees k0 bs"

lemma geo_blocks_ok:
  assumes g: "geo z k0 bs" and F: "F \<subseteq> frees k0 bs"
  shows "blocks_ok z F"
proof -
  have b: "k0 \<le> k \<and> k + 1 + n \<le> k0 + span bs \<and> 3 \<le> n" if "(k, n) \<in> F" for k n
    using frees_bound [of k n k0 bs] frees_large [of k n k0 bs] that F g by (auto simp: geo_def)
  have s: "(a, n) = (b, m) \<or> a + 1 + n \<le> b \<or> b + 1 + m \<le> a" if "(a, n) \<in> F" "(b, m) \<in> F" for a n b m
    using frees_sep [of a n k0 bs b m] that F by blast
  have "inj_on fst F" using s by (force intro!: inj_onI)
  moreover have "z \<notin> fst ` F" using b g by (fastforce simp: geo_def)
  moreover have "sep (insert z (fst ` F))"
    unfolding sep_def using b s g by (fastforce simp: geo_def)
  moreover have "0 < k \<and> k + 3 < 2 ^ 61" if "k \<in> insert z (fst ` F)" for k
    using that b g by (fastforce simp: geo_def)
  moreover have "n < 2 ^ 29" if "(k, n) \<in> F" for k n
    using b [OF that] g by (simp add: geo_def)
  ultimately show ?thesis unfolding blocks_ok_def by blast
qed

definition same :: "tlsf \<Rightarrow> tlsf \<Rightarrow> nat set \<Rightarrow> bool" where
  "same t t' S \<longleftrightarrow> (\<forall>i \<in> S. cells t' i = cells t i)"

lemma same_trans: "same t t1 S \<Longrightarrow> same t1 t' T \<Longrightarrow> U \<subseteq> S \<Longrightarrow> U \<subseteq> T \<Longrightarrow> same t t' U"
  unfolding same_def by (metis subsetD)

lemma same_mono: "same t t' S \<Longrightarrow> U \<subseteq> S \<Longrightarrow> same t t' U"
  unfolding same_def by blast

lemma same_links:
  assumes g: "geo z k0 bs" and F: "F \<subseteq> frees k0 bs"
    and c: "\<forall>i. i \<notin> link_cells (insert z (fst ` F)) \<longrightarrow> cells t' i = cells t i"
  shows "same t t' (pay k0 bs)"
  unfolding same_def
proof
  fix i assume i: "i \<in> pay k0 bs"
  have "i \<notin> link_cells (insert z (fst ` F))"
  proof
    assume "i \<in> link_cells (insert z (fst ` F))"
    then consider "i \<in> {z + 2, z + 3}" | a n where "(a, n) \<in> F" "i \<in> {a + 2, a + 3}"
      by (auto simp: link_cells_def)
    then show False
    proof cases
      case 1
      then show False using pay_bound [OF i] g by (auto simp: geo_def)
    next
      case 2
      then have "3 \<le> n" "i \<le> a + 1 \<or> a + 1 + n < i"
        using frees_large [of a n k0 bs] frees_pay [of a n k0 bs, OF _ i] F g by (auto simp: geo_def)
      then show False using 2 by auto
    qed
  qed
  then show "cells t' i = cells t i" using c by blast
qed

section \<open>Rewriting a pool\<close>

text \<open>A block of a pool and the header after it.\<close>

lemma pool_at:
  assumes P: "pool z k0 t (xs @ (n, f) # ys) F"
  obtains m g zs where "ys @ [(0, False)] = (m, g) # zs"
    "cells t (k0 + span xs + 1) = hdr n f (endf False xs)"
    "cells t (k0 + span xs + 1 + n + 1) = hdr m g f"
    "f \<longrightarrow> cells t (k0 + span xs + 1 + n) = adr (k0 + span xs)"
    "3 \<le> n" "n < 2 ^ 29" "0 < k0 + span xs" "k0 + span xs + n + 6 < 2 ^ 61" "m < 2 ^ 29"
    "ys \<noteq> [] \<longrightarrow> 3 \<le> m \<and> k0 + span xs + n + m + 7 < 2 ^ 61" "ys = [] \<longrightarrow> m = 0 \<and> \<not> g"
proof -
  obtain m g zs where y: "ys @ [(0, False)] = (m, g) # zs" by (cases "ys @ [(0, False)]") auto
  have g: "geo z k0 (xs @ (n, f) # ys)" and s: "seg (cells t) k0 False ((xs @ (n, f) # ys) @ [(0, False)])"
    using P by (simp_all add: pool_def)
  have "seg (cells t) k0 False (xs @ (n, f) # (m, g) # zs)" using s y by simp
  moreover have "m < 2 ^ 29" "ys \<noteq> [] \<longrightarrow> 3 \<le> m \<and> k0 + span xs + n + m + 7 < 2 ^ 61" "ys = [] \<longrightarrow> m = 0 \<and> \<not> g"
    using g y by (cases ys; auto simp: geo_def)+
  ultimately show thesis
    using that [OF y] g by (simp add: seg_append geo_def)
qed

lemma pool_hdr:
  assumes "pool z k0 t (xs @ (n, f) # ys) F"
  shows "cells t (k0 + span xs + 1) = hdr n f (endf False xs)"
    and "f \<Longrightarrow> cells t (k0 + span xs + 1 + n) = adr (k0 + span xs)"
    and "3 \<le> n" and "n < 2 ^ 29" and "0 < k0 + span xs" and "k0 + span xs + n + 6 < 2 ^ 61"
    and "ys @ [(0, False)] = (m, g) # zs \<Longrightarrow> cells t (k0 + span xs + 1 + n + 1) = hdr m g f"
  by (rule pool_at [OF assms]; simp)+

text \<open>
  The blocks \<open>us\<close> of a pool are replaced by \<open>vs\<close>, which cover the same cells.  Only the cells of these blocks and
  the header after them may change, and none of them is in a free list.
\<close>

lemma pool_replace:
  assumes P: "pool z k0 t (xs @ us @ ys) F" and F: "F \<subseteq> frees k0 xs \<union> frees (k0 + span xs + span us) ys"
    and vs: "span vs = span us" "large vs" "seg (cells t') (k0 + span xs) (endf False xs) vs"
    and y: "ys @ [(0, False)] = (m, g) # zs"
    and n: "cells t' (k0 + span xs + span us + 1) = hdr m g (endf False (xs @ vs))"
    and ct: "ctl t' = ctl t"
    and c: "\<And>i. i \<le> k0 + span xs \<or> k0 + span xs + span us + 1 < i \<Longrightarrow> cells t' i = cells t i"
  shows "pool z k0 t' (xs @ vs @ ys) F \<and> same t t' (pay k0 xs \<union> pay (k0 + span xs + span us) ys)"
proof -
  define k where "k = k0 + span xs"
  define K where "K = k + span us"
  have g: "geo z k0 (xs @ us @ ys)" and s: "seg (cells t) k0 False (xs @ us @ (m, g) # zs)"
    using P y by (simp_all add: pool_def)
  have "seg (cells t) k0 False xs" and fo: "g \<longrightarrow> cells t (K + 1 + m) = adr K" and zs: "seg (cells t) (K + 1 + m) g zs"
    using s by (simp_all add: seg_append k_def K_def)
  moreover have "seg (cells t') k0 False xs = seg (cells t) k0 False xs"
    by (rule seg_cong) (simp add: c)
  moreover have "seg (cells t') (K + 1 + m) g zs = seg (cells t) (K + 1 + m) g zs"
    by (rule seg_cong) (simp add: c k_def K_def)
  moreover have "g \<longrightarrow> cells t' (K + 1 + m) = adr K"
  proof
    assume "g"
    then have "3 \<le> m" using g y by (cases ys) (auto simp: geo_def)
    then show "cells t' (K + 1 + m) = adr K" using fo \<open>g\<close> c by (simp add: k_def K_def)
  qed
  ultimately have s': "seg (cells t') k0 False (xs @ vs @ (m, g) # zs)"
    using vs n by (simp add: seg_append k_def K_def)
  have g': "geo z k0 (xs @ vs @ ys)" using g vs by (simp add: geo_def)
  have lk: "cells t' i = cells t i" if i: "i \<in> link_cells (fst ` F)" for i
  proof -
    obtain a l where a: "(a, l) \<in> F" "i = a + 2 \<or> i = a + 3" using i by (auto simp: link_cells_def)
    then consider "(a, l) \<in> frees k0 xs" | "(a, l) \<in> frees K ys" using F by (auto simp: k_def K_def)
    then show ?thesis
    proof cases
      case 1
      then have "3 \<le> l" "a + 1 + l \<le> k" using frees_bound [OF 1] frees_large [OF 1] g by (simp_all add: geo_def k_def)
      then show ?thesis using a by (intro c) (auto simp: k_def)
    next
      case 2
      then show ?thesis using frees_bound [OF 2] a by (intro c) (auto simp: k_def K_def)
    qed
  qed
  have "free_lists z t' F" using P by (intro free_lists_cong [OF _ ct lk]) (simp_all add: pool_def)
  moreover have "F \<subseteq> frees k0 (xs @ vs @ ys)" using F vs by (auto simp: frees_append ac_simps)
  ultimately have "pool z k0 t' (xs @ vs @ ys) F" using s' g' y by (simp add: pool_def)
  moreover have "same t t' (pay k0 xs \<union> pay K ys)"
    unfolding same_def using pay_bound [of _ k0 xs] pay_bound [of _ K ys] c by (fastforce simp: k_def K_def)
  ultimately show ?thesis by (simp add: k_def K_def)
qed

lemma frees_without:
  assumes F: "F \<subseteq> frees k0 (xs @ us @ ys)" and no: "F \<inter> frees (k0 + span xs) us = {}"
  shows "F \<subseteq> frees k0 xs \<union> frees (k0 + span xs + span us) ys"
  using assms by (auto simp: frees_append)

section \<open>The block operations on pools\<close>

lemma mark_as_free_pool:
  assumes P: "pool z k0 t (xs @ (n, False) # ys) F" and k: "k = k0 + span xs"
  shows "\<exists>t'. block_mark_as_free (adr k) t = Ret t' \<and> pool z k0 t' (xs @ (n, True) # ys) F \<and>
    same t t' (pay k0 xs \<union> pay (k + 1 + n) ys)"
proof -
  obtain m g zs where y: "ys @ [(0, False)] = (m, g) # zs" and h: "cells t (k + 1) = hdr n False (endf False xs)"
    and h': "cells t (k + 1 + n + 1) = hdr m g False" and b: "3 \<le> n" "k + n + 6 < 2 ^ 61"
    using pool_at [OF P] unfolding k by metis
  obtain t' where t': "block_mark_as_free (adr k) t = Ret t'" "ctl t' = ctl t"
    and c: "cells t' = (cells t)(k + 1 + n := adr k, k + 1 + n + 1 := hdr m g True, k + 1 := hdr n True (endf False xs))"
    using block_mark_as_free_cell [OF h _ _ h'] b by auto
  have "pool z k0 t' (xs @ [(n, True)] @ ys) F \<and> same t t' (pay k0 xs \<union> pay (k0 + span xs + span [(n, False)]) ys)"
  proof (rule pool_replace [where us = "[(n, False)]", OF _ frees_without _ _ _ y _ t'(2)])
    show "F \<subseteq> frees k0 (xs @ [(n, False)] @ ys)" using P by (simp add: pool_def)
  qed (use P b in \<open>auto simp: c k\<close>)
  then show ?thesis using t'(1) by (simp add: k ac_simps)
qed

lemma mark_as_used_pool:
  assumes P: "pool z k0 t (xs @ (n, f) # ys) F" and k: "k = k0 + span xs" and no: "(k, n) \<notin> F"
  shows "\<exists>t'. block_mark_as_used (adr k) t = Ret t' \<and> pool z k0 t' (xs @ (n, False) # ys) F \<and>
    same t t' (pay k0 xs \<union> pay (k + 1 + n) ys)"
proof -
  obtain m g zs where y: "ys @ [(0, False)] = (m, g) # zs" and h: "cells t (k + 1) = hdr n f (endf False xs)"
    and h': "cells t (k + 1 + n + 1) = hdr m g f" and b: "3 \<le> n" "k + n + 6 < 2 ^ 61"
    using pool_at [OF P] unfolding k by metis
  obtain t' where t': "block_mark_as_used (adr k) t = Ret t'" "ctl t' = ctl t"
    and c: "cells t' = (cells t)(k + 1 + n + 1 := hdr m g False, k + 1 := hdr n False (endf False xs))"
    using block_mark_as_used_cell [OF h _ _ h'] b by auto
  have "pool z k0 t' (xs @ [(n, False)] @ ys) F \<and> same t t' (pay k0 xs \<union> pay (k0 + span xs + span [(n, f)]) ys)"
  proof (rule pool_replace [where us = "[(n, f)]", OF _ frees_without _ _ _ y _ t'(2)])
    show "F \<subseteq> frees k0 (xs @ [(n, f)] @ ys)" using P by (simp add: pool_def)
  qed (use P b no in \<open>auto simp: c k\<close>)
  then show ?thesis using t'(1) by (simp add: k ac_simps)
qed

text \<open>Headers and back pointers are not links of free blocks.\<close>

lemma seg_links_aux:
  assumes "\<And>a n. (a, n) \<in> F \<Longrightarrow> k \<le> a \<Longrightarrow> (a, n) \<in> frees k bs" and "large bs"
    and "\<And>i. k < i \<Longrightarrow> (\<And>a n. (a, n) \<in> F \<Longrightarrow> k \<le> a \<Longrightarrow> i \<noteq> a + 2 \<and> i \<noteq> a + 3) \<Longrightarrow> c' i = c i"
  shows "seg c' k pf (bs @ [(0, False)]) = seg c k pf (bs @ [(0, False)])"
  using assms
proof (induction bs arbitrary: k pf)
  case Nil
  then have "c' (k + 1) = c (k + 1)" by (metis add.commute empty_iff frees.simps(1) less_add_one)
  then show ?case by simp
next
  case (Cons b bs)
  obtain n f where b: "b = (n, f)" by (cases b)
  have n: "3 \<le> n" "large bs" using Cons.prems(2) b by simp_all
  have F: "a = k \<and> m = n \<or> (a, m) \<in> frees (k + 1 + n) bs" if "(a, m) \<in> F" "k \<le> a" for a m
    using Cons.prems(1) [OF that] b by (auto split: if_splits)
  have fb: "k + 1 + n \<le> a" if "(a, m) \<in> frees (k + 1 + n) bs" for a m
    using frees_bound [OF that] by simp
  have h: "c' (k + 1) = c (k + 1)"
    by (rule Cons.prems(3)) (use F fb in fastforce)+
  have fo: "c' (k + 1 + n) = c (k + 1 + n)"
    by (rule Cons.prems(3)) (use F fb n in fastforce)+
  have "seg c' (k + 1 + n) f (bs @ [(0, False)]) = seg c (k + 1 + n) f (bs @ [(0, False)])"
  proof (rule Cons.IH)
    show "(a, m) \<in> frees (k + 1 + n) bs" if "(a, m) \<in> F" "k + 1 + n \<le> a" for a m
      using F [OF that(1)] that by auto
    show "c' i = c i" if "k + 1 + n < i" "\<And>a m. (a, m) \<in> F \<Longrightarrow> k + 1 + n \<le> a \<Longrightarrow> i \<noteq> a + 2 \<and> i \<noteq> a + 3" for i
    proof (rule Cons.prems(3))
      fix a m assume a: "(a, m) \<in> F" "k \<le> a"
      show "i \<noteq> a + 2 \<and> i \<noteq> a + 3"
        using F [OF a] fb [of a m] that a n by fastforce
    qed (use that in simp)
  qed (rule n(2))
  then show ?case using h fo by (simp add: b)
qed

lemma seg_links:
  assumes g: "geo z k0 bs" and F: "F \<subseteq> frees k0 bs"
    and c: "\<forall>i. i \<notin> link_cells (insert z (fst ` F)) \<longrightarrow> cells t' i = cells t i"
  shows "seg (cells t') k0 False (bs @ [(0, False)]) = seg (cells t) k0 False (bs @ [(0, False)])"
proof (rule seg_links_aux [of F])
  show "cells t' i = cells t i"
    if "k0 < i" "\<And>a n. (a, n) \<in> F \<Longrightarrow> k0 \<le> a \<Longrightarrow> i \<noteq> a + 2 \<and> i \<noteq> a + 3" for i
  proof -
    have "i \<notin> link_cells (insert z (fst ` F))"
      using that g frees_bound [of _ _ k0 bs] F by (fastforce simp: link_cells_def geo_def)
    then show ?thesis using c by blast
  qed
qed (use g F in \<open>auto simp: geo_def\<close>)

lemma pool_size:
  assumes "pool z k0 t (xs @ (n, f) # ys) F"
  shows "block_size t (adr (k0 + span xs)) = adr n" and "block_is_free t (adr (k0 + span xs)) \<longleftrightarrow> f"
    and "block_is_prev_free t (adr (k0 + span xs)) \<longleftrightarrow> endf False xs"
    and "\<not> block_is_last t (adr (k0 + span xs))" and "adr (k0 + span xs) \<noteq> 0"
    and "block_next t (adr (k0 + span xs)) = Ret (adr (k0 + span xs + 1 + n))"
proof -
  obtain m g zs where h: "cells t (k0 + span xs + 1) = hdr n f (endf False xs)"
    and b: "3 \<le> n" "n < 2 ^ 29" "k0 + span xs + n + 6 < 2 ^ 61" "0 < k0 + span xs"
    using pool_at [OF assms] by metis
  show sz: "block_size t (adr (k0 + span xs)) = adr n" and "block_is_free t (adr (k0 + span xs)) \<longleftrightarrow> f"
    and "block_is_prev_free t (adr (k0 + span xs)) \<longleftrightarrow> endf False xs"
    using block_hdr [OF h] b by simp_all
  show "\<not> block_is_last t (adr (k0 + span xs))" "adr (k0 + span xs) \<noteq> 0"
    using b by (simp_all add: block_is_last_def sz adr_eq_0)
  show "block_next t (adr (k0 + span xs)) = Ret (adr (k0 + span xs + 1 + n))"
    using block_next_cell [OF h] b by simp
qed

lemma remove_free_pool:
  assumes P: "pool z k0 t bs F" and k: "(k, n) \<in> F" and c: "class_of n = (fl, sl)"
  shows "\<exists>t'. remove_free_block (adr k) fl sl t = Ret t' \<and> pool z k0 t' bs (F - {(k, n)}) \<and> same t t' (pay k0 bs)"
proof -
  have g: "geo z k0 bs" and F: "F \<subseteq> frees k0 bs" and s: "seg (cells t) k0 False (bs @ [(0, False)])"
    and L: "free_lists z t F" using P by (simp_all add: pool_def)
  obtain t' where t': "remove_free_block (adr k) fl sl t = Ret t'" "free_lists z t' (F - {(k, n)})"
    and ce: "\<forall>i. i \<notin> link_cells (insert z (fst ` F)) \<longrightarrow> cells t' i = cells t i"
    using remove_free_block_ok [OF L k c] by blast
  have "seg (cells t') k0 False (bs @ [(0, False)])" using seg_links [OF g F ce] s by simp
  then have "pool z k0 t' bs (F - {(k, n)})" using g F t' by (auto simp: pool_def)
  then show ?thesis using t'(1) same_links [OF g F ce] by blast
qed

lemma block_remove_pool:
  assumes P: "pool z k0 t bs F" and k: "(k, n) \<in> F"
  shows "\<exists>t'. block_remove (adr k) t = Ret t' \<and> pool z k0 t' bs (F - {(k, n)}) \<and> same t t' (pay k0 bs)"
proof -
  obtain xs ys where x: "bs = xs @ (n, True) # ys" "k = k0 + span xs"
    using frees_split [of k n k0 bs] P k by (auto simp: pool_def)
  have "block_size t (adr k) = adr n" using pool_size(1) [of z k0 t xs n True ys F] P x by simp
  moreover obtain fl sl where c: "class_of n = (fl, sl)" by (cases "class_of n")
  ultimately have "block_remove (adr k) t = remove_free_block (adr k) fl sl t"
    by (simp add: block_remove_def class_of_def [symmetric])
  then show ?thesis using remove_free_pool [OF P k c] by simp
qed

lemma block_insert_pool:
  assumes P: "pool z k0 t (xs @ (n, True) # ys) F" and k: "k = k0 + span xs" and no: "(k, n) \<notin> F"
  shows "\<exists>t'. block_insert (adr k) t = Ret t' \<and> pool z k0 t' (xs @ (n, True) # ys) (insert (k, n) F) \<and>
    same t t' (pay k0 (xs @ (n, True) # ys))"
proof -
  let ?bs = "xs @ (n, True) # ys"
  have g: "geo z k0 ?bs" and F: "F \<subseteq> frees k0 ?bs" and s: "seg (cells t) k0 False (?bs @ [(0, False)])"
    and L: "free_lists z t F" using P by (simp_all add: pool_def)
  obtain fl sl where c: "class_of n = (fl, sl)" by (cases "class_of n")
  have F': "insert (k, n) F \<subseteq> frees k0 ?bs" using F k by (simp add: frees_append)
  have bo: "blocks_ok z (insert (k, n) F)" by (rule geo_blocks_ok [OF g F'])
  have "k \<notin> fst ` F"
  proof
    assume "k \<in> fst ` F"
    then obtain n' where "(k, n') \<in> F" by auto
    moreover have "inj_on fst (insert (k, n) F)" using bo by (simp only: blocks_ok_def)
    ultimately have "(k, n') = (k, n)" by (intro inj_onD [of fst "insert (k, n) F"]) simp_all
    with \<open>(k, n') \<in> F\<close> show False using no by simp
  qed
  then obtain t' where t': "insert_free_block (adr k) fl sl t = Ret t'" "free_lists z t' (insert (k, n) F)"
    and ce: "\<forall>i. i \<notin> link_cells (insert z (fst ` insert (k, n) F)) \<longrightarrow> cells t' i = cells t i"
    using insert_free_block_ok [OF L bo _ c] by auto
  have "block_size t (adr k) = adr n" using pool_size(1) [OF P] k by simp
  then have "block_insert (adr k) t = Ret t'"
    using t'(1) c by (simp add: block_insert_def class_of_def [symmetric])
  moreover have "seg (cells t') k0 False (?bs @ [(0, False)])" using seg_links [OF g F' ce] s by simp
  ultimately show ?thesis using t' g F' same_links [OF g F' ce] by (simp add: pool_def)
qed

section \<open>Merging\<close>

text \<open>The listed blocks when one block, between \<open>xs\<close> and \<open>ys\<close>, is in no list.\<close>

definition others :: "nat \<Rightarrow> (nat \<times> bool) list \<Rightarrow> nat \<Rightarrow> (nat \<times> bool) list \<Rightarrow> (nat \<times> nat) set" where
  "others k0 xs n ys = frees k0 xs \<union> frees (k0 + span xs + 1 + n) ys"

lemma others_notin: "(k0 + span xs, m) \<notin> others k0 xs n ys"
  using frees_bound [of "k0 + span xs" m k0 xs] frees_bound [of "k0 + span xs" m "k0 + span xs + 1 + n" ys]
  by (auto simp: others_def)

lemma others_mid: "others k0 xs n ys \<inter> frees (k0 + span xs) [(n, f)] = {}"
  using others_notin [of k0 xs n n ys] by auto

lemma absorb_pool:
  assumes P: "pool z k0 t (xs @ (n, True) # (m, True) # ys) F" and k: "k = k0 + span xs"
    and no: "F \<inter> frees k [(n, True), (m, True)] = {}"
  shows "\<exists>t'. block_absorb (adr k) (adr (k + 1 + n)) t = Ret (adr k, t') \<and>
    pool z k0 t' (xs @ (n + 1 + m, True) # ys) F \<and> same t t' (pay k0 xs \<union> pay (k + 1 + n + 1 + m) ys)"
proof -
  note h = pool_hdr(1) [OF P, folded k] and b = pool_hdr(3) [OF P]
  have P2: "pool z k0 t ((xs @ [(n, True)]) @ (m, True) # ys) F" using P by simp
  have h2: "cells t (k + 1 + n + 1) = hdr m True True" and b2: "3 \<le> m" "k + 1 + n + m + 6 < 2 ^ 61"
    using pool_hdr(1,3,6) [OF P2] by (simp_all add: k add.assoc)
  obtain m' g zs where y: "ys @ [(0, False)] = (m', g) # zs" by (cases "ys @ [(0, False)]") auto
  have h3: "cells t (k + 1 + n + 1 + m + 1) = hdr m' g True"
    using pool_hdr(7) [OF P2 y] by (simp add: k add.assoc)
  obtain t' where t': "block_absorb (adr k) (adr (k + 1 + n)) t = Ret (adr k, t')" "ctl t' = ctl t"
    and c: "cells t' = (cells t)(k + 1 := hdr (n + 1 + m) True (endf False xs), k + 1 + (n + 1 + m) := adr k)"
    using block_absorb_cell [OF h _ h2] b b2 by auto
  have "pool z k0 t' (xs @ [(n + 1 + m, True)] @ ys) F \<and>
      same t t' (pay k0 xs \<union> pay (k0 + span xs + span [(n, True), (m, True)]) ys)"
  proof (rule pool_replace [where us = "[(n, True), (m, True)]", OF _ frees_without _ _ _ y _ t'(2)])
    show "F \<subseteq> frees k0 (xs @ [(n, True), (m, True)] @ ys)" using P by (simp add: pool_def)
    show "cells t' (k0 + span xs + span [(n, True), (m, True)] + 1) = hdr m' g (endf False (xs @ [(n + 1 + m, True)]))"
      using h3 by (simp add: c k ac_simps)
  qed (use P no b b2 in \<open>auto simp: c k\<close>)
  then show ?thesis using t'(1) by (simp add: k ac_simps)
qed

definition join_prev :: "(nat \<times> bool) list \<Rightarrow> nat \<Rightarrow> (nat \<times> bool) list \<times> nat" where
  "join_prev xs n = (if endf False xs then (butlast xs, fst (last xs) + 1 + n) else (xs, n))"

definition join_next :: "nat \<Rightarrow> (nat \<times> bool) list \<Rightarrow> nat \<times> (nat \<times> bool) list" where
  "join_next n ys = (case ys of (m, True) # ys \<Rightarrow> (n + 1 + m, ys) | _ \<Rightarrow> (n, ys))"

lemma join_next_pay: "join_next n ys = (m, vs) \<Longrightarrow> pay (k + 1 + m) vs = pay (k + 1 + n) ys"
  by (auto simp: join_next_def add.assoc split: list.splits prod.splits bool.splits)

lemma endf_snoc: "endf False xs \<Longrightarrow> \<exists>xs' m. xs = xs' @ [(m, True)]"
  by (cases xs rule: rev_cases) auto

lemma merge_prev_pool:
  assumes P: "pool z k0 t (xs @ (n, True) # ys) (others k0 xs n ys)" and j: "join_prev xs n = (xs', n')"
  shows "\<exists>t'. block_merge_prev (adr (k0 + span xs)) t = Ret (adr (k0 + span xs'), t') \<and>
    pool z k0 t' (xs' @ (n', True) # ys) (others k0 xs' n' ys) \<and>
    same t t' (pay k0 xs \<union> pay (k0 + span xs + 1 + n) ys)"
proof (cases "endf False xs")
  case False
  then show ?thesis using j P pool_size(3) [OF P] by (simp add: block_merge_prev_def join_prev_def same_def)
next
  case True
  then obtain us m where xs: "xs = us @ [(m, True)]" using endf_snoc by blast
  let ?k = "k0 + span xs" and ?p = "k0 + span us"
  have j': "xs' = us" "n' = m + 1 + n" using j True by (simp_all add: join_prev_def xs)
  have P1: "pool z k0 t (us @ (m, True) # (n, True) # ys) (others k0 xs n ys)" using P by (simp add: xs)
  have kp: "?k = ?p + 1 + m" by (simp add: xs)
  have pv: "block_prev t (adr ?k) = Ret (adr ?p)"
  proof -
    have "cells t ?k = adr ?p" using pool_hdr(2) [OF P1] unfolding kp by simp
    moreover have "?k < 2 ^ 61" using pool_hdr(6) [OF P] by linarith
    ultimately show ?thesis using pool_size(3) [OF P] True by (simp add: block_prev_def rd_cell)
  qed
  have mem: "(?p, m) \<in> others k0 xs n ys" by (simp add: others_def xs frees_append)
  obtain t1 where t1: "block_remove (adr ?p) t = Ret t1" and P2: "pool z k0 t1 (us @ (m, True) # (n, True) # ys) (others k0 xs n ys - {(?p, m)})"
    and s1: "same t t1 (pay k0 (us @ (m, True) # (n, True) # ys))"
    using block_remove_pool [OF P1 mem] by blast
  have F: "others k0 xs n ys - {(?p, m)} = others k0 us (m + 1 + n) ys"
    using frees_bound [of ?p m k0 us] frees_bound [of ?p m "?p + 1 + (m + 1 + n)" ys]
    by (auto simp: others_def xs frees_append ac_simps)
  have "others k0 us (m + 1 + n) ys \<inter> frees ?p [(m, True), (n, True)] = {}"
    using others_notin [of k0 us m "m + 1 + n" ys] frees_bound [of "?p + 1 + m" n k0 us]
      frees_bound [of "?p + 1 + m" n "?p + 1 + (m + 1 + n)" ys]
    by (auto simp: others_def)
  then obtain t2 where t2: "block_absorb (adr ?p) (adr ?k) t1 = Ret (adr ?p, t2)"
    and P3: "pool z k0 t2 (us @ (m + 1 + n, True) # ys) (others k0 us (m + 1 + n) ys)"
    and s2: "same t1 t2 (pay k0 us \<union> pay (?p + 1 + m + 1 + n) ys)"
    using absorb_pool [OF P2 [unfolded F] refl] kp by auto
  have "block_merge_prev (adr ?k) t = Ret (adr ?p, t2)"
    using pool_size(3) [OF P] True pv pool_size(2,5) [OF P1] t1 t2 by (simp add: block_merge_prev_def)
  moreover have "same t t2 (pay k0 xs \<union> pay (?k + 1 + n) ys)"
    using s1 s2 by (rule same_trans) (auto simp: pay_append xs ac_simps)
  ultimately show ?thesis using P3 j' by auto
qed

lemma merge_next_pool:
  assumes P: "pool z k0 t (xs @ (n, True) # ys) (others k0 xs n ys)" and j: "join_next n ys = (n', ys')"
  shows "\<exists>t'. block_merge_next (adr (k0 + span xs)) t = Ret (adr (k0 + span xs), t') \<and>
    pool z k0 t' (xs @ (n', True) # ys') (others k0 xs n' ys') \<and>
    same t t' (pay k0 xs \<union> pay (k0 + span xs + 1 + n) ys)"
proof -
  let ?k = "k0 + span xs" and ?x = "k0 + span xs + 1 + n"
  obtain m g zs where y: "ys @ [(0, False)] = (m, g) # zs" by (cases "ys @ [(0, False)]") auto
  have b: "?x + 3 < 2 ^ 61" using pool_hdr(6) [OF P] by simp
  have nx: "block_is_free t (adr ?x) \<longleftrightarrow> g" "adr ?x \<noteq> 0"
    using block_hdr(3) [OF pool_hdr(7) [OF P y]] b by (simp_all add: adr_eq_0)
  show ?thesis
  proof (cases g)
    case False
    then have "join_next n ys = (n, ys)" using y by (cases ys) (auto simp: join_next_def)
    then show ?thesis using j P False nx pool_size(6) [OF P] by (simp add: block_merge_next_def same_def)
  next
    case True
    then obtain vs where ys: "ys = (m, True) # vs" using y by (cases ys) auto
    have j': "n' = n + 1 + m" "ys' = vs" using j by (simp_all add: join_next_def ys)
    have P1: "pool z k0 t (xs @ (n, True) # (m, True) # vs) (others k0 xs n ys)" using P by (simp add: ys)
    have mem: "(?x, m) \<in> others k0 xs n ys" by (simp add: others_def ys)
    obtain t1 where t1: "block_remove (adr ?x) t = Ret t1"
      and P2: "pool z k0 t1 (xs @ (n, True) # (m, True) # vs) (others k0 xs n ys - {(?x, m)})"
      and s1: "same t t1 (pay k0 (xs @ (n, True) # (m, True) # vs))"
      using block_remove_pool [OF P1 mem] by blast
    have F: "others k0 xs n ys - {(?x, m)} = others k0 xs (n + 1 + m) vs"
      using frees_bound [of ?x m k0 xs] frees_bound [of ?x m "?k + 1 + (n + 1 + m)" vs]
      by (auto simp: others_def ys ac_simps)
    have "others k0 xs (n + 1 + m) vs \<inter> frees ?k [(n, True), (m, True)] = {}"
      using others_notin [of k0 xs n "n + 1 + m" vs] frees_bound [of ?x m k0 xs]
        frees_bound [of ?x m "?k + 1 + (n + 1 + m)" vs]
      by (auto simp: others_def)
    then obtain t2 where t2: "block_absorb (adr ?k) (adr ?x) t1 = Ret (adr ?k, t2)"
      and P3: "pool z k0 t2 (xs @ (n + 1 + m, True) # vs) (others k0 xs (n + 1 + m) vs)"
      and s2: "same t1 t2 (pay k0 xs \<union> pay (?k + 1 + n + 1 + m) vs)"
      using absorb_pool [OF P2 [unfolded F] refl] by auto
    have "block_merge_next (adr ?k) t = Ret (adr ?k, t2)"
      using pool_size(4,6) [OF P] nx True t1 t2 by (simp add: block_merge_next_def)
    moreover have "same t t2 (pay k0 xs \<union> pay ?x ys)"
      using s1 s2 by (rule same_trans) (auto simp: pay_append ys ac_simps)
    ultimately show ?thesis using P3 j' by auto
  qed
qed

section \<open>Splitting\<close>

lemma adr_le: "j < 2 ^ 61 \<Longrightarrow> k < 2 ^ 61 \<Longrightarrow> adr j \<le> adr k \<longleftrightarrow> j \<le> k"
  by (simp add: word_le_nat_alt unat_adr)

lemma adr_less: "j < 2 ^ 61 \<Longrightarrow> k < 2 ^ 61 \<Longrightarrow> adr j < adr k \<longleftrightarrow> j < k"
  by (simp add: word_less_nat_alt unat_adr)

lemma can_split_pool:
  assumes P: "pool z k0 t (xs @ (n, f) # ys) F" and w: "w < 2 ^ 29"
  shows "block_can_split t (adr (k0 + span xs)) (adr w) \<longleftrightarrow> w + 4 \<le> n"
proof -
  have "32 + adr w = adr (w + 4)" by (simp add: adr_def)
  then show ?thesis
    using pool_size(1) [OF P] pool_hdr(4) [OF P] w by (simp add: block_can_split_def adr_le)
qed

text \<open>The second half of a block that has been split is free; its flag for the first half is set by the caller.\<close>

lemma split_pool:
  assumes P: "pool z k0 t (xs @ (n, f) # ys) F" and k: "k = k0 + span xs" and no: "(k, n) \<notin> F" and w: "3 \<le> w" "w + 4 \<le> n"
  shows "\<exists>t1. block_split (adr k) (adr w) t = Ret (adr (k + 1 + w), t1) \<and> ctl t1 = ctl t \<and>
    (\<exists>j. cells t1 (k + 1 + w + 1) = hdr (n - w - 1) True j) \<and> cells t1 (k + 1) = hdr w f (endf False xs) \<and>
    (\<forall>t2. ctl t2 = ctl t \<longrightarrow> cells t2 (k + 1 + w + 1) = hdr (n - w - 1) True f \<longrightarrow>
      (f \<longrightarrow> cells t2 (k + 1 + w) = adr k) \<longrightarrow>
      (\<forall>i. i \<noteq> k + 1 + w \<longrightarrow> i \<noteq> k + 1 + w + 1 \<longrightarrow> cells t2 i = cells t1 i) \<longrightarrow>
      pool z k0 t2 (xs @ (w, f) # (n - w - 1, True) # ys) F \<and> same t t2 (pay k0 xs \<union> pay (k + 1 + n) ys) \<and>
      (\<not> f \<longrightarrow> cells t2 (k + 1 + w) = cells t1 (k + 1 + w) \<longrightarrow> same t t2 {k + 2..k + w + 1}))"
proof -
  note h = pool_hdr [OF P, folded k]
  obtain m g zs where y: "ys @ [(0, False)] = (m, g) # zs" by (cases "ys @ [(0, False)]") auto
  obtain t1 j where t1: "block_split (adr k) (adr w) t = Ret (adr (k + 1 + w), t1)" "ctl t1 = ctl t"
    and c1: "cells t1 = (cells t)(k + 1 + w + 1 := hdr (n - w - 1) True j, k + 1 := hdr w f (endf False xs),
      k + 1 + n := adr (k + 1 + w), k + 1 + n + 1 := hdr m g True)"
    using block_split_cell [OF h(1) _ w(2) _ _ h(7) [OF y]] h(3,4,6) w by auto
  have "pool z k0 t2 (xs @ (w, f) # (n - w - 1, True) # ys) F \<and> same t t2 (pay k0 xs \<union> pay (k + 1 + n) ys) \<and>
      (\<not> f \<longrightarrow> cells t2 (k + 1 + w) = cells t1 (k + 1 + w) \<longrightarrow> same t t2 {k + 2..k + w + 1})"
    if ct: "ctl t2 = ctl t" and r: "cells t2 (k + 1 + w + 1) = hdr (n - w - 1) True f"
      and pp: "f \<longrightarrow> cells t2 (k + 1 + w) = adr k"
      and i: "\<forall>i. i \<noteq> k + 1 + w \<longrightarrow> i \<noteq> k + 1 + w + 1 \<longrightarrow> cells t2 i = cells t1 i" for t2
  proof -
    have c2: "cells t2 i = cells t1 i" if "i \<noteq> k + 1 + w" "i \<noteq> k + 1 + w + 1" for i using i that by blast
    have "pool z k0 t2 (xs @ [(w, f), (n - w - 1, True)] @ ys) F \<and>
      same t t2 (pay k0 xs \<union> pay (k0 + span xs + span [(n, f)]) ys)"
    proof (rule pool_replace [where us = "[(n, f)]", OF _ frees_without _ _ _ y _ ct])
      show "F \<subseteq> frees k0 (xs @ [(n, f)] @ ys)" using P by (simp add: pool_def)
      show "seg (cells t2) (k0 + span xs) (endf False xs) [(w, f), (n - w - 1, True)]"
        using r pp c2 w by (simp add: k [symmetric] c1)
      show "cells t2 (k0 + span xs + span [(n, f)] + 1) = hdr m g (endf False (xs @ [(w, f), (n - w - 1, True)]))"
        using c2 w by (simp add: k [symmetric] c1)
    qed (use P no w c2 in \<open>auto simp: c1 k [symmetric]\<close>)
    moreover have "same t t2 {k + 2..k + w + 1}" if "cells t2 (k + 1 + w) = cells t1 (k + 1 + w)"
      unfolding same_def
    proof
      fix i assume i: "i \<in> {k + 2..k + w + 1}"
      then have "cells t2 i = cells t1 i" using that c2 [of i] by (cases "i = k + 1 + w") auto
      then show "cells t2 i = cells t i" using i w by (auto simp: c1)
    qed
    ultimately show ?thesis by (simp add: k ac_simps)
  qed
  moreover have "cells t1 (k + 1 + w + 1) = hdr (n - w - 1) True j" "cells t1 (k + 1) = hdr w f (endf False xs)"
    using w by (simp_all add: c1)
  ultimately show ?thesis using t1 by blast
qed

lemma split_free:
  assumes P: "pool z k0 t (xs @ (n, True) # ys) F" and k: "k = k0 + span xs" and no: "(k, n) \<notin> F" and w: "3 \<le> w" "w + 4 \<le> n"
  obtains t1 t2 t3 where "block_split (adr k) (adr w) t = Ret (adr (k + 1 + w), t1)"
    "block_link_next (adr k) t1 = Ret (adr (k + 1 + w), t2)"
    "pool z k0 (block_set_prev_free (adr (k + 1 + w)) t2) (xs @ (w, True) # (n - w - 1, True) # ys) F"
    "same t (block_set_prev_free (adr (k + 1 + w)) t2) (pay k0 xs \<union> pay (k + 1 + n) ys)"
    "block_link_next (adr k) (block_set_prev_free (adr (k + 1 + w)) t1) = Ret (adr (k + 1 + w), t3)"
    "pool z k0 t3 (xs @ (w, True) # (n - w - 1, True) # ys) F" "same t t3 (pay k0 xs \<union> pay (k + 1 + n) ys)"
proof -
  let ?r = "k + 1 + w"
  obtain t1 j where t1: "block_split (adr k) (adr w) t = Ret (adr ?r, t1)" "ctl t1 = ctl t"
    and r1: "cells t1 (?r + 1) = hdr (n - w - 1) True j" and h1: "cells t1 (k + 1) = hdr w True (endf False xs)"
    and P1: "\<And>t2. ctl t2 = ctl t \<Longrightarrow> cells t2 (?r + 1) = hdr (n - w - 1) True True \<Longrightarrow> cells t2 ?r = adr k \<Longrightarrow>
      (\<And>i. i \<noteq> ?r \<Longrightarrow> i \<noteq> ?r + 1 \<Longrightarrow> cells t2 i = cells t1 i) \<Longrightarrow>
      pool z k0 t2 (xs @ (w, True) # (n - w - 1, True) # ys) F \<and> same t t2 (pay k0 xs \<union> pay (k + 1 + n) ys)"
    using split_pool [OF P k no w] by blast
  have b: "?r + 3 < 2 ^ 61" "k + w + 3 < 2 ^ 61" "0 < w" using pool_hdr(6) [OF P] w k by simp_all
  obtain t2 where t2: "block_link_next (adr k) t1 = Ret (adr ?r, t2)" "ctl t2 = ctl t1" "cells t2 = (cells t1)(?r := adr k)"
    using block_link_next_cell [OF h1 b(3,2)] by blast
  define u1 u2 where "u1 = block_set_prev_free (adr ?r) t1" and "u2 = block_set_prev_free (adr ?r) t2"
  have u: "ctl u1 = ctl t" "ctl u2 = ctl t" using t1 t2 by (simp_all add: u1_def u2_def)
  have s2: "cells u2 = (cells t2)(?r + 1 := hdr (n - w - 1) True True)"
    unfolding u2_def by (rule cells_set(3)) (use r1 b in \<open>simp_all add: t2\<close>)
  have s1: "cells u1 = (cells t1)(?r + 1 := hdr (n - w - 1) True True)"
    unfolding u1_def by (rule cells_set(3)) (use r1 b in simp_all)
  have "cells u1 (k + 1) = hdr w True (endf False xs)" using h1 b by (simp add: s1)
  then obtain t3 where t3: "block_link_next (adr k) u1 = Ret (adr ?r, t3)"
    "ctl t3 = ctl u1" "cells t3 = (cells u1)(?r := adr k)"
    using block_link_next_cell [OF _ b(3,2)] by blast
  have "pool z k0 u2 (xs @ (w, True) # (n - w - 1, True) # ys) F \<and> same t u2 (pay k0 xs \<union> pay (k + 1 + n) ys)"
    by (rule P1) (simp_all add: t2 u s2)
  moreover have "pool z k0 t3 (xs @ (w, True) # (n - w - 1, True) # ys) F \<and> same t t3 (pay k0 xs \<union> pay (k + 1 + n) ys)"
    by (rule P1) (simp_all add: t3 u s1)
  ultimately show thesis using that t1(1) t2(1) t3(1) unfolding u1_def u2_def by blast
qed

lemma split_used:
  assumes P: "pool z k0 t (xs @ (n, False) # ys) F" and k: "k = k0 + span xs" and no: "(k, n) \<notin> F" and w: "3 \<le> w" "w + 4 \<le> n"
  obtains t1 t2 where "block_split (adr k) (adr w) t = Ret (adr (k + 1 + w), t1)"
    "t2 = block_set_prev_used (adr (k + 1 + w)) t1"
    "pool z k0 t2 (xs @ (w, False) # (n - w - 1, True) # ys) F"
    "same t t2 (pay k0 xs \<union> pay (k + 1 + n) ys)" "same t t2 {k + 2..k + w + 1}"
proof -
  let ?r = "k + 1 + w"
  obtain t1 j where t1: "block_split (adr k) (adr w) t = Ret (adr ?r, t1)" "ctl t1 = ctl t"
    and r1: "cells t1 (?r + 1) = hdr (n - w - 1) True j"
    and P1: "\<forall>t2. ctl t2 = ctl t \<longrightarrow> cells t2 (?r + 1) = hdr (n - w - 1) True False \<longrightarrow>
      (False \<longrightarrow> cells t2 ?r = adr k) \<longrightarrow> (\<forall>i. i \<noteq> ?r \<longrightarrow> i \<noteq> ?r + 1 \<longrightarrow> cells t2 i = cells t1 i) \<longrightarrow>
      pool z k0 t2 (xs @ (w, False) # (n - w - 1, True) # ys) F \<and> same t t2 (pay k0 xs \<union> pay (k + 1 + n) ys) \<and>
      (\<not> False \<longrightarrow> cells t2 ?r = cells t1 ?r \<longrightarrow> same t t2 {k + 2..k + w + 1})"
    using split_pool [OF P k no w] by (elim exE conjE) rule
  define t2 where "t2 = block_set_prev_used (adr ?r) t1"
  have "cells t2 = (cells t1)(?r + 1 := hdr (n - w - 1) True False)"
    unfolding t2_def by (rule cells_set(4)) (use r1 pool_hdr(6) [OF P] w k in simp_all)
  then show thesis using that [OF t1(1) t2_def] P1 [rule_format, of t2] t1(2) by (simp add: t2_def)
qed

text \<open>A block of \<open>n\<close> cells before \<open>ys\<close> cut down to \<open>w\<close>, when the rest is large enough to be a block.\<close>

definition cut :: "nat \<Rightarrow> nat \<Rightarrow> (nat \<times> bool) list \<Rightarrow> nat \<times> (nat \<times> bool) list" where
  "cut w n ys = (if w + 4 \<le> n then (w, (n - w - 1, True) # ys) else (n, ys))"

lemma others_cut:
  assumes "w + 4 \<le> n"
  shows "insert (k0 + span xs + 1 + w, n - w - 1) (others k0 xs n ys) = others k0 xs w ((n - w - 1, True) # ys)"
    and "insert (k0 + span xs, w) (others k0 xs n ys) = others k0 (xs @ [(w, True)]) (n - w - 1) ys"
    and "others k0 xs n ys = others k0 (xs @ [(w, False)]) (n - w - 1) ys"
  using assms by (auto simp: others_def frees_append ac_simps)

lemma trim_free_pool:
  assumes P: "pool z k0 t (xs @ (n, True) # ys) (others k0 xs n ys)" and w: "3 \<le> w" "w < 2 ^ 29"
    and c: "cut w n ys = (n', ys')"
  shows "\<exists>t'. block_trim_free (adr (k0 + span xs)) (adr w) t = Ret t' \<and>
    pool z k0 t' (xs @ (n', True) # ys') (others k0 xs n' ys') \<and> same t t' (pay k0 xs \<union> pay (k0 + span xs + 1 + n) ys)"
proof (cases "w + 4 \<le> n")
  case False
  then show ?thesis
    using c P can_split_pool [OF P w(2)] pool_size(2) [OF P] by (simp add: block_trim_free_def cut_def same_def)
next
  case True
  let ?k = "k0 + span xs" and ?r = "k0 + span xs + 1 + w"
  have c': "n' = w" "ys' = (n - w - 1, True) # ys" using c True by (auto simp: cut_def)
  obtain t1 t2 t3 where t1: "block_split (adr ?k) (adr w) t = Ret (adr ?r, t1)"
    and t2: "block_link_next (adr ?k) t1 = Ret (adr ?r, t2)"
    and P2: "pool z k0 (block_set_prev_free (adr ?r) t2) (xs @ (w, True) # (n - w - 1, True) # ys) (others k0 xs n ys)"
    and s2: "same t (block_set_prev_free (adr ?r) t2) (pay k0 xs \<union> pay (?k + 1 + n) ys)"
    using split_free [OF P refl others_notin w(1) True] by metis
  have P2': "pool z k0 (block_set_prev_free (adr ?r) t2) ((xs @ [(w, True)]) @ (n - w - 1, True) # ys) (others k0 xs n ys)"
    using P2 by simp
  have r: "?r = k0 + span (xs @ [(w, True)])" by simp
  have no: "(?r, n - w - 1) \<notin> others k0 xs n ys"
    using frees_bound [of ?r "n - w - 1" k0 xs] frees_bound [of ?r "n - w - 1" "?k + 1 + n" ys] True
    by (auto simp: others_def)
  obtain t4 where t4: "block_insert (adr ?r) (block_set_prev_free (adr ?r) t2) = Ret t4"
    and P4: "pool z k0 t4 (xs @ (w, True) # (n - w - 1, True) # ys) (insert (?r, n - w - 1) (others k0 xs n ys))"
    and s4: "same (block_set_prev_free (adr ?r) t2) t4 (pay k0 (xs @ (w, True) # (n - w - 1, True) # ys))"
    using block_insert_pool [OF P2' r no] by auto
  have "block_trim_free (adr ?k) (adr w) t = Ret t4"
    using True can_split_pool [OF P w(2)] pool_size(2) [OF P] t1 t2 t4 by (simp add: block_trim_free_def)
  moreover have "same t t4 (pay k0 xs \<union> pay (?k + 1 + n) ys)"
    by (rule same_trans [OF s2 s4]) (use True in \<open>auto simp: pay_append ac_simps\<close>)
  ultimately show ?thesis using P4 others_cut(1) [OF True, of k0 xs ys] c' by auto
qed

lemma trim_free_leading_pool:
  assumes P: "pool z k0 t (xs @ (n, True) # ys) (others k0 xs n ys)" and w: "3 \<le> w" "w + 5 \<le> n"
  shows "\<exists>t'. block_trim_free_leading (adr (k0 + span xs)) (adr (w + 1)) t = Ret (adr (k0 + span (xs @ [(w, True)])), t') \<and>
    pool z k0 t' ((xs @ [(w, True)]) @ (n - w - 1, True) # ys) (others k0 (xs @ [(w, True)]) (n - w - 1) ys) \<and>
    same t t' (pay k0 xs \<union> pay (k0 + span xs + 1 + n) ys)"
proof -
  let ?k = "k0 + span xs" and ?r = "k0 + span xs + 1 + w"
  have w4: "w + 4 \<le> n" using w by simp
  obtain t1 t2 t3 where t1: "block_split (adr ?k) (adr w) t = Ret (adr ?r, t1)"
    and t3: "block_link_next (adr ?k) (block_set_prev_free (adr ?r) t1) = Ret (adr ?r, t3)"
    and P3: "pool z k0 t3 (xs @ (w, True) # (n - w - 1, True) # ys) (others k0 xs n ys)"
    and s3: "same t t3 (pay k0 xs \<union> pay (?k + 1 + n) ys)"
    using split_free [OF P refl others_notin w(1) w4] by metis
  obtain t4 where t4: "block_insert (adr ?k) t3 = Ret t4"
    and P4: "pool z k0 t4 (xs @ (w, True) # (n - w - 1, True) # ys) (insert (?k, w) (others k0 xs n ys))"
    and s4: "same t3 t4 (pay k0 (xs @ (w, True) # (n - w - 1, True) # ys))"
    using block_insert_pool [OF P3 refl others_notin] by auto
  have "w + 1 < 2 ^ 29" using pool_hdr(4) [OF P] w by simp
  moreover have "adr (w + 1) - 8 = adr w" by (simp add: adr_def)
  ultimately have "block_trim_free_leading (adr ?k) (adr (w + 1)) t = Ret (adr ?r, t4)"
    using w can_split_pool [OF P, of "w + 1"] t1 t3 t4 by (simp add: block_trim_free_leading_def)
  moreover have "same t t4 (pay k0 xs \<union> pay (?k + 1 + n) ys)"
    by (rule same_trans [OF s3 s4]) (use w in \<open>auto simp: pay_append ac_simps\<close>)
  ultimately show ?thesis using P4 others_cut(2) [OF w4, of k0 xs ys] by (simp add: add.assoc)
qed

lemma trim_used_pool:
  assumes P: "pool z k0 t (xs @ (n, False) # ys) (others k0 xs n ys)" and w: "3 \<le> w" "w < 2 ^ 29"
    and c: "(if w + 4 \<le> n then (let (m, vs) = join_next (n - w - 1) ys in (w, (m, True) # vs)) else (n, ys)) = (n', ys')"
  shows "\<exists>t'. block_trim_used (adr (k0 + span xs)) (adr w) t = Ret t' \<and>
    pool z k0 t' (xs @ (n', False) # ys') (others k0 xs n' ys') \<and>
    same t t' (pay k0 xs \<union> {k0 + span xs + 2..k0 + span xs + n' + 1} \<union> pay (k0 + span xs + 1 + n) ys)"
proof (cases "w + 4 \<le> n")
  case False
  then show ?thesis
    using c P can_split_pool [OF P w(2)] pool_size(2) [OF P] by (simp add: block_trim_used_def same_def)
next
  case True
  let ?k = "k0 + span xs" and ?r = "k0 + span xs + 1 + w" and ?x = "xs @ [(w, False)]"
  obtain m vs where jn: "join_next (n - w - 1) ys = (m, vs)" by (cases "join_next (n - w - 1) ys")
  have c': "n' = w" "ys' = (m, True) # vs" using c True jn by auto
  obtain t1 t2 where t1: "block_split (adr ?k) (adr w) t = Ret (adr ?r, t1)" and t2: "t2 = block_set_prev_used (adr ?r) t1"
    and P2': "pool z k0 t2 (xs @ (w, False) # (n - w - 1, True) # ys) (others k0 xs n ys)"
    and sm2: "same t t2 (pay k0 xs \<union> pay (?k + 1 + n) ys)" "same t t2 {?k + 2..?k + w + 1}"
    using split_used [OF P refl others_notin w(1) True] .
  have P2: "pool z k0 t2 (?x @ (n - w - 1, True) # ys) (others k0 ?x (n - w - 1) ys)"
    using P2' others_cut(3) [OF True, of k0 xs ys] by simp
  have r: "k0 + span ?x = ?r" by simp
  obtain t3 where t3: "block_merge_next (adr ?r) t2 = Ret (adr ?r, t3)"
    and P3: "pool z k0 t3 (?x @ (m, True) # vs) (others k0 ?x m vs)"
    and sm3: "same t2 t3 (pay k0 ?x \<union> pay (?r + 1 + (n - w - 1)) ys)"
    using merge_next_pool [OF P2 jn] unfolding r by blast
  obtain t4 where t4: "block_insert (adr ?r) t3 = Ret t4"
    and P4: "pool z k0 t4 (?x @ (m, True) # vs) (insert (?r, m) (others k0 ?x m vs))"
    and sm4: "same t3 t4 (pay k0 (?x @ (m, True) # vs))"
    using block_insert_pool [OF P3 r [symmetric]] others_notin [of k0 ?x m m vs] unfolding r by blast
  have "block_trim_used (adr ?k) (adr w) t = Ret t4"
    using True can_split_pool [OF P w(2)] pool_size(2) [OF P] t1 t3 t4 by (simp add: block_trim_used_def t2)
  moreover have "insert (?r, m) (others k0 ?x m vs) = others k0 xs w ((m, True) # vs)"
    by (auto simp: others_def frees_append add.assoc)
  moreover have "same t t4 (pay k0 xs \<union> {?k + 2..?k + w + 1} \<union> pay (?k + 1 + n) ys)"
  proof -
    have e: "?r + 1 + (n - w - 1) = ?k + 1 + n" using True by simp
    have "pay (?k + 1 + n) ys = pay (?r + 1 + m) vs" using join_next_pay [OF jn, of ?r] unfolding e by (rule sym)
    then have "same t2 t4 (pay k0 xs \<union> {?k + 2..?k + w + 1} \<union> pay (?k + 1 + n) ys)"
      by (intro same_trans [OF sm3 [unfolded e] sm4]) (auto simp: pay_append add.assoc)
    then show ?thesis using sm2 unfolding same_def by (metis UnE UnI1 UnI2)
  qed
  ultimately show ?thesis using P4 c' by simp
qed

end
