(* ===== verification/Vm_Tlsf_Heap.thy ===== *)
theory Vm_Tlsf_Heap
  imports Vm_Tlsf_Pool
begin

text \<open>
  The interface of the allocator.  \<open>heap_inv z k0 t bs\<close> is its invariant: the pool is tiled by \<open>bs\<close>, no two
  neighbours are free, and the free lists hold exactly the free blocks.  Each operation of the interface keeps
  it and returns what it promises.
\<close>

section \<open>The invariant\<close>

fun coalesced :: "bool \<Rightarrow> (nat \<times> bool) list \<Rightarrow> bool" where
  "coalesced pf [] = True"
| "coalesced pf ((n, f) # bs) = (\<not> (pf \<and> f) \<and> coalesced f bs)"

definition heap_inv :: "nat \<Rightarrow> nat \<Rightarrow> tlsf \<Rightarrow> (nat \<times> bool) list \<Rightarrow> bool" where
  "heap_inv z k0 t bs \<longleftrightarrow> pool z k0 t bs (frees k0 bs) \<and> coalesced False bs"

lemma coalesced_append: "coalesced pf (xs @ ys) \<longleftrightarrow> coalesced pf xs \<and> coalesced (endf pf xs) ys"
  by (induction pf xs rule: coalesced.induct) auto

lemma coalesced_False: "coalesced True ys \<Longrightarrow> coalesced False ys"
  by (cases ys) auto

lemma frees_others:
  "frees k0 (xs @ (n, False) # ys) = others k0 xs n ys"
  "frees k0 (xs @ (n, True) # ys) = insert (k0 + span xs, n) (others k0 xs n ys)"
  by (auto simp: others_def frees_append)

section \<open>Requests\<close>

text \<open>The cells a request of \<open>s\<close> bytes needs, 0 when it is refused; the addition wraps.\<close>

definition req :: "nat \<Rightarrow> nat" where
  "req s = (if s = 0 then 0 else (let a = (s + 7) mod 2 ^ 64 div 8 in if 8 * a < 2 ^ 32 then max a 3 else 0))"

lemma req_bound: "req s < 2 ^ 29" "req s \<noteq> 0 \<Longrightarrow> 3 \<le> req s"
  by (auto simp: req_def Let_def split: if_splits)

lemma req_ge: "s \<le> 2 ^ 64 - 8 \<Longrightarrow> req s \<noteq> 0 \<Longrightarrow> s \<le> 8 * req s"
  by (auto simp: req_def Let_def split: if_splits)

lemma and_not_7: "(v :: u64) AND NOT 7 = adr (unat v div 8)"
proof -
  have "v AND NOT 7 = v AND NOT (2 ^ 3 - 1)" by simp
  then have "unat (v AND NOT 7) = unat v div 8 * 8"
    using and_not_mask_unat [of 3 v] by simp
  moreover have "unat v < 2 ^ LENGTH(64)" by (rule unsigned_less)
  then have "unat v div 8 < 2 ^ 61" by (simp add: div_less_iff_less_mult)
  ultimately have "unat (v AND NOT 7) = unat (adr (unat v div 8))" by (simp only: unat_adr mult.commute)
  then show ?thesis by (simp only: word_unat_eq_iff)
qed

lemma adjust_req: "adjust_request_size sz 8 = Ret (adr (req (unat sz)))"
proof (cases "sz = 0")
  case True
  then show ?thesis by (simp add: adjust_request_size_def req_def)
next
  case False
  define a where "a = (unat sz + 7) mod 2 ^ 64 div 8"
  have u: "unat (sz + 7) = (unat sz + 7) mod 2 ^ 64" by (simp add: unat_word_ariths)
  have al: "align_up sz 8 = Ret (adr a)"
    using and_not_7 [of "sz + 7"] by (simp add: align_up_def u a_def)
  have a: "a < 2 ^ 61" unfolding a_def by (simp add: div_less_iff_less_mult)
  have "adr a < 0x100000000 \<longleftrightarrow> 8 * a < 2 ^ 32" using a by (simp add: word_less_nat_alt unat_adr)
  moreover have "tlsf_max (adr a) 24 = adr (max a 3)" 
  proof -
    have "24 = adr 3" by (simp add: adr_def)
    then have "tlsf_max (adr a) 24 = (if adr 3 < adr a then adr a else adr 3)" by (simp only: tlsf_max_def)
    moreover have "adr 3 < adr a \<longleftrightarrow> 3 < a" using a adr_less [of 3 a] by simp
    ultimately show ?thesis by (simp add: max_def)
  qed
  moreover have "req (unat sz) = (if 8 * a < 2 ^ 32 then max a 3 else 0)"
    using False by (simp add: req_def a_def Let_def unat_eq_0)
  ultimately show ?thesis using False by (simp add: adjust_request_size_def al)
qed

section \<open>Freeing\<close>

lemma block_from_adr: "block_from_ptr (adr (k + 2)) = adr k"
  by (simp add: block_from_ptr_def adr_def)

lemma block_to_adr: "block_to_ptr (adr k) = adr (k + 2)"
  by (simp add: block_to_ptr_def adr_def)

lemma coalesced_join_prev:
  "coalesced False (xs @ (n, f) # ys) \<Longrightarrow> join_prev xs n = (xs', n') \<Longrightarrow> coalesced f ys \<and> coalesced False xs' \<and> \<not> endf False xs'"
proof -
  assume c: "coalesced False (xs @ (n, f) # ys)" and j: "join_prev xs n = (xs', n')"
  have cx: "coalesced False xs" "coalesced f ys" using c by (simp_all add: coalesced_append)
  show "coalesced f ys \<and> coalesced False xs' \<and> \<not> endf False xs'"
  proof (cases "endf False xs")
    case True
    then obtain us m where "xs = us @ [(m, True)]" using endf_snoc by blast
    then show ?thesis using j cx by (auto simp: join_prev_def coalesced_append)
  qed (use j cx in \<open>auto simp: join_prev_def\<close>)
qed

lemma coalesced_join_next: "coalesced f ys \<Longrightarrow> join_next n ys = (n', ys') \<Longrightarrow> coalesced True ys'"
  by (auto simp: join_next_def split: list.splits prod.splits bool.splits) 

text \<open>Freeing a block merges it with the free neighbours.\<close>

definition free_blocks :: "(nat \<times> bool) list \<Rightarrow> nat \<Rightarrow> (nat \<times> bool) list \<Rightarrow> (nat \<times> bool) list" where
  "free_blocks xs n ys = (let (xs, n) = join_prev xs n; (n, ys) = join_next n ys in xs @ (n, True) # ys)"

lemma tlsf_free_ok:
  assumes H: "heap_inv z k0 t (xs @ (n, False) # ys)"
  shows "\<exists>t'. tlsf_free (adr (k0 + span xs + 2)) t = Ret t' \<and> heap_inv z k0 t' (free_blocks xs n ys) \<and>
    same t t' (pay k0 xs \<union> pay (k0 + span xs + 1 + n) ys)"
proof -
  let ?k = "k0 + span xs"
  have P: "pool z k0 t (xs @ (n, False) # ys) (others k0 xs n ys)" and co: "coalesced False (xs @ (n, False) # ys)"
    using H by (simp_all add: heap_inv_def frees_others)
  obtain xs' n1 where j1: "join_prev xs n = (xs', n1)" by (cases "join_prev xs n")
  obtain n2 ys' where j2: "join_next n1 ys = (n2, ys')" by (cases "join_next n1 ys")
  obtain t1 where t1: "block_mark_as_free (adr ?k) t = Ret t1"
    and P1: "pool z k0 t1 (xs @ (n, True) # ys) (others k0 xs n ys)" and s1: "same t t1 (pay k0 xs \<union> pay (?k + 1 + n) ys)"
    using mark_as_free_pool [OF P refl] by blast
  obtain t2 where t2: "block_merge_prev (adr ?k) t1 = Ret (adr (k0 + span xs'), t2)"
    and P2: "pool z k0 t2 (xs' @ (n1, True) # ys) (others k0 xs' n1 ys)" and s2: "same t1 t2 (pay k0 xs \<union> pay (?k + 1 + n) ys)"
    using merge_prev_pool [OF P1 j1] by blast
  obtain t3 where t3: "block_merge_next (adr (k0 + span xs')) t2 = Ret (adr (k0 + span xs'), t3)"
    and P3: "pool z k0 t3 (xs' @ (n2, True) # ys') (others k0 xs' n2 ys')"
    and s3: "same t2 t3 (pay k0 xs' \<union> pay (k0 + span xs' + 1 + n1) ys)"
    using merge_next_pool [OF P2 j2] by blast
  obtain t4 where t4: "block_insert (adr (k0 + span xs')) t3 = Ret t4"
    and P4: "pool z k0 t4 (xs' @ (n2, True) # ys') (insert (k0 + span xs', n2) (others k0 xs' n2 ys'))"
    and s4: "same t3 t4 (pay k0 (xs' @ (n2, True) # ys'))"
    using block_insert_pool [OF P3 refl others_notin] by blast
  have "adr (?k + 2) \<noteq> 0" using pool_hdr(6) [OF P] by (simp add: adr_eq_0)
  then have "tlsf_free (adr (?k + 2)) t = Ret t4"
    using pool_size(2) [OF P] t1 t2 t3 t4 unfolding tlsf_free_def by (simp only: block_from_adr) simp
  moreover have "heap_inv z k0 t4 (xs' @ (n2, True) # ys')"
    using P4 coalesced_join_prev [OF co j1] coalesced_join_next [OF _ j2]
    by (auto simp: heap_inv_def frees_others coalesced_append)
  moreover have "same t t4 (pay k0 xs \<union> pay (?k + 1 + n) ys)"
  proof -
    have x: "pay k0 xs' = pay k0 xs" "k0 + span xs' + 1 + n1 = ?k + 1 + n"
      using j1 endf_snoc [of xs] by (auto simp: join_prev_def pay_append split: if_splits)
    have y: "pay (k0 + span xs' + 1 + n2) ys' = pay (?k + 1 + n) ys"
      using join_next_pay [OF j2, of "k0 + span xs'"] unfolding x(2) .
    have "same t2 t4 (pay k0 xs \<union> pay (?k + 1 + n) ys)"
      by (rule same_trans [OF s3 [unfolded x] s4]) (use x y in \<open>auto simp: pay_append add.assoc\<close>)
    moreover have "same t t2 (pay k0 xs \<union> pay (?k + 1 + n) ys)"
      by (rule same_trans [OF s1 s2]) auto
    ultimately show ?thesis by (auto intro: same_trans)
  qed
  ultimately show ?thesis by (auto simp: free_blocks_def j1 j2)
qed

section \<open>Allocating\<close>

lemma locate_free_ok:
  assumes P: "pool z k0 t bs (frees k0 bs)" and w: "3 \<le> w" "w < 2 ^ 29"
  obtains (none) "block_locate_free (adr w) t = Ret (0, t)" "\<And>k n. (k, n) \<in> frees k0 bs \<Longrightarrow> 8 * n < 8 * w + w div 4"
    | (some) xs n ys t' where "bs = xs @ (n, True) # ys" "w \<le> n"
      "block_locate_free (adr w) t = Ret (adr (k0 + span xs), t')" "pool z k0 t' bs (others k0 xs n ys)" "same t t' (pay k0 bs)"
proof -
  note N = none and S = some
  obtain fl sl where ms: "mapping_search (adr w) = (fl, sl)" by (cases "mapping_search (adr w)")
  note cl = mapping_search_class [OF ms w(2)]
  have nz: "adr w \<noteq> 0" using w by (simp add: adr_eq_0)
  have L: "free_lists z t (frees k0 bs)" using P by (simp add: pool_def)
  have n29: "n < 2 ^ 29" if "(k, n) \<in> frees k0 bs" for k n
    using that L by (auto simp: free_lists_def blocks_ok_def)
  have up: "8 * n < 8 * w + w div 4"
    if kn: "(k, n) \<in> frees k0 bs" and lt: "32 * fst (class_of n) + snd (class_of n) < 32 * fl + sl" for k n
  proof -
    obtain i j where ij: "class_of n = (i, j)" by (cases "class_of n")
    have "8 * n < class_lo (Suc (32 * i + j))"
      using mapping_insert_class(3) [of "adr n" i j] ij n29 [OF kn] by (simp add: class_of_def unat_adr)
    also have "\<dots> \<le> class_lo (32 * fl + sl)" using lt ij by (simp add: class_lo_le)
    finally show ?thesis using cl(3) by simp
  qed
  show thesis
  proof (cases "fl < 25")
    case False
    then have "block_locate_free (adr w) t = Ret (0, t)" using nz by (simp add: block_locate_free_def ms)
    moreover have "8 * n < 8 * w + w div 4" if kn: "(k, n) \<in> frees k0 bs" for k n
      using class_of_range [OF n29 [OF kn]] False by (intro up [OF kn]) (simp add: in_range_def)
    ultimately show thesis by (rule N)
  next
    case True
    then have r: "in_range fl sl" using cl(1) by (simp add: in_range_def)
    from L r show thesis
    proof (cases rule: search_suitable_block_ok)
      case none
      then have "block_locate_free (adr w) t = Ret (0, t)" using nz True by (simp add: block_locate_free_def ms)
      then show thesis using up none(2) by (intro N) blast+
    next
      case (some k n fl' sl')
      obtain xs ys where bs: "bs = xs @ (n, True) # ys" and k: "k = k0 + span xs" using frees_split [OF some(2)] .
      have "class_lo (32 * fl + sl) \<le> class_lo (32 * fl' + sl')" using some(4) by (simp add: class_lo_le)
      also have "\<dots> \<le> 8 * n"
        using mapping_insert_class(2) [of "adr n" fl' sl'] some(3) n29 [OF some(2)] by (simp add: class_of_def unat_adr)
      finally have wn: "w \<le> n" using cl(2) by simp
      obtain t' where t': "remove_free_block (adr k) fl' sl' t = Ret t'"
        and P': "pool z k0 t' bs (frees k0 bs - {(k, n)})" and s: "same t t' (pay k0 bs)"
        using remove_free_pool [OF P some(2,3)] by blast
      have F: "frees k0 bs - {(k, n)} = others k0 xs n ys"
        using others_notin [of k0 xs n n ys] by (auto simp: bs frees_others k)
      have sz: "block_size t (adr k) = adr n" "adr k \<noteq> 0"
        using pool_size(1,5) [of z k0 t xs n True ys] P by (simp_all add: bs k)
      then have "\<not> block_size t (adr k) < adr w" using wn n29 [OF some(2)] w by (simp add: adr_less)
      then have "block_locate_free (adr w) t = Ret (adr k, t')"
        using nz True some(1) sz t' by (simp add: block_locate_free_def ms)
      then show thesis using S bs wn P' s k F by auto
    qed
  qed
qed

lemma prepare_used_ok:
  assumes P: "pool z k0 t (xs @ (n, True) # ys) (others k0 xs n ys)" and co: "coalesced False xs" "coalesced True ys"
    and w: "3 \<le> w" "w < 2 ^ 29" and c: "cut w n ys = (n', ys')"
  shows "\<exists>t'. block_prepare_used (adr (k0 + span xs)) (adr w) t = Ret (adr (k0 + span xs + 2), t') \<and>
    heap_inv z k0 t' (xs @ (n', False) # ys') \<and> same t t' (pay k0 xs \<union> pay (k0 + span xs + 1 + n) ys)"
proof -
  let ?k = "k0 + span xs"
  obtain t1 where t1: "block_trim_free (adr ?k) (adr w) t = Ret t1"
    and P1: "pool z k0 t1 (xs @ (n', True) # ys') (others k0 xs n' ys')" and s1: "same t t1 (pay k0 xs \<union> pay (?k + 1 + n) ys)"
    using trim_free_pool [OF P w c] by blast
  obtain t2 where t2: "block_mark_as_used (adr ?k) t1 = Ret t2"
    and P2: "pool z k0 t2 (xs @ (n', False) # ys') (others k0 xs n' ys')" and s2: "same t1 t2 (pay k0 xs \<union> pay (?k + 1 + n') ys')"
    using mark_as_used_pool [OF P1 refl others_notin] by blast
  have "adr w \<noteq> 0" using w by (simp add: adr_eq_0)
  then have "block_prepare_used (adr ?k) (adr w) t = Ret (adr (?k + 2), t2)"
    using pool_size(5) [OF P] t1 t2 by (simp add: block_prepare_used_def block_to_adr)
  moreover have "coalesced False ys'" using c co(2) by (auto simp: cut_def coalesced_False split: if_splits)
  then have "heap_inv z k0 t2 (xs @ (n', False) # ys')"
    using P2 co by (simp add: heap_inv_def frees_others coalesced_append)
  moreover have "pay (?k + 1 + n) ys \<subseteq> pay (?k + 1 + n') ys'"
    using c by (auto simp: cut_def add.assoc split: if_splits)
  then have "same t t2 (pay k0 xs \<union> pay (?k + 1 + n) ys)" by (intro same_trans [OF s1 s2]) auto
  ultimately show ?thesis by blast
qed

lemma tlsf_malloc_ok:
  assumes H: "heap_inv z k0 t bs" and w: "w = req (unat sz)"
  obtains (none) "tlsf_malloc sz t = Ret (0, t)" "w \<noteq> 0 \<Longrightarrow> (\<forall>(k, n) \<in> frees k0 bs. 8 * n < 8 * w + w div 4)"
    | (some) xs n ys n' ys' t' where "w \<noteq> 0" "bs = xs @ (n, True) # ys" "w \<le> n" "cut w n ys = (n', ys')"
      "tlsf_malloc sz t = Ret (adr (k0 + span xs + 2), t')" "heap_inv z k0 t' (xs @ (n', False) # ys')"
      "same t t' (pay k0 bs)"
proof -
  note N = none and S = some
  show thesis
  proof (cases "w = 0")
    case True
    then have "tlsf_malloc sz t = Ret (0, t)"
      using adjust_req [of sz] w by (simp add: tlsf_malloc_def block_locate_free_def block_prepare_used_def)
    then show thesis using N True by simp
  next
    case False
    have b: "3 \<le> w" "w < 2 ^ 29" using req_bound False w by simp_all
    have P: "pool z k0 t bs (frees k0 bs)" and co: "coalesced False bs" using H by (simp_all add: heap_inv_def)
    from P b show thesis
    proof (cases rule: locate_free_ok)
      case none
      then have "tlsf_malloc sz t = Ret (0, t)"
        using adjust_req [of sz] w by (simp add: tlsf_malloc_def block_prepare_used_def)
      then show thesis using N none(2) by blast
    next
      case (some xs n ys t1)
      obtain n' ys' where c: "cut w n ys = (n', ys')" by (cases "cut w n ys")
      have co': "coalesced False xs" "coalesced True ys" using co some(1) by (auto simp: coalesced_append)
      obtain t' where t': "block_prepare_used (adr (k0 + span xs)) (adr w) t1 = Ret (adr (k0 + span xs + 2), t')"
        "heap_inv z k0 t' (xs @ (n', False) # ys')" and s: "same t1 t' (pay k0 xs \<union> pay (k0 + span xs + 1 + n) ys)"
        using prepare_used_ok [OF some(4) [unfolded some(1)] co' b c] by blast
      have "tlsf_malloc sz t = Ret (adr (k0 + span xs + 2), t')"
        using adjust_req [of sz] w some(3) t'(1) by (simp add: tlsf_malloc_def)
      moreover have "same t t' (pay k0 bs)" by (rule same_trans [OF some(5) s]) (auto simp: some(1) pay_append add.assoc)
      ultimately show thesis using S False some(1,2) c t'(2) by blast
    qed
  qed
qed

section \<open>Creation\<close>

lemma control_construct_ok:
  assumes z: "0 < z" "z + 3 < 2 ^ 61"
  shows "free_lists z (control_construct (adr z) m) {}"
proof -
  let ?t = "control_construct (adr z) m"
  have "shape_ok ?t" by (simp add: control_construct_def shape_ok_def Let_def)
  moreover have "blocks_ok z {}" using z by (simp add: blocks_ok_def sep_def)
  moreover have "slot_ok z ?t {} fl sl []" if "in_range fl sl" for fl sl
    using that by (simp add: slot_ok_def control_construct_def Let_def in_range_def)
  ultimately show ?thesis by (auto simp: free_lists_def control_construct_def Let_def)
qed

lemma align_down_8: "align_down x 8 = Ret (adr (unat x div 8))"
proof -
  have split: "(x AND y) + (x AND NOT y) = x" for y
  proof -
    have "(x AND y) + (x AND NOT y) = (x AND y) OR (x AND NOT y)"
      by (rule disjunctive_add) (simp add: bit_and_iff bit_not_iff)
    also have "\<dots> = x" by (rule bit_word_eqI) (auto simp: bit_and_iff bit_or_iff bit_not_iff)
    finally show ?thesis .
  qed
  have "x - (x AND 7) = x AND NOT 7" using split [of 7] by (metis add_diff_cancel_left')
  then show ?thesis using and_not_7 [of x] by (simp add: align_down_def)
qed

lemma adr_mod [simp]: "adr k mod 8 = 0"
proof -
  have "adr k mod 8 = take_bit 3 (adr k)" by (simp add: take_bit_eq_mod)
  also have "\<dots> = 0" by (rule bit_word_eqI) (simp add: bit_take_bit_iff bit_adr)
  finally show ?thesis .
qed

lemma add_pool_ok:
  assumes L: "free_lists z t {}" and n: "n = (unat (bytes - 16)) div 8" "3 \<le> n" "n < 2 ^ 29" and z: "0 < z" "z + n + 830 < 2 ^ 61"
  shows "\<exists>t'. tlsf_add_pool (adr (z + 817)) bytes t = Ret (adr (z + 817), t') \<and> heap_inv z (z + 816) t' [(n, True)]"
proof -
  define k where "k = z + 816"
  have g: "geo z k [(n, True)]" using n z by (simp add: geo_def k_def)
  have b: "offset_to_block (adr (z + 817)) (- 8) = adr k" by (simp add: offset_to_block_def adr_def k_def)
  have bd: "k + 3 < 2 ^ 61" "k + n + 3 < 2 ^ 61" "k + 1 + n + 3 < 2 ^ 61" using z by (simp_all add: k_def)
  define t1 where "t1 = block_set_size (adr k) (adr n) t"
  obtain F J where c1: "cells t1 = (cells t)(k + 1 := hdr n F J)"
    using cells_set_size [OF bd(1)] unfolding t1_def by blast
  define t2 where "t2 = block_set_prev_used (adr k) (block_set_free (adr k) t1)"
  have "cells (block_set_free (adr k) t1) = (cells t1)(k + 1 := hdr n True J)"
    using bd by (intro cells_set(1)) (simp_all add: c1)
  then have c2: "cells t2 = (cells t)(k + 1 := hdr n True False)"
    unfolding t2_def using bd by (subst cells_set(4)) (simp_all add: c1)
  have L2: "free_lists z t2 {}" by (rule free_lists_cong [OF L]) (simp_all add: t2_def t1_def link_cells_def)
  obtain fl sl where cl: "class_of n = (fl, sl)" by (cases "class_of n")
  obtain t3 where t3: "insert_free_block (adr k) fl sl t2 = Ret t3" and L3: "free_lists z t3 {(k, n)}"
    and c3: "\<forall>i. i \<notin> link_cells (insert z (insert k {})) \<longrightarrow> cells t3 i = cells t2 i"
    using insert_free_block_ok [OF L2 geo_blocks_ok [OF g] _ cl] by auto
  have "block_size t2 (adr k) = adr n" using bd by (intro block_hdr(2)) (simp_all add: c2)
  then have ins: "block_insert (adr k) t2 = Ret t3" using t3 cl by (simp add: block_insert_def class_of_def [symmetric])
  have h3: "cells t3 (k + 1) = hdr n True False" using c3 by (simp add: link_cells_def c2 k_def)
  obtain t4 where t4: "block_link_next (adr k) t3 = Ret (adr (k + 1 + n), t4)" "ctl t4 = ctl t3"
    and c4: "cells t4 = (cells t3)(k + 1 + n := adr k)"
    using block_link_next_cell [OF h3 _ bd(2)] n by auto
  define t5 where "t5 = block_set_size (adr (k + 1 + n)) (adr 0) t4"
  obtain F' J' where c5: "cells t5 = (cells t4)(k + 1 + n + 1 := hdr 0 F' J')"
    using cells_set_size [OF bd(3)] unfolding t5_def by blast
  define t6 where "t6 = block_set_prev_free (adr (k + 1 + n)) (block_set_used (adr (k + 1 + n)) t5)"
  have "cells (block_set_used (adr (k + 1 + n)) t5) = (cells t5)(k + 1 + n + 1 := hdr 0 False J')"
    using bd by (intro cells_set(2)) (simp_all add: c5)
  then have c6: "cells t6 = (cells t4)(k + 1 + n + 1 := hdr 0 False True)"
    unfolding t6_def using bd by (subst cells_set(3)) (simp_all add: c5)
  have "seg (cells t6) k False ([(n, True)] @ [(0, False)])"
    using h3 n(2) by (simp add: c6 c4)
  moreover have "free_lists z t6 {(k, n)}"
  proof (rule free_lists_cong [OF L3])
    show "ctl t6 = ctl t3" using t4 by (simp add: t6_def t5_def)
    show "cells t6 i = cells t3 i" if "i \<in> link_cells (fst ` {(k, n)})" for i
      using that n(2) by (auto simp: c6 c4 link_cells_def)
  qed
  ultimately have "heap_inv z k t6 [(n, True)]" using g by (simp add: heap_inv_def pool_def)
  moreover have "tlsf_add_pool (adr (z + 817)) bytes t = Ret (adr (z + 817), t6)"
  proof -
    have "\<not> adr n < 24" "\<not> 0x100000000 < adr n" using n by (simp_all add: word_less_nat_alt unat_adr)
    then show ?thesis
      unfolding tlsf_add_pool_def Let_def
      using align_down_8 [of "bytes - 16"] ins t4(1)
      by (simp only: b) (simp add: n(1) [symmetric] t1_def [symmetric] t2_def [symmetric] t6_def t5_def del: One_nat_def)
  qed
  ultimately show ?thesis by (simp add: k_def)
qed

lemma tlsf_create_with_pool_ok:
  assumes n: "n = unat (bytes - 6552) div 8" "3 \<le> n" "n < 2 ^ 29" and z: "0 < z" "z + n + 830 < 2 ^ 61"
  shows "\<exists>t. tlsf_create_with_pool (adr z) bytes m = Ret (Some t) \<and> heap_inv z (z + 816) t [(n, True)]"
proof -
  have "adr z + 6536 = adr (z + 817)" by (simp add: adr_def)
  moreover have "bytes - 6536 - 16 = bytes - 6552" by simp
  moreover have "free_lists z (control_construct (adr z) m) {}" using z by (intro control_construct_ok) simp_all
  ultimately show ?thesis
    using add_pool_ok [of z "control_construct (adr z) m" n "bytes - 6536"] n z
    by (auto simp: tlsf_create_with_pool_def tlsf_create_def)
qed

section \<open>Resizing\<close>

text \<open>Writing to the payload of used blocks does not touch the heap.\<close>

lemma seg_pay_cong:
  "large bs \<Longrightarrow> (\<And>i. k < i \<Longrightarrow> i \<notin> pay k bs \<Longrightarrow> c' i = c i) \<Longrightarrow>
    seg c' k pf (bs @ [(0, False)]) = seg c k pf (bs @ [(0, False)])"
proof (induction bs arbitrary: k pf)
  case (Cons b bs)
  obtain n f where b: "b = (n, f)" by (cases b)
  have n: "3 \<le> n" "large bs" using Cons.prems(1) b by simp_all
  have "c' (k + 1) = c (k + 1)"
    using Cons.prems(2) [of "k + 1"] pay_bound [of "k + 1" "k + 1 + n" bs] by (cases f) (auto simp: b)
  moreover have "f \<Longrightarrow> c' (k + 1 + n) = c (k + 1 + n)"
    using Cons.prems(2) [of "k + 1 + n"] pay_bound [of "k + 1 + n" "k + 1 + n" bs] by (cases f) (auto simp: b)
  moreover have "seg c' (k + 1 + n) f (bs @ [(0, False)]) = seg c (k + 1 + n) f (bs @ [(0, False)])"
    by (rule Cons.IH [OF n(2)]) (rule Cons.prems(2), auto simp: b)
  ultimately show ?case by (auto simp: b)
qed simp

lemma heap_payload_write:
  assumes H: "heap_inv z k0 t bs" and ct: "ctl t' = ctl t" and c: "\<And>i. i \<notin> pay k0 bs \<Longrightarrow> cells t' i = cells t i"
  shows "heap_inv z k0 t' bs"
proof -
  have g: "geo z k0 bs" and L: "free_lists z t (frees k0 bs)" using H by (simp_all add: heap_inv_def pool_def)
  have "seg (cells t') k0 False (bs @ [(0, False)]) = seg (cells t) k0 False (bs @ [(0, False)])"
    using g by (intro seg_pay_cong c) (simp_all add: geo_def)
  moreover have "free_lists z t' (frees k0 bs)"
  proof (rule free_lists_cong [OF L ct])
    fix i assume "i \<in> link_cells (fst ` frees k0 bs)"
    then obtain a n where a: "(a, n) \<in> frees k0 bs" "i = a + 2 \<or> i = a + 3" by (auto simp: link_cells_def)
    have "3 \<le> n" using frees_large [OF a(1)] g by (simp add: geo_def)
    then have "i \<notin> pay k0 bs" using frees_pay [OF a(1), of i] a(2) by auto
    then show "cells t' i = cells t i" by (rule c)
  qed
  ultimately show ?thesis using H by (simp add: heap_inv_def pool_def)
qed

lemma copy_bytes_disjoint:
  "d + n \<le> s \<or> s + n \<le> d \<Longrightarrow> copy_bytes d s n m x = (if d \<le> x \<and> x < d + n then m (s + (x - d)) else m x)"
proof (induction n arbitrary: d s m)
  case (Suc n)
  have "copy_bytes d s (Suc n) m x = copy_bytes (Suc d) (Suc s) n (m(d := m s)) x" by simp
  also have "\<dots> = (if Suc d \<le> x \<and> x < Suc d + n then (m(d := m s)) (Suc s + (x - Suc d)) else (m(d := m s)) x)"
    using Suc.prems by (intro Suc.IH) auto
  also have "\<dots> = (if d \<le> x \<and> x < d + Suc n then m (s + (x - d)) else m x)"
  proof (cases "x = d")
    case False
    have "Suc s + (x - Suc d) = s + (x - d)" if "Suc d \<le> x" using that by simp
    moreover have "s + (x - d) \<noteq> d" if "Suc d \<le> x" "x < Suc d + n" using that Suc.prems by auto
    ultimately show ?thesis using False by auto
  qed simp
  finally show ?case .
qed auto

lemma cells_bytes: "same t t' S \<Longrightarrow> k \<in> S \<Longrightarrow> i < 8 \<Longrightarrow> tmem t' (8 * k + i) = tmem t (8 * k + i)"
  using load64_mem_bytes [of "tmem t'" "8 * k" "tmem t" i] by (simp add: same_def cells_def)

lemma same_bytes:
  assumes "same t t' S" and "\<And>j. a \<le> j \<Longrightarrow> j < a + n \<Longrightarrow> j \<in> S" and "i < 8 * n"
  shows "tmem t' (8 * a + i) = tmem t (8 * a + i)"
proof -
  have "i div 8 < n" using assms(3) by (simp add: div_less_iff_less_mult)
  then have "tmem t' (8 * (a + i div 8) + i mod 8) = tmem t (8 * (a + i div 8) + i mod 8)"
    using assms(2) [of "a + i div 8"] by (intro cells_bytes [OF assms(1)]) simp_all
  then show ?thesis by (simp add: algebra_simps)
qed

text \<open>A used block grown into the free block behind it.\<close>

lemma grow_used_pool:
  assumes P: "pool z k0 t (xs @ (n, False) # (m, True) # ys) (others k0 xs n ((m, True) # ys))"
  defines "k \<equiv> k0 + span xs"
  shows "\<exists>t1 t2. block_merge_next (adr k) t = Ret (adr k, t1) \<and> block_mark_as_used (adr k) t1 = Ret t2 \<and>
    pool z k0 t2 (xs @ (n + 1 + m, False) # ys) (others k0 xs (n + 1 + m) ys) \<and>
    same t t2 (pay k0 xs \<union> {k + 2..k + n + 1} \<union> pay (k + 1 + n + 1 + m) ys)"
proof -
  let ?x = "k + 1 + n" and ?F = "others k0 xs (n + 1 + m) ys"
  have mem: "(?x, m) \<in> others k0 xs n ((m, True) # ys)" by (simp add: others_def k_def)
  obtain t0 where t0: "block_remove (adr ?x) t = Ret t0"
    and P0: "pool z k0 t0 (xs @ (n, False) # (m, True) # ys) (others k0 xs n ((m, True) # ys) - {(?x, m)})"
    and s0: "same t t0 (pay k0 (xs @ (n, False) # (m, True) # ys))"
    using block_remove_pool [OF P mem] by blast
  have F: "others k0 xs n ((m, True) # ys) - {(?x, m)} = ?F"
    using frees_bound [of ?x m k0 xs] frees_bound [of ?x m "k + 1 + (n + 1 + m)" ys]
    by (auto simp: others_def k_def ac_simps)
  note P0 = P0 [unfolded F]
  have P0': "pool z k0 t0 ((xs @ [(n, False)]) @ (m, True) # ys) ?F" using P0 by simp
  note h = pool_hdr [OF P0, folded k_def]
  obtain m' g zs where y: "ys @ [(0, False)] = (m', g) # zs" by (cases "ys @ [(0, False)]") auto
  have h2: "cells t0 (?x + 1) = hdr m True False" using pool_hdr(1) [OF P0'] by (simp add: k_def add.assoc)
  have b2: "?x + m + 6 < 2 ^ 61" "3 \<le> m" using pool_hdr(3,6) [OF P0'] by (simp_all add: k_def)
  have h3: "cells t0 (k + 1 + (n + 1 + m) + 1) = hdr m' g True"
    using pool_hdr(7) [OF P0' y] by (simp add: k_def add.assoc)
  obtain t1 where t1: "block_absorb (adr k) (adr ?x) t0 = Ret (adr k, t1)" "ctl t1 = ctl t0"
    and c1: "cells t1 = (cells t0)(k + 1 := hdr (n + 1 + m) False (endf False xs), k + 1 + (n + 1 + m) := adr k)"
    using block_absorb_cell [OF h(1) _ h2] h(3) b2 by auto
  have g1: "cells t1 (k + 1) = hdr (n + 1 + m) False (endf False xs)" "cells t1 (k + 1 + (n + 1 + m) + 1) = hdr m' g True"
    using h3 by (simp_all add: c1)
  obtain t2 where t2: "block_mark_as_used (adr k) t1 = Ret t2" "ctl t2 = ctl t1"
    and c2: "cells t2 = (cells t1)(k + 1 + (n + 1 + m) + 1 := hdr m' g False, k + 1 := hdr (n + 1 + m) False (endf False xs))"
    using block_mark_as_used_cell [OF g1(1) _ _ g1(2)] b2 by auto
  have "pool z k0 t2 (xs @ [(n + 1 + m, False)] @ ys) ?F \<and>
      same t0 t2 (pay k0 xs \<union> pay (k0 + span xs + span [(n, False), (m, True)]) ys)"
  proof (rule pool_replace [where us = "[(n, False), (m, True)]", OF _ frees_without _ _ _ y])
    show "?F \<subseteq> frees k0 (xs @ [(n, False), (m, True)] @ ys)" using P0 by (simp add: pool_def)
    show "?F \<inter> frees (k0 + span xs) [(n, False), (m, True)] = {}"
      using frees_bound [of ?x m k0 xs] frees_bound [of ?x m "k + 1 + (n + 1 + m)" ys] by (auto simp: others_def k_def)
  qed (use P0 b2 t1 t2 in \<open>auto simp: c1 c2 k_def [symmetric] add.assoc\<close>)
  moreover have "block_merge_next (adr k) t = Ret (adr k, t1)"
  proof -
    have Pt: "pool z k0 t ((xs @ [(n, False)]) @ (m, True) # ys) (others k0 xs n ((m, True) # ys))" using P by simp
    show ?thesis
      using pool_size(4,6) [OF P] pool_size(2,5) [OF Pt] t0 t1 by (simp add: block_merge_next_def k_def add.assoc)
  qed
  moreover have "same t0 t2 {k + 2..k + n + 1}" by (simp add: same_def c1 c2)
  ultimately show ?thesis
    using t2(1) s0 by (fastforce simp: same_def pay_append k_def add.assoc)
qed

text \<open>The blocks after a used block of \<open>n\<close> cells has been cut down to \<open>w\<close>.\<close>

definition shrink :: "nat \<Rightarrow> nat \<Rightarrow> (nat \<times> bool) list \<Rightarrow> nat \<times> (nat \<times> bool) list" where
  "shrink w n ys = (if w + 4 \<le> n then (let (m, vs) = join_next (n - w - 1) ys in (w, (m, True) # vs)) else (n, ys))"

lemma trim_used_heap:
  assumes P: "pool z k0 t (xs @ (n, False) # ys) (others k0 xs n ys)" and co: "coalesced False xs" "coalesced f ys"
    and w: "3 \<le> w" "w < 2 ^ 29" "w \<le> n" and c: "shrink w n ys = (n', ys')"
  shows "\<exists>t'. block_trim_used (adr (k0 + span xs)) (adr w) t = Ret t' \<and> heap_inv z k0 t' (xs @ (n', False) # ys') \<and>
    w \<le> n' \<and> n' \<le> n \<and>
    same t t' (pay k0 xs \<union> {k0 + span xs + 2..k0 + span xs + n' + 1} \<union> pay (k0 + span xs + 1 + n) ys)"
proof -
  obtain t' where t': "block_trim_used (adr (k0 + span xs)) (adr w) t = Ret t'"
    "pool z k0 t' (xs @ (n', False) # ys') (others k0 xs n' ys')"
    "same t t' (pay k0 xs \<union> {k0 + span xs + 2..k0 + span xs + n' + 1} \<union> pay (k0 + span xs + 1 + n) ys)"
    using trim_used_pool [OF P w(1,2) c [unfolded shrink_def]] by blast
  have "coalesced False ys'"
    using c co(2) coalesced_join_next [OF co(2)]
    by (cases f) (auto simp: shrink_def coalesced_False split: if_splits prod.splits)
  then have "heap_inv z k0 t' (xs @ (n', False) # ys')"
    using t'(2) co by (simp add: heap_inv_def frees_others coalesced_append)
  moreover have "w \<le> n' \<and> n' \<le> n" using c w by (auto simp: shrink_def split: if_splits prod.splits)
  ultimately show ?thesis using t' by blast
qed

end
