(* ===== verification/Vm_Tlsf_Spec.thy ===== *)
theory Vm_Tlsf_Spec
  imports Vm_Tlsf_Heap
begin

text \<open>
  What the allocator promises to its clients: the memory areas that are in use, by address and length in bytes,
  never overlap, an allocation adds one of at least the size asked for, a release removes one, and the bytes of
  the other areas stay what they were.
\<close>

section \<open>Areas in use\<close>

fun used :: "nat \<Rightarrow> (nat \<times> bool) list \<Rightarrow> (nat \<times> nat) set" where
  "used k [] = {}"
| "used k ((n, f) # bs) = (if f then {} else {(8 * (k + 2), 8 * n)}) \<union> used (k + 1 + n) bs"

text \<open>
  The heap of \<open>N\<close> cells at block \<open>k0\<close>, with its control structure at \<open>z\<close>, in which the areas \<open>U\<close> are in use.
\<close>

definition tlsf_heap :: "nat \<Rightarrow> nat \<Rightarrow> nat \<Rightarrow> tlsf \<Rightarrow> (nat \<times> nat) set \<Rightarrow> bool" where
  "tlsf_heap z k0 N t U \<longleftrightarrow> (\<exists>bs. heap_inv z k0 t bs \<and> used k0 bs = U \<and> span bs = N)"

definition keeps :: "tlsf \<Rightarrow> tlsf \<Rightarrow> (nat \<times> nat) set \<Rightarrow> bool" where
  "keeps t t' U \<longleftrightarrow> (\<forall>(a, l) \<in> U. \<forall>i < l. tmem t' (a + i) = tmem t (a + i))"

lemma used_append: "used k (xs @ ys) = used k xs \<union> used (k + span xs) ys"
  by (induction k xs rule: used.induct) (auto simp: ac_simps)

lemma used_split:
  assumes "(a, l) \<in> used k0 bs"
  obtains xs n ys where "bs = xs @ (n, False) # ys" "a = 8 * (k0 + span xs + 2)" "l = 8 * n"
proof -
  have "\<exists>xs n ys. bs = xs @ (n, False) # ys \<and> a = 8 * (k0 + span xs + 2) \<and> l = 8 * n"
    using assms
  proof (induction k0 bs rule: used.induct)
    case (2 k n f bs)
    show ?case
    proof (cases "(a, l) \<in> used (k + 1 + n) bs")
      case True
      then obtain xs m ys where "bs = xs @ (m, False) # ys" "a = 8 * (k + 1 + n + span xs + 2)" "l = 8 * m"
        using 2 by blast
      then have "(n, f) # bs = ((n, f) # xs) @ (m, False) # ys" "a = 8 * (k + span ((n, f) # xs) + 2)" "l = 8 * m" by simp_all
      then show ?thesis by blast
    next
      case False
      then have "(n, f) # bs = [] @ (n, False) # bs" "a = 8 * (k + span [] + 2)" "l = 8 * n"
        using 2(2) by (auto split: if_splits)
      then show ?thesis by blast
    qed
  qed simp
  then show thesis using that by blast
qed

lemma used_bound: "(a, l) \<in> used k0 bs \<Longrightarrow> 8 * (k0 + 2) \<le> a \<and> a + l \<le> 8 * (k0 + span bs + 1)"
  by (induction k0 bs rule: used.induct) (fastforce split: if_splits)+

lemma used_disjoint:
  "(a, l) \<in> used k0 bs \<Longrightarrow> (b, m) \<in> used k0 bs \<Longrightarrow> (a, l) = (b, m) \<or> a + l \<le> b \<or> b + m \<le> a"
proof (induction k0 bs rule: used.induct)
  case (2 k n f bs)
  then show ?case
    using used_bound [of a l "k + 1 + n" bs] used_bound [of b m "k + 1 + n" bs] by (auto split: if_splits)
qed simp

lemma keeps_same: "same t t' (pay k0 bs) \<Longrightarrow> keeps t t' (used k0 bs)"
  unfolding keeps_def
proof (clarify)
  fix a l i assume s: "same t t' (pay k0 bs)" and u: "(a, l) \<in> used k0 bs" and i: "i < l"
  obtain xs n ys where b: "bs = xs @ (n, False) # ys" "a = 8 * (k0 + span xs + 2)" "l = 8 * n"
    using used_split [OF u] .
  show "tmem t' (a + i) = tmem t (a + i)"
    unfolding b(2) by (rule same_bytes [OF s, of _ n]) (use i b in \<open>auto simp: pay_append\<close>)
qed

lemma keeps_trans: "keeps t t1 U \<Longrightarrow> keeps t1 t' V \<Longrightarrow> W \<subseteq> U \<Longrightarrow> W \<subseteq> V \<Longrightarrow> keeps t t' W"
  unfolding keeps_def by fastforce

lemma keepsD: "keeps t t' U \<Longrightarrow> (a, l) \<in> U \<Longrightarrow> i < l \<Longrightarrow> tmem t' (a + i) = tmem t (a + i)"
  unfolding keeps_def by blast

lemma heap_area:
  assumes "tlsf_heap z k0 N t U" and "(a, l) \<in> U"
  shows "a mod 8 = 0" "24 \<le> l" "0 < a" "a + l < 2 ^ 64"
proof -
  obtain bs where H: "heap_inv z k0 t bs" and u: "(a, l) \<in> used k0 bs" using assms by (auto simp: tlsf_heap_def)
  obtain xs n ys where b: "bs = xs @ (n, False) # ys" "a = 8 * (k0 + span xs + 2)" "l = 8 * n"
    using used_split [OF u] .
  have "geo z k0 bs" using H by (simp add: heap_inv_def pool_def)
  then show "a mod 8 = 0" "24 \<le> l" "0 < a" "a + l < 2 ^ 64"
    using b by (simp_all add: geo_def)
qed

lemma heap_disjoint:
  "tlsf_heap z k0 N t U \<Longrightarrow> (a, l) \<in> U \<Longrightarrow> (b, m) \<in> U \<Longrightarrow> (a, l) = (b, m) \<or> a + l \<le> b \<or> b + m \<le> a"
  unfolding tlsf_heap_def using used_disjoint by metis

lemma heap_fst_inj: "tlsf_heap z k0 N t U \<Longrightarrow> (a, n) \<in> U \<Longrightarrow> (a, m) \<in> U \<Longrightarrow> n = m"
  using heap_disjoint [of z k0 N t U a n a m] heap_area(2) [of z k0 N t U] by fastforce

section \<open>The operations\<close>

lemma malloc_heap:
  assumes "tlsf_heap z k0 N t U"
  obtains (none) "tlsf_malloc sz t = Ret (0, t)"
    | (some) p n t' where "tlsf_malloc sz t = Ret (p, t')" "p \<noteq> 0" "tlsf_heap z k0 N t' (insert (unat p, n) U)"
      "\<And>l. (unat p, l) \<notin> U" "8 * req (unat sz) \<le> n" "req (unat sz) \<noteq> 0" "keeps t t' U"
proof -
  obtain bs where H: "heap_inv z k0 t bs" and U: "used k0 bs = U" and sp: "span bs = N" using assms by (auto simp: tlsf_heap_def)
  show thesis
  proof (cases rule: tlsf_malloc_ok [OF H refl, of sz])
    case (2 xs n ys n' ys' t')
    let ?k = "k0 + span xs"
    have g: "geo z k0 bs" using H by (simp add: heap_inv_def pool_def)
    have k: "?k + 2 < 2 ^ 61" using g 2(2) by (simp add: geo_def)
    then have p: "unat (adr (?k + 2)) = 8 * (?k + 2)" "adr (?k + 2) \<noteq> 0" by (simp_all add: unat_adr adr_eq_0)
    have "used (?k + 1 + n') ys' = used (?k + 1 + n) ys" "req (unat sz) \<le> n'"
      using 2(3,4) by (auto simp: cut_def add.assoc split: if_splits)
    then have u: "used k0 (xs @ (n', False) # ys') = insert (unat (adr (?k + 2)), 8 * n') U" "8 * req (unat sz) \<le> 8 * n'"
      unfolding p(1) U [symmetric] 2(2) by (auto simp: used_append)
    have no: "(unat (adr (?k + 2)), l) \<notin> U" for l
      using used_bound [of "8 * (?k + 2)" l k0 xs] used_bound [of "8 * (?k + 2)" l "?k + 1 + n" ys]
      unfolding p(1) U [symmetric] 2(2) by (auto simp: used_append)
    have "span (xs @ (n', False) # ys') = N" using 2(2,4) sp by (auto simp: cut_def split: if_splits)
    then have "tlsf_heap z k0 N t' (insert (unat (adr (?k + 2)), 8 * n') U)" using 2(6) u by (auto simp: tlsf_heap_def)
    moreover have "keeps t t' U" using keeps_same [OF 2(7)] U by simp
    ultimately show thesis using some 2(1,5) p(2) no u(2) by blast
  qed (use none in blast)
qed

lemma free_heap:
  assumes "tlsf_heap z k0 N t U" and "(a, l) \<in> U"
  shows "\<exists>t'. tlsf_free (of_nat a) t = Ret t' \<and> tlsf_heap z k0 N t' (U - {(a, l)}) \<and> keeps t t' (U - {(a, l)})"
proof -
  obtain bs where H: "heap_inv z k0 t bs" and U: "used k0 bs = U" and sp: "span bs = N" using assms(1) by (auto simp: tlsf_heap_def)
  obtain xs n ys where b: "bs = xs @ (n, False) # ys" "a = 8 * (k0 + span xs + 2)" "l = 8 * n"
    using used_split assms(2) U by blast
  let ?K = "k0 + span xs + 1 + n"
  obtain t' where t': "tlsf_free (adr (k0 + span xs + 2)) t = Ret t'" "heap_inv z k0 t' (free_blocks xs n ys)"
    "same t t' (pay k0 xs \<union> pay ?K ys)"
    using tlsf_free_ok H b by blast
  have Ua: "U - {(a, l)} = used k0 xs \<union> used ?K ys"
    using used_bound [of a l k0 xs] used_bound [of a l ?K ys] by (auto simp: U [symmetric] b used_append)
  have "used k0 (free_blocks xs n ys) = used k0 xs \<union> used ?K ys \<and> span (free_blocks xs n ys) = N"
  proof -
    obtain xs' n1 where j1: "join_prev xs n = (xs', n1)" by (cases "join_prev xs n")
    obtain n2 ys' where j2: "join_next n1 ys = (n2, ys')" by (cases "join_next n1 ys")
    have x: "used k0 xs' = used k0 xs" "k0 + span xs' + 1 + n1 = ?K"
      using j1 endf_snoc [of xs] by (auto simp: join_prev_def used_append split: if_splits)
    have "used (k0 + span xs' + 1 + n2) ys' = used (k0 + span xs' + 1 + n1) ys" "n2 + span ys' = n1 + span ys"
      using j2 by (auto simp: join_next_def add.assoc split: list.splits prod.splits bool.splits)
    moreover have "span xs' + n1 = span xs + n" using x(2) by simp
    ultimately show ?thesis using x(1) sp b(1) unfolding x(2) by (simp add: free_blocks_def j1 j2 used_append add.assoc)
  qed
  then have "tlsf_heap z k0 N t' (U - {(a, l)})" using t'(2) Ua by (auto simp: tlsf_heap_def)
  moreover have "keeps t t' (U - {(a, l)})"
  proof -
    have "keeps t t' (used k0 xs)" "keeps t t' (used ?K ys)"
      using t'(3) by (auto intro!: keeps_same elim: same_mono)
    then show ?thesis unfolding Ua keeps_def by blast
  qed
  moreover have "of_nat a = adr (k0 + span xs + 2)" by (simp only: b(2) adr_def)
  ultimately show ?thesis using t'(1) by metis
qed

lemma used_shrink:
  "shrink w n ys = (n', ys') \<Longrightarrow> used (k + 1 + n') ys' = used (k + 1 + n) ys \<and> n' + span ys' = n + span ys"
  by (auto simp: shrink_def join_next_def add.assoc split: if_splits list.splits prod.splits bool.splits)

section \<open>Resizing an area\<close>

lemma req_gt:
  assumes "n < req s" and "3 \<le> n"
  shows "8 * n < s"
proof -
  have "n < (s + 7) mod 2 ^ 64 div 8" using assms by (auto simp: req_def Let_def split: if_splits)
  moreover have "(s + 7) mod 2 ^ 64 \<le> s + 7" by simp
  ultimately show ?thesis by linarith
qed

lemma realloc_unfold:
  assumes P: "pool z k0 t (xs @ (n, False) # ys) F" and nz: "sz \<noteq> 0" and w: "w = req (unat sz)"
  defines "k \<equiv> k0 + span xs"
  shows "tlsf_realloc (adr (k + 2)) sz t =
    (if n < w \<and> (\<nexists>m vs. ys = (m, True) # vs \<and> w \<le> n + 1 + m) then
       exec_bind (tlsf_malloc sz t) (\<lambda>(p, t). if p \<noteq> 0
         then exec_bind (tlsf_free (adr (k + 2)) (t\<lparr>tmem := copy_bytes (unat p) (8 * (k + 2)) (8 * n) (tmem t)\<rparr>))
           (\<lambda>t. Ret (p, t)) else Ret (p, t))
     else
       exec_bind (if n < w then exec_bind (block_merge_next (adr k) t) (\<lambda>(b', t). block_mark_as_used (adr k) t) else Ret t)
         (\<lambda>t. exec_bind (block_trim_used (adr k) (adr w) t) (\<lambda>t. Ret (adr (k + 2), t))))"
proof -
  obtain m g zs where y: "ys @ [(0, False)] = (m, g) # zs" by (cases "ys @ [(0, False)]") auto
  note h = pool_hdr [OF P, folded k_def]
  have bx: "k + 1 + n + 3 < 2 ^ 61" using h(6) by simp
  have nx: "block_is_free t (adr (k + 1 + n)) \<longleftrightarrow> g" "block_size t (adr (k + 1 + n)) = adr m"
    using block_hdr(2,3) [OF h(7) [OF y] bx] by simp_all
  have cmb: "adr n + adr m + 8 = adr (n + 1 + m)" by (simp add: adr_def)
  have m: "m < 2 ^ 29" using P y by (cases ys) (auto simp: pool_def geo_def)
  have pz: "adr (k + 2) \<noteq> 0" "unat (adr (k + 2)) = 8 * (k + 2)" using h(6) by (simp_all add: adr_eq_0 unat_adr)
  have gt: "adr n < adr w \<longleftrightarrow> n < w" "adr (n + 1 + m) < adr w \<longleftrightarrow> n + 1 + m < w"
    using h(4) req_bound(1) [of "unat sz"] m w by (simp_all add: adr_less)
  have adj: "adjust_request_size sz 8 = Ret (adr w)" using adjust_req [of sz] w by simp
  have cond: "(n < w \<and> (\<not> g \<or> n + 1 + m < w)) \<longleftrightarrow> n < w \<and> (\<nexists>m vs. ys = (m, True) # vs \<and> w \<le> n + 1 + m)"
    using y by (cases ys) auto
  have mn: "unat (if adr n < sz then adr n else sz) = 8 * n" if "n < w"
  proof -
    have "unat (adr n) = 8 * n" using h(4) by (simp add: unat_adr)
    moreover have "8 * n < unat sz" using req_gt [of n "unat sz"] that w h(3) by simp
    ultimately show ?thesis by (simp add: word_less_nat_alt)
  qed
  show ?thesis
    unfolding tlsf_realloc_def block_from_adr Let_def pool_size(6) [OF P, folded k_def] exec_bind.simps
      pool_size(1,2) [OF P, folded k_def] nx cmb adj gt cond
    using pz nz mn by (simp cong: if_cong)
qed

text \<open>Shrinking in place, or growing into the free block behind.\<close>

lemma realloc_in_place:
  assumes H: "heap_inv z k0 t (xs @ (n, False) # ys)" and w: "w = req (unat sz)" "w \<noteq> 0"
    and c: "w \<le> n \<or> (\<exists>m vs. ys = (m, True) # vs \<and> w \<le> n + 1 + m)" and nz: "sz \<noteq> 0"
  shows "\<exists>t' n' ys'. tlsf_realloc (adr (k0 + span xs + 2)) sz t = Ret (adr (k0 + span xs + 2), t') \<and>
    heap_inv z k0 t' (xs @ (n', False) # ys') \<and> w \<le> n' \<and>
    used (k0 + span xs + 1 + n') ys' = used (k0 + span xs + 1 + n) ys \<and> n' + span ys' = n + span ys \<and>
    same t t' (pay k0 xs \<union> {k0 + span xs + 2..<k0 + span xs + 2 + min n n'} \<union> pay (k0 + span xs + 1 + n) ys)"
proof -
  let ?k = "k0 + span xs"
  have P: "pool z k0 t (xs @ (n, False) # ys) (others k0 xs n ys)" and co: "coalesced False xs" "coalesced False ys"
    using H by (auto simp: heap_inv_def frees_others coalesced_append)
  have b: "3 \<le> w" "w < 2 ^ 29" using req_bound w by simp_all
  have ex: "tlsf_realloc (adr (?k + 2)) sz t =
      exec_bind (if n < w then exec_bind (block_merge_next (adr ?k) t) (\<lambda>(b', t). block_mark_as_used (adr ?k) t) else Ret t)
        (\<lambda>t. exec_bind (block_trim_used (adr ?k) (adr w) t) (\<lambda>t. Ret (adr (?k + 2), t)))"
    unfolding realloc_unfold [OF P nz w(1)] using c by auto
  show ?thesis
  proof (cases "n < w")
    case False
    obtain n' ys' where c: "shrink w n ys = (n', ys')" by (cases "shrink w n ys")
    obtain t' where t': "block_trim_used (adr ?k) (adr w) t = Ret t'" "heap_inv z k0 t' (xs @ (n', False) # ys')"
      "w \<le> n'" "n' \<le> n" "same t t' (pay k0 xs \<union> {?k + 2..?k + n' + 1} \<union> pay (?k + 1 + n) ys)"
      using trim_used_heap [OF P co b _ c] False by auto
    have "used (?k + 1 + n') ys' = used (?k + 1 + n) ys \<and> n' + span ys' = n + span ys"
      using c by (rule used_shrink)
    moreover have "same t t' (pay k0 xs \<union> {?k + 2..<?k + 2 + min n n'} \<union> pay (?k + 1 + n) ys)"
      by (rule same_mono [OF t'(5)]) auto
    moreover have "tlsf_realloc (adr (?k + 2)) sz t = Ret (adr (?k + 2), t')" using ex t'(1) False by simp
    ultimately show ?thesis using t'(2,3) by blast
  next
    case True
    then obtain m vs where ys: "ys = (m, True) # vs" and le: "w \<le> n + 1 + m" using c by auto
    obtain t1 t2 where t12: "block_merge_next (adr ?k) t = Ret (adr ?k, t1)" "block_mark_as_used (adr ?k) t1 = Ret t2"
      and P2: "pool z k0 t2 (xs @ (n + 1 + m, False) # vs) (others k0 xs (n + 1 + m) vs)"
      and s2: "same t t2 (pay k0 xs \<union> {?k + 2..?k + n + 1} \<union> pay (?k + 1 + n + 1 + m) vs)"
      using grow_used_pool [OF P [unfolded ys]] by blast
    obtain n' ys' where c': "shrink w (n + 1 + m) vs = (n', ys')" by (cases "shrink w (n + 1 + m) vs")
    have cv: "coalesced True vs" using co(2) ys by simp
    obtain t' where t': "block_trim_used (adr ?k) (adr w) t2 = Ret t'" "heap_inv z k0 t' (xs @ (n', False) # ys')" "w \<le> n'"
      and s3: "same t2 t' (pay k0 xs \<union> {?k + 2..?k + n' + 1} \<union> pay (?k + 1 + (n + 1 + m)) vs)"
      using trim_used_heap [OF P2 co(1) cv b le c'] by blast
    have u: "used (?k + 1 + n') ys' = used (?k + 1 + n) ys \<and> n' + span ys' = n + span ys"
      using used_shrink [OF c', of ?k] by (simp add: ys add.assoc)
    have "same t t' (pay k0 xs \<union> {?k + 2..<?k + 2 + min n n'} \<union> pay (?k + 1 + n) ys)"
      by (rule same_trans [OF s2 s3]) (auto simp: ys add.assoc)
    moreover have "tlsf_realloc (adr (?k + 2)) sz t = Ret (adr (?k + 2), t')" using ex t'(1) t12 True by simp
    ultimately show ?thesis using t'(2,3) u by blast
  qed
qed

text \<open>Moving to a new area, when there is no room behind.\<close>

lemma copy_heap:
  assumes H: "tlsf_heap z k0 N t U" and p: "(p, n) \<in> U" and q: "(q, l) \<in> U" "p \<noteq> q" and m: "m \<le> n" "m \<le> l"
  defines "t' \<equiv> t\<lparr>tmem := copy_bytes p q m (tmem t)\<rparr>"
  shows "tlsf_heap z k0 N t' U" and "keeps t t' (U - {(p, n)})" and "\<forall>i < m. tmem t' (p + i) = tmem t (q + i)"
proof -
  have d: "p + n \<le> q \<or> q + l \<le> p" using heap_disjoint [OF H p q(1)] q(2) by auto
  then have d': "p + m \<le> q \<or> q + m \<le> p" using m by linarith
  have tm: "tmem t' x = (if p \<le> x \<and> x < p + m then tmem t (q + (x - p)) else tmem t x)" for x
    unfolding t'_def using copy_bytes_disjoint [OF d'] by simp
  show "\<forall>i < m. tmem t' (p + i) = tmem t (q + i)" by (simp add: tm)
  have "tmem t' (b + i) = tmem t (b + i)" if b: "(b, j) \<in> U" "(b, j) \<noteq> (p, n)" and i: "i < j" for b j i
  proof -
    have "p + n \<le> b \<or> b + j \<le> p" using heap_disjoint [OF H p b(1)] b(2) by auto
    then show ?thesis using i m by (auto simp: tm)
  qed
  then show "keeps t t' (U - {(p, n)})" unfolding keeps_def by auto
  obtain bs where I: "heap_inv z k0 t bs" and U: "used k0 bs = U" and sp: "span bs = N" using H by (auto simp: tlsf_heap_def)
  obtain xs n' ys where x: "bs = xs @ (n', False) # ys" "p = 8 * (k0 + span xs + 2)" "n = 8 * n'"
    using used_split p U by blast
  have "heap_inv z k0 t' bs"
  proof (rule heap_payload_write [OF I])
    show "ctl t' = ctl t" by (simp add: t'_def ctl_def)
    fix j assume j: "j \<notin> pay k0 bs"
    then have "j \<notin> {k0 + span xs + 2..k0 + span xs + n' + 1}" by (simp add: x pay_append)
    then have "8 * j + 8 \<le> p \<or> p + m \<le> 8 * j" using x m(1) by auto
    then show "cells t' j = cells t j" unfolding cells_def by (intro load64_cong) (auto simp: tm)
  qed
  then show "tlsf_heap z k0 N t' U" using U sp by (auto simp: tlsf_heap_def)
qed

lemma realloc_heap:
  assumes Hp: "tlsf_heap z k0 N t U" and a: "(a, l) \<in> U" and nz: "sz \<noteq> 0" "req (unat sz) \<noteq> 0"
  obtains (none) "tlsf_realloc (of_nat a) sz t = Ret (0, t)"
    | (some) p n t' where "tlsf_realloc (of_nat a) sz t = Ret (p, t')" "p \<noteq> 0"
      "tlsf_heap z k0 N t' (insert (unat p, n) (U - {(a, l)}))" "8 * req (unat sz) \<le> n" "keeps t t' (U - {(a, l)})"
      "\<And>i. i < min l n \<Longrightarrow> tmem t' (unat p + i) = tmem t (a + i)" "\<And>j. (unat p, j) \<notin> U - {(a, l)}"
proof -
  obtain bs where H: "heap_inv z k0 t bs" and U: "used k0 bs = U" and sp: "span bs = N" using Hp by (auto simp: tlsf_heap_def)
  obtain xs n ys where b: "bs = xs @ (n, False) # ys" "a = 8 * (k0 + span xs + 2)" "l = 8 * n"
    using used_split a U by blast
  let ?k = "k0 + span xs" and ?w = "req (unat sz)"
  have P: "pool z k0 t (xs @ (n, False) # ys) (others k0 xs n ys)" using H by (simp add: heap_inv_def frees_others b)
  have of_a: "of_nat a = adr (?k + 2)" by (simp only: b(2) adr_def)
  have ua: "unat (adr (?k + 2)) = a" using pool_hdr(6) [OF P] by (simp add: unat_adr b(2))
  have nz': "adr (?k + 2) \<noteq> 0" using pool_hdr(6) [OF P] by (simp add: adr_eq_0)
  have Ua: "U - {(a, l)} = used k0 xs \<union> used (?k + 1 + n) ys"
    using used_bound [of a l k0 xs] used_bound [of a l "?k + 1 + n" ys] by (auto simp: U [symmetric] b used_append)
  show thesis
  proof (cases "?w \<le> n \<or> (\<exists>m vs. ys = (m, True) # vs \<and> ?w \<le> n + 1 + m)")
    case True
    obtain t' n' ys' where t': "tlsf_realloc (adr (?k + 2)) sz t = Ret (adr (?k + 2), t')"
      "heap_inv z k0 t' (xs @ (n', False) # ys')" "?w \<le> n'" and u: "used (?k + 1 + n') ys' = used (?k + 1 + n) ys" "n' + span ys' = n + span ys"
      and s: "same t t' (pay k0 xs \<union> {?k + 2..<?k + 2 + min n n'} \<union> pay (?k + 1 + n) ys)"
      using realloc_in_place [OF H [unfolded b(1)] refl nz(2) True nz(1)] by blast
    have "used k0 (xs @ (n', False) # ys') = insert (a, 8 * n') (U - {(a, l)})" "span (xs @ (n', False) # ys') = N"
      unfolding Ua using u sp b(1) by (simp_all add: used_append b(2) Un_commute Un_left_commute)
    then have "tlsf_heap z k0 N t' (insert (unat (adr (?k + 2)), 8 * n') (U - {(a, l)}))"
      using t'(2) ua by (auto simp: tlsf_heap_def)
    moreover have "keeps t t' (U - {(a, l)})"
    proof -
      have "keeps t t' (used k0 xs)" "keeps t t' (used (?k + 1 + n) ys)"
        using s by (auto intro!: keeps_same elim: same_mono)
      then show ?thesis unfolding Ua keeps_def by blast
    qed
    moreover have "tmem t' (unat (adr (?k + 2)) + i) = tmem t (a + i)" if "i < min l (8 * n')" for i
      unfolding ua b(2) by (rule same_bytes [OF s, of _ "min n n'"]) (use that b(3) in auto)
    moreover have "8 * ?w \<le> 8 * n'" using t'(3) by simp
    moreover have "(unat (adr (?k + 2)), j) \<notin> U - {(a, l)}" for j
      unfolding ua using heap_fst_inj [OF Hp, of a l j] a by auto
    ultimately show thesis using some [of "adr (?k + 2)" t' "8 * n'"] t'(1) nz' of_a by simp
  next
    case False
    have lt: "n < ?w" using False by simp
    have ex: "tlsf_realloc (of_nat a) sz t =
        exec_bind (tlsf_malloc sz t) (\<lambda>(p, t). if p \<noteq> 0
          then exec_bind (tlsf_free (of_nat a) (t\<lparr>tmem := copy_bytes (unat p) a l (tmem t)\<rparr>)) (\<lambda>t. Ret (p, t)) else Ret (p, t))"
      unfolding of_a b(3) realloc_unfold [OF P nz(1) refl] b(2) [symmetric] using False lt by simp
    show thesis
    proof (cases rule: malloc_heap [OF Hp, of sz])
      case 1
      then show thesis using none ex by simp
    next
      case (2 p m t1)
      have np: "unat p \<noteq> a" using 2(4) [of l] a by auto
      have lm: "l \<le> m" using lt 2(5) b(3) by simp
      have ap: "(unat p, m) \<noteq> (a, l)" using np by simp
      define t2 where "t2 = t1\<lparr>tmem := copy_bytes (unat p) a l (tmem t1)\<rparr>"
      have c: "tlsf_heap z k0 N t2 (insert (unat p, m) U)" "keeps t1 t2 (insert (unat p, m) U - {(unat p, m)})"
        "\<And>i. i < l \<Longrightarrow> tmem t2 (unat p + i) = tmem t1 (a + i)"
        unfolding t2_def using copy_heap [OF 2(3), of "unat p" m a l l] a np lm by auto
      obtain t3 where t3: "tlsf_free (of_nat a) t2 = Ret t3" "tlsf_heap z k0 N t3 (insert (unat p, m) U - {(a, l)})"
        "keeps t2 t3 (insert (unat p, m) U - {(a, l)})"
        using free_heap [OF c(1), of a l] a by auto
      have ins: "insert (unat p, m) U - {(a, l)} = insert (unat p, m) (U - {(a, l)})" using ap by auto
      have "tlsf_realloc (of_nat a) sz t = Ret (p, t3)" using ex 2(1,2) t3(1) by (simp add: t2_def)
      moreover have "keeps t t3 (U - {(a, l)})"
      proof -
        have "keeps t t2 U" by (rule keeps_trans [OF 2(7) c(2)]) (use 2(4) in auto)
        then show ?thesis by (rule keeps_trans [OF _ t3(3)]) auto
      qed
      moreover have "tmem t3 (unat p + i) = tmem t (a + i)" if "i < min l m" for i
        using keepsD [OF t3(3), of "unat p" m i] c(3) [of i] keepsD [OF 2(7) a, of i] that ins by simp
      ultimately show thesis using some [of p t3 m] 2(2,4,5) t3(2) ins by simp
    qed
  qed
qed

section \<open>An allocator and its clients\<close>

text \<open>
  The contract of an allocator: \<open>ok s U\<close> says that in state \<open>s\<close> the areas \<open>U\<close> are in use.  A session is a
  sequence of calls in which the client releases what it has obtained; \<open>ps\<close> are the pointers it holds.
\<close>

datatype heap_call = Alloc u64 | Release nat

fun session ::
  "(u64 \<Rightarrow> 's \<Rightarrow> (u64 \<times> 's) exec) \<Rightarrow> (u64 \<Rightarrow> 's \<Rightarrow> 's exec) \<Rightarrow> heap_call list \<Rightarrow> 's \<Rightarrow> u64 list \<Rightarrow> ('s \<times> u64 list) exec" where
  "session malloc free [] s ps = Ret (s, ps)"
| "session malloc free (Alloc sz # cs) s ps =
     exec_bind (malloc sz s) (\<lambda>(p, s). session malloc free cs s (if p = 0 then ps else p # ps))"
| "session malloc free (Release i # cs) s ps =
     (if i < length ps
      then exec_bind (free (ps ! i) s) (\<lambda>s. session malloc free cs s (take i ps @ drop (Suc i) ps))
      else session malloc free cs s ps)"

lemma nth_remove:
  assumes "i < length xs" and "distinct xs"
  shows "set (take i xs @ drop (Suc i) xs) = set xs - {xs ! i}" and "distinct (take i xs @ drop (Suc i) xs)"
proof -
  define a b x where "a = take i xs" and "b = drop (Suc i) xs" and "x = xs ! i"
  have "xs = a @ x # b" unfolding a_def b_def x_def by (rule id_take_nth_drop [OF assms(1)])
  then have "set (a @ b) = set xs - {x}" "distinct (a @ b)" using assms(2) by auto
  then show "set (take i xs @ drop (Suc i) xs) = set xs - {xs ! i}" "distinct (take i xs @ drop (Suc i) xs)"
    by (simp_all only: a_def b_def x_def)
qed

locale allocator =
  fixes ok :: "'s \<Rightarrow> (nat \<times> nat) set \<Rightarrow> bool"
    and malloc :: "u64 \<Rightarrow> 's \<Rightarrow> (u64 \<times> 's) exec"
    and free :: "u64 \<Rightarrow> 's \<Rightarrow> 's exec"
  assumes malloc_law: "ok s U \<Longrightarrow> \<exists>p s'. malloc sz s = Ret (p, s') \<and>
      (if p = 0 then ok s' U else (\<exists>n. ok s' (insert (unat p, n) U) \<and> unat p \<notin> fst ` U))"
    and free_law: "ok s U \<Longrightarrow> (unat p, n) \<in> U \<Longrightarrow> \<exists>s'. free p s = Ret s' \<and> ok s' (U - {(unat p, n)})"
    and area_law: "ok s U \<Longrightarrow> (a, n) \<in> U \<Longrightarrow> (a, m) \<in> U \<Longrightarrow> n = m"
begin

lemma area_removed:
  assumes "ok s U" and "(a, n) \<in> U"
  shows "fst ` (U - {(a, n)}) = fst ` U - {a}"
proof -
  have "m = n" if "(a, m) \<in> U" for m using area_law [OF assms(1) that assms(2)] .
  then have "a \<notin> fst ` (U - {(a, n)})" by auto
  moreover have "fst ` U = insert a (fst ` (U - {(a, n)}))"
    using assms(2) by (metis fst_conv image_insert insert_Diff)
  ultimately show ?thesis by blast
qed

lemma session_runs:
  assumes "ok s U" and "fst ` U = unat ` set ps" and "distinct ps"
  shows "\<exists>s' ps' U'. session malloc free cs s ps = Ret (s', ps') \<and> ok s' U' \<and> fst ` U' = unat ` set ps' \<and> distinct ps'"
  using assms
proof (induction cs arbitrary: s U ps)
  case (Cons c cs)
  show ?case
  proof (cases c)
    case (Alloc sz)
    obtain p s' where p: "malloc sz s = Ret (p, s')"
      "if p = 0 then ok s' U else (\<exists>n. ok s' (insert (unat p, n) U) \<and> unat p \<notin> fst ` U)"
      using malloc_law [OF Cons.prems(1)] by blast
    show ?thesis
    proof (cases "p = 0")
      case True
      then show ?thesis using Cons.IH [of s' U ps] Cons.prems p by (simp add: Alloc)
    next
      case False
      then obtain n where n: "ok s' (insert (unat p, n) U)" "unat p \<notin> fst ` U" using p(2) by auto
      then have "p \<notin> set ps" using Cons.prems(2) by auto
      then show ?thesis using Cons.IH [OF n(1), of "p # ps"] Cons.prems p False by (simp add: Alloc)
    qed
  next
    case (Release i)
    show ?thesis
    proof (cases "i < length ps")
      case False
      then show ?thesis using Cons.IH Cons.prems by (simp add: Release)
    next
      case True
      let ?p = "ps ! i" and ?ps = "take i ps @ drop (Suc i) ps"
      have "unat ?p \<in> fst ` U" using True Cons.prems(2) by simp
      then obtain n where n: "(unat ?p, n) \<in> U" by auto
      obtain s' where s': "free ?p s = Ret s'" "ok s' (U - {(unat ?p, n)})" using free_law [OF Cons.prems(1) n] by blast
      have "fst ` (U - {(unat ?p, n)}) = fst ` U - {unat ?p}" by (rule area_removed [OF Cons.prems(1) n])
      also have "\<dots> = unat ` set ?ps"
        unfolding nth_remove(1) [OF True Cons.prems(3)] Cons.prems(2) by (auto simp: word_unat_eq_iff)
      finally have "fst ` (U - {(unat ?p, n)}) = unat ` set ?ps" .
      moreover have "distinct ?ps" by (rule nth_remove(2) [OF True Cons.prems(3)])
      ultimately show ?thesis using Cons.IH [OF s'(2), of ?ps] s'(1) True by (simp add: Release)
    qed
  qed
qed auto

end
section \<open>The allocator in use\<close>

lemma heap_fresh:
  assumes "heap_inv z k0 t [(n, True)]"
  shows "tlsf_heap z k0 (n + 1) t {}"
  using assms by (auto simp: tlsf_heap_def intro!: exI [of _ "[(n, True)]"])

text \<open>When nothing is in use the pool is one free block.\<close>

lemma coalesced_all_free: "coalesced pf bs \<Longrightarrow> used k bs = {} \<Longrightarrow> bs \<noteq> [] \<Longrightarrow> \<exists>n. bs = [(n, True)] \<and> \<not> pf"
proof (induction pf bs arbitrary: k rule: coalesced.induct)
  case (2 pf n f bs)
  then show ?case by (cases bs) (auto split: if_splits)
qed simp

lemma heap_drained:
  assumes "tlsf_heap z k0 (n + 1) t {}"
  shows "heap_inv z k0 t [(n, True)]"
proof -
  obtain bs where bs: "heap_inv z k0 t bs" "used k0 bs = {}" "span bs = n + 1" using assms by (auto simp: tlsf_heap_def)
  then have "bs \<noteq> []" "coalesced False bs" by (auto simp: heap_inv_def)
  then obtain m where "bs = [(m, True)]" using coalesced_all_free [of False bs k0] bs(2) by blast
  then show ?thesis using bs by simp
qed

interpretation tlsf_alloc: allocator "tlsf_heap z k0 N" tlsf_malloc tlsf_free for z k0 N
proof
  fix s U sz assume H: "tlsf_heap z k0 N s U"
  show "\<exists>p s'. tlsf_malloc sz s = Ret (p, s') \<and>
    (if p = 0 then tlsf_heap z k0 N s' U else (\<exists>n. tlsf_heap z k0 N s' (insert (unat p, n) U) \<and> unat p \<notin> fst ` U))"
    by (cases rule: malloc_heap [OF H, of sz]) (use H in fastforce)+
next
  fix s U n and p :: u64 assume H: "tlsf_heap z k0 N s U" "(unat p, n) \<in> U"
  show "\<exists>s'. tlsf_free p s = Ret s' \<and> tlsf_heap z k0 N s' (U - {(unat p, n)})"
    using free_heap [OF H] by auto
qed (rule heap_fst_inj)

section \<open>Correctness of the allocator\<close>

text \<open>A small heap for the examples: 8192 bytes at address 4096.\<close>

lemma ex_heap:
  obtains t where "tlsf_create_with_pool 4096 8192 (\<lambda>_. 0) = Ret (Some t)" "heap_inv 512 1328 t [(205, True)]"
    "tlsf_heap 512 1328 206 t {}"
proof -
  have "adr 512 = 4096" by (simp add: adr_def)
  then show thesis
    using tlsf_create_with_pool_ok [of 205 8192 512 "\<lambda>_. 0"] heap_fresh [of 512 1328 _ 205] that by auto
qed

lemma ex_heap_used:
  obtains t a l where "tlsf_heap 512 1328 206 t {(a, l)}" "104 \<le> l"
proof -
  obtain t where t: "heap_inv 512 1328 t [(205, True)]" "tlsf_heap 512 1328 206 t {}" using ex_heap .
  have r: "req 100 = 13" by (simp add: req_def)
  show thesis
  proof (cases rule: malloc_heap [OF t(2), of 100])
    case 1
    have False
    proof (cases rule: tlsf_malloc_ok [OF t(1) refl, of 100])
      case 1
      then show False using r by simp
    next
      case (2 xs n ys n' ys' t')
      have "geo 512 1328 [(205, True)]" using t(1) by (simp add: heap_inv_def pool_def)
      then have "1328 + span xs + 2 < 2 ^ 61" using 2(2) by (cases xs) (auto simp: geo_def)
      then show False using 2(5) 1 by (simp add: adr_eq_0)
    qed
    then show thesis ..
  next
    case (2 p n t')
    then show thesis using that r by auto
  qed
qed

text \<open>
  C2 (\<^verbatim>\<open>tlsf_malloc\<close>).  On a well-formed heap an allocation never trips an assertion.  It returns null and leaves the
  heap as it was, or a pointer to a new area that is aligned, lies apart from every area in use, has at least the
  size asked for, as long as rounding that up does not wrap, and the bytes of the other areas are unchanged.
\<close>

theorem tlsf_malloc_spec:
  assumes "tlsf_heap z k0 N t U"
  shows "\<exists>p t'. tlsf_malloc sz t = Ret (p, t') \<and>
    (if p = 0 then t' = t
     else \<exists>n. tlsf_heap z k0 N t' (insert (unat p, n) U) \<and> unat p mod 8 = 0 \<and>
       (\<forall>(a, l) \<in> U. unat p + n \<le> a \<or> a + l \<le> unat p) \<and>
       (unat sz \<le> 2 ^ 64 - 8 \<longrightarrow> unat sz \<le> n) \<and> keeps t t' U)"
proof (cases rule: malloc_heap [OF assms, of sz])
  case (2 p n t')
  have "unat p + n \<le> a \<or> a + l \<le> unat p" if "(a, l) \<in> U" for a l
    using heap_disjoint [OF 2(3), of "unat p" n a l] 2(4) [of l] that by auto
  moreover have "unat p mod 8 = 0" using heap_area(1) [OF 2(3)] by blast
  moreover have "unat sz \<le> 2 ^ 64 - 8 \<longrightarrow> unat sz \<le> n" using req_ge [of "unat sz"] 2(5,6) by auto
  ultimately show ?thesis using 2(1,2,3,7) by auto
qed simp

theorem tlsf_malloc_spec_witness:
  "\<exists>t. tlsf_create_with_pool 4096 8192 (\<lambda>_. 0) = Ret (Some t) \<and> (\<exists>p t'. tlsf_malloc 100 t = Ret (p, t'))"
proof -
  obtain t where t: "tlsf_create_with_pool 4096 8192 (\<lambda>_. 0) = Ret (Some t)" "tlsf_heap 512 1328 206 t {}"
    using ex_heap .
  show ?thesis using t(1) tlsf_malloc_spec [OF t(2), of 100] by blast
qed

text \<open>
  C13 (\<^verbatim>\<open>tlsf_malloc\<close>, good fit).  An allocation of \<open>w\<close> cells succeeds whenever some free block is larger than the
  request by one part in 32: the two bitmap searches miss no block of a larger class.
\<close>

theorem tlsf_malloc_good_fit:
  assumes "heap_inv z k0 t bs" and "(k, n) \<in> frees k0 bs" and "req (unat sz) \<noteq> 0"
    and "8 * req (unat sz) + req (unat sz) div 4 \<le> 8 * n"
  shows "\<exists>p t'. tlsf_malloc sz t = Ret (p, t') \<and> p \<noteq> 0"
proof (cases rule: tlsf_malloc_ok [OF assms(1) refl, of sz])
  case 1
  then show ?thesis using assms by auto
next
  case (2 xs m ys n' ys' t')
  have "geo z k0 bs" using assms(1) by (simp add: heap_inv_def pool_def)
  then have "k0 + span xs + 2 < 2 ^ 61" using 2(2) by (auto simp: geo_def)
  then show ?thesis using 2(5) by (auto simp: adr_eq_0)
qed

theorem tlsf_malloc_good_fit_witness:
  "\<exists>t. tlsf_create_with_pool 4096 8192 (\<lambda>_. 0) = Ret (Some t) \<and> (\<exists>p t'. tlsf_malloc 1500 t = Ret (p, t') \<and> p \<noteq> 0)"
proof -
  obtain t where t: "tlsf_create_with_pool 4096 8192 (\<lambda>_. 0) = Ret (Some t)" "heap_inv 512 1328 t [(205, True)]"
    using ex_heap .
  have "req (unat (1500 :: u64)) = 188" by (simp add: req_def)
  then show ?thesis using t(1) tlsf_malloc_good_fit [OF t(2), of 1328 205 1500] by auto
qed

text \<open>
  C15 (\<^verbatim>\<open>tlsf_free\<close>).  Releasing an area that is in use never trips an assertion, takes exactly that area out of
  use and keeps the bytes of the others.
\<close>

theorem tlsf_free_spec:
  assumes "tlsf_heap z k0 N t U" and "(a, l) \<in> U"
  shows "\<exists>t'. tlsf_free (of_nat a) t = Ret t' \<and> tlsf_heap z k0 N t' (U - {(a, l)}) \<and> keeps t t' (U - {(a, l)})"
  by (rule free_heap [OF assms])

theorem tlsf_free_spec_witness:
  "\<exists>t a l. tlsf_heap 512 1328 206 t {(a, l)} \<and> (\<exists>t'. tlsf_free (of_nat a) t = Ret t' \<and> tlsf_heap 512 1328 206 t' {})"
proof -
  obtain t a l where t: "tlsf_heap 512 1328 206 t {(a, l)}" using ex_heap_used .
  show ?thesis using t tlsf_free_spec [OF t, of a l] by auto
qed

text \<open>
  C12 (\<^verbatim>\<open>tlsf_realloc\<close>).  Resizing an area in use to a size that is neither 0 nor too large returns null and leaves
  the heap alone, or a pointer to an area that replaces it, lies apart from the other areas, holds at least the bytes asked for and starts with
  the bytes of the old one; the other areas keep theirs.
\<close>

theorem tlsf_realloc_spec:
  assumes "tlsf_heap z k0 N t U" and "(a, l) \<in> U" and "0 < unat sz" and "unat sz \<le> 2 ^ 32 - 8"
  shows "\<exists>p t'. tlsf_realloc (of_nat a) sz t = Ret (p, t') \<and>
    (if p = 0 then t' = t
     else \<exists>n. tlsf_heap z k0 N t' (insert (unat p, n) (U - {(a, l)})) \<and> unat sz \<le> n \<and>
       (\<forall>(b, m) \<in> U - {(a, l)}. unat p + n \<le> b \<or> b + m \<le> unat p) \<and>
       keeps t t' (U - {(a, l)}) \<and> (\<forall>i < min l n. tmem t' (unat p + i) = tmem t (a + i)))"
proof -
  have nz: "sz \<noteq> 0" using assms(3) by auto
  have "(unat sz + 7) div 8 \<le> 2 ^ 29 - 1" using assms(4) by simp
  then have r: "req (unat sz) \<noteq> 0" using assms(3,4) by (auto simp: req_def Let_def)
  have g: "unat sz \<le> 8 * req (unat sz)" using req_ge [of "unat sz"] r assms(4) by simp
  show ?thesis
  proof (cases rule: realloc_heap [OF assms(1,2) nz r])
    case (2 p n t')
    have "unat p + n \<le> b \<or> b + m \<le> unat p" if "(b, m) \<in> U - {(a, l)}" for b m
      using heap_disjoint [OF 2(3), of "unat p" n b m] 2(7) [of m] that by auto
    then show ?thesis using 2 g by (auto intro!: exI [of _ n])
  qed simp
qed

theorem tlsf_realloc_spec_witness:
  "\<exists>t a l. tlsf_heap 512 1328 206 t {(a, l)} \<and> (\<exists>p t'. tlsf_realloc (of_nat a) 300 t = Ret (p, t'))"
proof -
  obtain t a l where t: "tlsf_heap 512 1328 206 t {(a, l)}" using ex_heap_used .
  show ?thesis using t tlsf_realloc_spec [OF t, of a l 300] by auto
qed

text \<open>
  C1 (\<^verbatim>\<open>tlsf_malloc\<close>, \<^verbatim>\<open>tlsf_free\<close>).  In a session of allocations and releases of any length on a fresh heap no
  assertion fails, the client's pointers are distinct and point to areas that do not overlap, and when the
  client has released everything the pool is the one free block it was at the start.
\<close>

theorem tlsf_session_spec:
  assumes "heap_inv z k0 t [(n, True)]"
  shows "\<exists>t' ps U. session tlsf_malloc tlsf_free cs t [] = Ret (t', ps) \<and> distinct ps \<and>
    tlsf_heap z k0 (n + 1) t' U \<and> fst ` U = unat ` set ps \<and>
    (\<forall>(a, l) \<in> U. \<forall>(b, m) \<in> U. a \<noteq> b \<longrightarrow> a + l \<le> b \<or> b + m \<le> a) \<and>
    (ps = [] \<longrightarrow> heap_inv z k0 t' [(n, True)])"
proof -
  have e: "fst ` {} = unat ` set ([] :: u64 list)" by simp
  obtain t' ps U where s: "session tlsf_malloc tlsf_free cs t [] = Ret (t', ps)" "tlsf_heap z k0 (n + 1) t' U"
    "fst ` U = unat ` set ps" "distinct ps"
    using tlsf_alloc.session_runs [OF heap_fresh [OF assms] e distinct.simps(1) [THEN iffD2, OF TrueI], of cs] by blast
  have d: "\<forall>(a, l) \<in> U. \<forall>(b, m) \<in> U. a \<noteq> b \<longrightarrow> a + l \<le> b \<or> b + m \<le> a"
    using heap_disjoint [OF s(2)] by fastforce
  have "heap_inv z k0 t' [(n, True)]" if "ps = []"
    using heap_drained [of z k0 n t'] s(2,3) that by simp
  then show ?thesis using s d by (intro exI [of _ t'] exI [of _ ps] exI [of _ U]) simp
qed

theorem tlsf_session_spec_witness:
  "\<exists>t. tlsf_create_with_pool 4096 8192 (\<lambda>_. 0) = Ret (Some t) \<and>
    (\<exists>t' ps. session tlsf_malloc tlsf_free [Alloc 100, Alloc 40, Release 1, Alloc 7, Release 0, Release 0] t [] = Ret (t', ps) \<and>
      distinct ps)"
proof -
  obtain t where t: "tlsf_create_with_pool 4096 8192 (\<lambda>_. 0) = Ret (Some t)" "heap_inv 512 1328 t [(205, True)]"
    using ex_heap .
  show ?thesis using t(1) tlsf_session_spec [OF t(2)] by blast
qed

text \<open>
  C36 (\<^verbatim>\<open>adjust_request_size\<close>).  A request of one of the seven largest sizes wraps around when it is rounded up and
  is served like a request of 24 bytes.
\<close>

theorem tlsf_malloc_wraps:
  assumes "2 ^ 64 - 8 < unat sz"
  shows "tlsf_malloc sz t = tlsf_malloc 24 t"
proof -
  have b: "unat sz < 2 ^ LENGTH(64)" by (rule unsigned_less)
  then have "(unat sz + 7) mod 2 ^ 64 = unat sz + 7 - 2 ^ 64"
    using assms by (subst mod_if) (simp add: mod_if)
  then have "(unat sz + 7) mod 2 ^ 64 div 8 = 0" using b by simp
  then have "req (unat sz) = 3" using assms by (simp add: req_def)
  moreover have "req (unat (24 :: u64)) = 3" by (simp add: req_def)
  ultimately show ?thesis using adjust_req [of sz] adjust_req [of 24] by (simp add: tlsf_malloc_def)
qed

theorem tlsf_malloc_wraps_witness:
  "tlsf_malloc 0xFFFFFFFFFFFFFFFF (control_construct 4096 (\<lambda>_. 0)) = tlsf_malloc 24 (control_construct 4096 (\<lambda>_. 0))"
  by (rule tlsf_malloc_wraps) simp

end
