(* ===== verification/Os_Kalloc.thy ===== *)
theory Os_Kalloc
  imports Vm_Tlsf_Spec Vm_Seg L5_Kalloc
begin

text \<open>
  The kernel heap (\<^verbatim>\<open>os/os_kalloc.c\<close>) on the allocator of \<^verbatim>\<open>vm/vm_tlsf.c\<close> and on the frames of \<^verbatim>\<open>vm/vm_seg.c\<close>.
  The theory \<open>L5_Kalloc\<close> has the heap as the rest of the kernel sees it, with the answers of the allocator as an
  oracle; the refinement below shows that every run of the real heap is a run of that one.  The lock around each
  call has no counterpart: the model runs one call at a time.
\<close>

section \<open>The kernel heap\<close>

abbreviation (input) KALLOC_POOL_SZ :: u64 where "KALLOC_POOL_SZ \<equiv> 0x400000"
abbreviation (input) KALLOC_POOL_PAGES :: nat where "KALLOC_POOL_PAGES \<equiv> 0x400000 div DEFAULT_PAGESIZE"

text \<open>
  The memory of the pool is part of the allocator's state: it reaches it through the higher half at \<open>hhdm\<close>
  (\<^verbatim>\<open>VM_HIGHER_HALF\<close>), and the frames behind it belong to nobody else once they are allocated.
\<close>

record kalloc_state =
  is_init :: bool
  pool_pa :: nat
  pool_va :: u64
  tlsf_ctx :: "tlsf option"

definition phys_to_virt :: "u64 \<Rightarrow> nat \<Rightarrow> u64" where
  "phys_to_virt hhdm pa = of_nat pa + hhdm"

definition kalloc_init :: "u64 \<Rightarrow> kalloc_state \<times> 'a seg_scheme \<Rightarrow> (kalloc_state \<times> 'a seg_scheme) exec" where
  "kalloc_init hhdm = (\<lambda>(ks, s).
     if is_init ks then Ret (ks, s)
     else
       exec_bind (vm_alloc_frame KALLOC_POOL_PAGES s)
         (\<lambda>(pa, s). if pa = 0 then Panic
            else
              (let va = phys_to_virt hhdm pa
               in exec_bind (tlsf_create_with_pool va KALLOC_POOL_SZ (\<lambda>a. mem s (a - unat hhdm)))
                 (\<lambda>t. Ret (\<lparr>is_init = True, pool_pa = pa, pool_va = va, tlsf_ctx = t\<rparr>, s)))))"

definition os_kalloc :: "u64 \<Rightarrow> kalloc_state \<Rightarrow> (u64 \<times> kalloc_state) exec" where
  "os_kalloc sz ks =
     (if \<not> is_init ks then Ret (0, ks)
      else
        case tlsf_ctx ks of
          None \<Rightarrow> Fault
        | Some t \<Rightarrow> exec_bind (tlsf_malloc sz t) (\<lambda>(tmp, t). Ret (tmp, ks\<lparr>tlsf_ctx := Some t\<rparr>)))"

definition os_krealloc :: "u64 \<Rightarrow> u64 \<Rightarrow> kalloc_state \<Rightarrow> (u64 \<times> kalloc_state) exec" where
  "os_krealloc old_ptr newsize ks =
     (case tlsf_ctx ks of
        None \<Rightarrow> Fault
      | Some t \<Rightarrow> exec_bind (tlsf_realloc old_ptr newsize t) (\<lambda>(tmp, t). Ret (tmp, ks\<lparr>tlsf_ctx := Some t\<rparr>)))"

definition os_kfree :: "u64 \<Rightarrow> kalloc_state \<Rightarrow> kalloc_state exec" where
  "os_kfree p ks =
     (case tlsf_ctx ks of
        None \<Rightarrow> if p = 0 then Ret ks else Fault
      | Some t \<Rightarrow> exec_bind (tlsf_free p t) (\<lambda>t. Ret (ks\<lparr>tlsf_ctx := Some t\<rparr>)))"

section \<open>Initialisation\<close>

definition kernel_heap_ok :: "nat \<Rightarrow> nat \<Rightarrow> nat \<Rightarrow> kalloc_state \<Rightarrow> (nat \<times> nat) set \<Rightarrow> bool" where
  "kernel_heap_ok z k0 N ks U \<longleftrightarrow> is_init ks \<and> (\<exists>t. tlsf_ctx ks = Some t \<and> tlsf_heap z k0 N t U)"

lemma kalloc_init_ok:
  assumes "seg_inv s" and "free_run s k 1024" and "unat hhdm mod 8 = 0"
    and "unat hhdm + 4096 * highest_frame_idx s + 4096 \<le> 2 ^ 64" and "\<not> is_init ks"
  shows "\<exists>k ks' s'. free_run s k 1024 \<and> kalloc_init hhdm (ks, s) = Ret (ks', s') \<and> seg_inv s' \<and>
    (\<forall>i. frame_free s' i \<longleftrightarrow> frame_free s i \<and> \<not> (k \<le> i \<and> i < k + 1024)) \<and>
    (let z = (unat hhdm + 4096 * k) div 8
     in kernel_heap_ok z (z + 816) 523470 ks' {} \<and> (\<exists>t. tlsf_ctx ks' = Some t \<and> heap_inv z (z + 816) t [(523469, True)]))"
proof -
  obtain bm where bm: "bitmap s = Some bm" using assms(1) by (auto simp: seg_inv_def split: option.splits)
  show ?thesis
  proof (cases rule: vm_alloc_frame_cases [OF assms(1) bm, of 1024, case_names pos found none])
    case (found k)
    let ?s = "counted 1024 (take_frames bm k 1024 s)" and ?z = "(unat hhdm + 4096 * k) div 8"
    have "k + 1024 \<le> highest_frame_idx s" using free_runD [OF found(2), of "k + 1023"] frame_free_hi [of s "k + 1023"] by simp
    then have "4096 * (k + 1024) \<le> 4096 * highest_frame_idx s" by (rule mult_le_mono2)
    then have b: "unat hhdm + 4096 * k + 4194304 + 4096 \<le> 2 ^ 64" using assms(4) by simp
    have "8 dvd unat hhdm + 4096 * k" using assms(3) by (simp add: dvd_add mod_eq_0_iff_dvd)
    then have "8 * ?z = unat hhdm + 4096 * k" by (rule dvd_mult_div_cancel)
    then have va: "phys_to_virt hhdm (4096 * k) = adr ?z"
      unfolding adr_def phys_to_virt_def by (simp add: add.commute)
    have "unat (KALLOC_POOL_SZ - 6552) div 8 = 523469" by simp
    moreover have "0 < ?z" using found(1) by simp
    moreover have "?z + 523469 + 830 < 2 ^ 61" using b by simp
    ultimately obtain t where t: "tlsf_create_with_pool (adr ?z) KALLOC_POOL_SZ (\<lambda>a. mem ?s (a - unat hhdm)) = Ret (Some t)"
      "heap_inv ?z (?z + 816) t [(523469, True)]"
      using tlsf_create_with_pool_ok [of 523469 KALLOC_POOL_SZ ?z "\<lambda>a. mem ?s (a - unat hhdm)"] by auto
    have "vm_alloc_frame 1024 s = Ret (4096 * k, ?s)" using found(3) by (simp only: mult.commute)
    then have "kalloc_init hhdm (ks, s) = Ret (\<lparr>is_init = True, pool_pa = 4096 * k, pool_va = adr ?z, tlsf_ctx = Some t\<rparr>, ?s)"
      using assms(5) found(1) t(1) va by (simp add: kalloc_init_def Let_def)
    moreover have "seg_inv ?s" using alloc_inv [OF assms(1) bm found(2)] by simp
    moreover have "frame_free ?s i \<longleftrightarrow> frame_free s i \<and> \<not> (k \<le> i \<and> i < k + 1024)" for i
      using take_frames_free [OF assms(1) bm found(2), of i] by (simp add: counted_def)
    moreover have "tlsf_heap ?z (?z + 816) 523470 t {}" using heap_fresh [OF t(2)] by simp
    ultimately show ?thesis using found(2) t(2)
      by (intro exI [of _ k] exI conjI) (assumption | simp add: kernel_heap_ok_def Let_def)+
  qed (use assms(2) in auto)
qed

section \<open>The heap the rest of the kernel sees\<close>

text \<open>
  A client of the heap makes calls on the pointers it holds, numbered by their position.  \<open>kstep\<close> makes a call
  on an allocator that returns addresses, \<open>astep\<close> the same call on the heap of \<open>L5_Kalloc\<close>, where allocations
  have numbers.
\<close>

datatype kcall = KAlloc u64 | KFree nat | KRealloc nat u64

definition remove_at :: "nat \<Rightarrow> 'a list \<Rightarrow> 'a list" where
  "remove_at i xs = take i xs @ drop (Suc i) xs"

fun kstep ::
  "(u64 \<Rightarrow> 's \<Rightarrow> (u64 \<times> 's) exec) \<Rightarrow> (u64 \<Rightarrow> 's \<Rightarrow> 's exec) \<Rightarrow> (u64 \<Rightarrow> u64 \<Rightarrow> 's \<Rightarrow> (u64 \<times> 's) exec) \<Rightarrow> kcall \<Rightarrow>
   's \<times> u64 list \<Rightarrow> ('s \<times> u64 list) exec" where
  "kstep malloc free realloc (KAlloc sz) (s, ps) =
     exec_bind (malloc sz s) (\<lambda>(p, s). Ret (s, if p = 0 then ps else p # ps))"
| "kstep malloc free realloc (KFree i) (s, ps) =
     (if i < length ps then exec_bind (free (ps ! i) s) (\<lambda>s. Ret (s, remove_at i ps)) else Ret (s, ps))"
| "kstep malloc free realloc (KRealloc i sz) (s, ps) =
     (if i < length ps
      then exec_bind (realloc (ps ! i) sz s)
        (\<lambda>(p, s). Ret (s, if sz = 0 then remove_at i ps else if p = 0 then ps else ps[i := p]))
      else Ret (s, ps))"

fun astep :: "kcall \<Rightarrow> kheap \<times> nat list \<Rightarrow> (kheap \<times> nat list) option" where
  "astep (KAlloc sz) (h, ids) = (case kalloc (unat sz) h of (None, h) \<Rightarrow> Some (h, ids) | (Some n, h) \<Rightarrow> Some (h, n # ids))"
| "astep (KFree i) (h, ids) =
     (if i < length ids then Some (kfree (Some (ids ! i)) h, remove_at i ids) else Some (h, ids))"
| "astep (KRealloc i sz) (h, ids) =
     (if i < length ids
      then (case krealloc (ids ! i) (unat sz) h of
              None \<Rightarrow> None
            | Some (None, h) \<Rightarrow> Some (h, if sz = 0 then remove_at i ids else ids)
            | Some (Some n, h) \<Rightarrow> Some (h, ids[i := n]))
      else Some (h, ids))"

fun krun where
  "krun malloc free realloc [] x = Ret x"
| "krun malloc free realloc (c # cs) x = exec_bind (kstep malloc free realloc c x) (krun malloc free realloc cs)"

fun arun :: "kcall list \<Rightarrow> kheap \<times> nat list \<Rightarrow> (kheap \<times> nat list) option" where
  "arun [] x = Some x"
| "arun (c # cs) x = Option.bind (astep c x) (arun cs)"

fun call_ok :: "kcall \<Rightarrow> bool" where
  "call_ok (KRealloc i sz) \<longleftrightarrow> unat sz \<le> KREALLOC_MAX"
| "call_ok _ \<longleftrightarrow> True"

text \<open>The areas in use are those of the live allocations.\<close>

definition ksim :: "kheap \<Rightarrow> (nat \<times> nat) set \<Rightarrow> nat list \<Rightarrow> bool" where
  "ksim h U ids \<longleftrightarrow> k_init h \<and> heap_wf h \<and> distinct ids \<and> set (k_live h) = set ids \<and> inj_on (k_addr h) (set ids) \<and>
     fst ` U = unat ` k_addr h ` set ids"

definition tell :: "u64 \<Rightarrow> kheap \<Rightarrow> kheap" where
  "tell p h = h\<lparr>k_oom := (k_oom h)(k_cnt h := (p = 0)), k_addr := (k_addr h)(k_cnt h := p)\<rparr>"

definition answers :: "(nat \<Rightarrow> bool) \<Rightarrow> (nat \<Rightarrow> u64) \<Rightarrow> kheap \<Rightarrow> kheap" where
  "answers oom addr h = h\<lparr>k_oom := oom, k_addr := addr\<rparr>"

lemma remove_at_set:
  assumes "i < length xs" and "distinct xs"
  shows "set (remove_at i xs) = set xs - {xs ! i}" and "distinct (remove_at i xs)"
  using nth_remove [OF assms] by (simp_all only: remove_at_def)

lemma map_remove_at: "map f (remove_at i xs) = remove_at i (map f xs)"
  by (simp add: remove_at_def take_map drop_map)

lemma set_list_update_distinct:
  assumes "distinct xs" and "i < length xs"
  shows "set (xs[i := x]) = insert x (set xs - {xs ! i})"
  using assms by (simp add: set_update_distinct)

lemma answers_tell [simp]: "answers oom addr (tell p h) = answers oom addr h"
  by (simp add: answers_def tell_def)

lemma astep_answers:
  assumes "astep c (h, ids) = Some (h', ids')" and "\<forall>i < k_cnt h'. oom i = k_oom h i"
  shows "astep c (answers oom addr h, ids) = Some (answers oom addr h', ids')"
  using assms
  by (cases c) (auto simp: answers_def kalloc_def krealloc_def kfree_def Let_def split: if_splits option.splits prod.splits)

lemma astep_kept:
  assumes "astep c (h, ids) = Some (h', ids')"
  shows "k_addr h' = k_addr h" and "k_oom h' = k_oom h" and "k_cnt h \<le> k_cnt h'"
  using assms
  by (cases c; auto simp: kalloc_def krealloc_def kfree_def Let_def split: if_splits option.splits prod.splits)+

lemma ksim_live: "ksim h U ids \<Longrightarrow> j \<in> set ids \<Longrightarrow> j < k_cnt h"
  by (auto simp: ksim_def heap_wf_def)

lemma tell_simps [simp]:
  "k_addr (tell p h) (k_cnt h) = p" "k_oom (tell p h) (k_cnt h) = (p = 0)" "k_cnt (tell p h) = k_cnt h"
  "k_live (tell p h) = k_live h" "k_init (tell p h) = k_init h" "i < k_cnt h \<Longrightarrow> k_addr (tell p h) i = k_addr h i"
  by (simp_all add: tell_def)

lemma tell_addr:
  assumes "ksim h U ids"
  shows "map (k_addr (tell p h)) ids = map (k_addr h) ids"
    and "A \<subseteq> set ids \<Longrightarrow> k_addr (tell p h) ` A = k_addr h ` A"
    and "inj_on (k_addr (tell p h)) (set ids)"
proof -
  have e: "k_addr (tell p h) j = k_addr h j" if "j \<in> set ids" for j using ksim_live [OF assms that] by simp
  then show "map (k_addr (tell p h)) ids = map (k_addr h) ids" by simp
  show "k_addr (tell p h) ` A = k_addr h ` A" if "A \<subseteq> set ids" using e that by (intro image_cong) auto
  have "inj_on (k_addr h) (set ids)" using assms by (simp add: ksim_def)
  then show "inj_on (k_addr (tell p h)) (set ids)" using e by (simp add: inj_on_def)
qed

lemma ksim_tell:
  assumes "ksim h U ids"
  shows "ksim (tell p h) U ids"
  using assms tell_addr(2) [OF assms subset_refl] tell_addr(3) [OF assms] by (simp add: ksim_def heap_wf_def)
locale kernel_heap = allocator ok malloc free
  for ok :: "'s \<Rightarrow> (nat \<times> nat) set \<Rightarrow> bool"
    and malloc :: "u64 \<Rightarrow> 's \<Rightarrow> (u64 \<times> 's) exec"
    and free :: "u64 \<Rightarrow> 's \<Rightarrow> 's exec" +
  fixes realloc :: "u64 \<Rightarrow> u64 \<Rightarrow> 's \<Rightarrow> (u64 \<times> 's) exec"
  assumes malloc_zero: "ok s U \<Longrightarrow> \<exists>s'. malloc 0 s = Ret (0, s')"
    and realloc_law: "ok s U \<Longrightarrow> (unat p, n) \<in> U \<Longrightarrow> unat sz \<le> KREALLOC_MAX \<Longrightarrow>
      \<exists>q s'. realloc p sz s = Ret (q, s') \<and>
        (if sz = 0 then ok s' (U - {(unat p, n)})
         else if q = 0 then ok s' U
         else (\<exists>m. ok s' (insert (unat q, m) (U - {(unat p, n)})) \<and> unat q \<notin> fst ` (U - {(unat p, n)})))"
begin

lemma ksim_area:
  assumes "ksim h U ids" and "i < length ids"
  obtains n where "(unat (k_addr h (ids ! i)), n) \<in> U"
proof -
  have "fst ` U = unat ` k_addr h ` set ids" using assms(1) by (simp add: ksim_def)
  moreover have "ids ! i \<in> set ids" using assms(2) by simp
  ultimately have "unat (k_addr h (ids ! i)) \<in> fst ` U" by blast
  then show thesis using that by auto
qed

lemma ksim_removed:
  assumes "ok s U" and "ksim h U ids" and "i < length ids" and "(unat (k_addr h (ids ! i)), n) \<in> U"
  shows "fst ` (U - {(unat (k_addr h (ids ! i)), n)}) = unat ` k_addr h ` (set ids - {ids ! i})"
proof -
  have "inj_on (\<lambda>j. unat (k_addr h j)) (set ids)"
    using assms(2) by (simp add: ksim_def inj_on_def word_unat_eq_iff)
  then have "(\<lambda>j. unat (k_addr h j)) ` (set ids - {ids ! i}) =
      (\<lambda>j. unat (k_addr h j)) ` set ids - (\<lambda>j. unat (k_addr h j)) ` {ids ! i}"
    by (rule inj_on_image_set_diff) (use assms(3) in auto)
  then show ?thesis
    using area_removed [OF assms(1,4)] assms(2) by (simp add: ksim_def image_image)
qed

lemma step_alloc:
  assumes "ok s U" and "ksim h U ids"
  shows "\<exists>p s' U' h' ids'. kstep malloc free realloc (KAlloc sz) (s, map (k_addr h) ids) = Ret (s', map (k_addr h') ids') \<and>
    astep (KAlloc sz) (tell p h, ids) = Some (h', ids') \<and> ok s' U' \<and> ksim h' U' ids'"
proof -
  obtain p s' where p: "malloc sz s = Ret (p, s')"
    "if p = 0 then ok s' U else (\<exists>n. ok s' (insert (unat p, n) U) \<and> unat p \<notin> fst ` U)"
    using malloc_law [OF assms(1)] by blast
  note live = ksim_live [OF assms(2)] and eq = tell_addr(1) [OF assms(2), of p] and inj = tell_addr(3) [OF assms(2), of p]
    and img = tell_addr(2) [OF assms(2) subset_refl, of p]
  show ?thesis
  proof (cases "p = 0")
    case True
    have "kalloc (unat sz) (tell p h) = (None, (tell p h)\<lparr>k_cnt := k_cnt h + 1\<rparr>)"
      using assms(2) True by (simp add: ksim_def kalloc_def Let_def)
    moreover have "ksim ((tell p h)\<lparr>k_cnt := k_cnt h + 1\<rparr>) U ids"
      using assms(2) inj img by (auto simp: ksim_def heap_wf_def less_Suc_eq)
    ultimately show ?thesis using p True eq by (intro exI [of _ p] exI [of _ s'] exI [of _ U] exI conjI) auto
  next
    case False
    then obtain n where n: "ok s' (insert (unat p, n) U)" "unat p \<notin> fst ` U" using p(2) by auto
    have nz: "unat sz \<noteq> 0"
    proof
      assume "unat sz = 0"
      then have "sz = 0" by (simp add: unat_eq_zero)
      then show False using malloc_zero [OF assms(1)] p(1) False by auto
    qed
    let ?h = "(tell p h)\<lparr>k_cnt := k_cnt h + 1, k_live := k_cnt h # k_live h\<rparr>"
    have "kalloc (unat sz) (tell p h) = (Some (k_cnt h), ?h)"
      using assms(2) False nz by (simp add: ksim_def kalloc_def Let_def)
    moreover have "ksim ?h (insert (unat p, n) U) (k_cnt h # ids)"
      using assms(2) n(2) inj img live by (auto simp: ksim_def heap_wf_def less_Suc_eq image_iff)
    ultimately show ?thesis using p(1) n(1) False eq
      by (intro exI [of _ p] exI [of _ s'] exI [of _ "insert (unat p, n) U"] exI conjI) (auto simp: tell_def)
  qed
qed

lemma step_free:
  assumes "ok s U" and "ksim h U ids"
  shows "\<exists>s' U' h' ids'. kstep malloc free realloc (KFree i) (s, map (k_addr h) ids) = Ret (s', map (k_addr h') ids') \<and>
    astep (KFree i) (h, ids) = Some (h', ids') \<and> ok s' U' \<and> ksim h' U' ids'"
proof (cases "i < length ids")
  case True
  obtain n where n: "(unat (k_addr h (ids ! i)), n) \<in> U" using ksim_area [OF assms(2) True] .
  obtain s' where s': "free (k_addr h (ids ! i)) s = Ret s'" "ok s' (U - {(unat (k_addr h (ids ! i)), n)})"
    using free_law [OF assms(1) n] by blast
  have d: "distinct ids" using assms(2) by (simp add: ksim_def)
  have "ksim (kfree (Some (ids ! i)) h) (U - {(unat (k_addr h (ids ! i)), n)}) (remove_at i ids)"
    using assms(2) ksim_removed [OF assms True n] kfree_wf [of h "Some (ids ! i)"] remove_at_set [OF True d]
    by (auto simp: ksim_def kfree_def heap_wf_def intro: inj_on_subset)
  then show ?thesis using s' True
    by (intro exI [of _ s'] exI [of _ "U - {(unat (k_addr h (ids ! i)), n)}"] exI conjI) (auto simp: map_remove_at kfree_def)
qed (use assms in auto)

lemma step_realloc:
  assumes "ok s U" and "ksim h U ids" and "unat sz \<le> KREALLOC_MAX"
  shows "\<exists>p s' U' h' ids'. kstep malloc free realloc (KRealloc i sz) (s, map (k_addr h) ids) = Ret (s', map (k_addr h') ids') \<and>
    astep (KRealloc i sz) (tell p h, ids) = Some (h', ids') \<and> ok s' U' \<and> ksim h' U' ids'"
proof (cases "i < length ids")
  case True
  let ?a = "k_addr h (ids ! i)"
  obtain n where n: "(unat ?a, n) \<in> U" using ksim_area [OF assms(2) True] .
  obtain p s' where p: "realloc ?a sz s = Ret (p, s')"
    "if sz = 0 then ok s' (U - {(unat ?a, n)}) else if p = 0 then ok s' U
     else (\<exists>m. ok s' (insert (unat p, m) (U - {(unat ?a, n)})) \<and> unat p \<notin> fst ` (U - {(unat ?a, n)}))"
    using realloc_law [OF assms(1) n assms(3)] by blast
  have d: "distinct ids" using assms(2) by (simp add: ksim_def)
  note rm = ksim_removed [OF assms(1,2) True n]
  note live = ksim_live [OF assms(2)] and eq = tell_addr(1) [OF assms(2), of p] and inj = tell_addr(3) [OF assms(2), of p]
    and img = tell_addr(2) [OF assms(2), of _ p]
  have sz: "unat sz = 0 \<longleftrightarrow> sz = 0" by (simp add: unat_eq_zero)
  consider "sz = 0" | "sz \<noteq> 0" "p = 0" | "sz \<noteq> 0" "p \<noteq> 0" by blast
  then show ?thesis
  proof cases
    case 1
    let ?h = "kfree (Some (ids ! i)) ((tell p h)\<lparr>k_cnt := k_cnt h + 1\<rparr>)"
    have st: "set (remove_at i ids) = set ids - {ids ! i}" "distinct (remove_at i ids)" using remove_at_set [OF True d] by blast+
    have "heap_wf ?h" using assms(2) by (intro kfree_wf) (auto simp: ksim_def heap_wf_def less_Suc_eq)
    then have "ksim ?h (U - {(unat ?a, n)}) (remove_at i ids)"
      using assms(2) rm img [of "set ids - {ids ! i}"] inj st
      by (auto simp: ksim_def kfree_def heap_wf_def less_Suc_eq intro: inj_on_subset)
    moreover have "map (k_addr ?h) (remove_at i ids) = remove_at i (map (k_addr h) ids)"
      by (simp add: map_remove_at kfree_def eq del: map_eq_conv)
    moreover have "astep (KRealloc i sz) (tell p h, ids) = Some (?h, remove_at i ids)"
      using True 1 by (simp add: krealloc_def Let_def)
    ultimately show ?thesis using p True 1
      by (intro exI [of _ p] exI [of _ s'] exI [of _ "U - {(unat ?a, n)}"] exI [of _ ?h] exI [of _ "remove_at i ids"]) simp
  next
    case 2
    let ?h = "(tell p h)\<lparr>k_cnt := k_cnt h + 1\<rparr>"
    have "ksim ?h U ids" using assms(2) inj img [of "set ids"] by (auto simp: ksim_def heap_wf_def less_Suc_eq)
    moreover have "astep (KRealloc i sz) (tell p h, ids) = Some (?h, ids)"
      using True 2 assms(3) sz by (simp add: krealloc_def Let_def)
    moreover have "map (k_addr ?h) ids = map (k_addr h) ids" by (simp add: eq del: map_eq_conv)
    ultimately show ?thesis using p True 2
      by (intro exI [of _ p] exI [of _ s'] exI [of _ U] exI [of _ ?h] exI [of _ ids]) simp
  next
    case 3
    then obtain m where m: "ok s' (insert (unat p, m) (U - {(unat ?a, n)}))" "unat p \<notin> fst ` (U - {(unat ?a, n)})" using p(2) by auto
    let ?h = "(tell p h)\<lparr>k_cnt := k_cnt h + 1, k_live := k_cnt h # remove1 (ids ! i) (k_live h)\<rparr>" and ?ids = "ids[i := k_cnt h]"
    have fr: "k_cnt h \<notin> set ids" using live by blast
    have st: "set ?ids = insert (k_cnt h) (set ids - {ids ! i})" by (rule set_list_update_distinct [OF d True])
    have di: "distinct ?ids" using d fr by (intro distinct_list_update) auto
    have lv: "set (remove1 (ids ! i) (k_live h)) = set ids - {ids ! i}" "distinct (k_live h)" "set (k_live h) = set ids"
      using assms(2) by (auto simp: ksim_def heap_wf_def)
    have "heap_wf ?h" using lv fr live by (auto simp: heap_wf_def less_Suc_eq)
    moreover have "inj_on (k_addr ?h) (set ?ids)"
    proof -
      have "p \<notin> k_addr h ` (set ids - {ids ! i})" using m(2) rm by auto
      then have "p \<notin> k_addr (tell p h) ` (set ids - {ids ! i})" using img [of "set ids - {ids ! i}"] by auto
      moreover have "k_addr (tell p h) (k_cnt h) = p" by (simp add: tell_def)
      ultimately show ?thesis unfolding st using inj fr by (auto intro: inj_on_subset)
    qed
    moreover have "fst ` insert (unat p, m) (U - {(unat ?a, n)}) = unat ` k_addr ?h ` set ?ids"
      unfolding st using rm img [of "set ids - {ids ! i}"] by simp
    ultimately have "ksim ?h (insert (unat p, m) (U - {(unat ?a, n)})) ?ids"
      using assms(2) di st lv by (simp add: ksim_def)
    moreover have "astep (KRealloc i sz) (tell p h, ids) = Some (?h, ?ids)"
      using True 3 assms(3) sz by (simp add: krealloc_def Let_def)
    moreover have "map (k_addr ?h) ?ids = (map (k_addr h) ids)[i := p]"
      by (simp add: map_update eq del: map_eq_conv)
    ultimately show ?thesis using p(1) m(1) True 3
      by (intro exI [of _ p] exI [of _ s'] exI [of _ "insert (unat p, m) (U - {(unat ?a, n)})"] exI [of _ ?h] exI [of _ ?ids]) simp
  qed
next
  case False
  then show ?thesis
    using assms ksim_tell [OF assms(2), of 0] tell_addr(1) [OF assms(2), of 0]
    by (intro exI [of _ 0] exI [of _ s] exI [of _ U] exI [of _ "tell 0 h"] exI [of _ ids]) simp
qed

lemma step_refines:
  assumes "ok s U" and "ksim h U ids" and "call_ok c"
  shows "\<exists>p s' U' h' ids'. kstep malloc free realloc c (s, map (k_addr h) ids) = Ret (s', map (k_addr h') ids') \<and>
    astep c (tell p h, ids) = Some (h', ids') \<and> ok s' U' \<and> ksim h' U' ids'"
proof (cases c)
  case (KAlloc sz)
  then show ?thesis using step_alloc [OF assms(1,2)] by simp
next
  case (KFree i)
  have "\<exists>s' U' h' ids'. kstep malloc free realloc (KFree i) (s, map (k_addr (tell 0 h)) ids) = Ret (s', map (k_addr h') ids') \<and>
    astep (KFree i) (tell 0 h, ids) = Some (h', ids') \<and> ok s' U' \<and> ksim h' U' ids'"
    by (rule step_free [OF assms(1) ksim_tell [OF assms(2)]])
  then show ?thesis unfolding KFree tell_addr(1) [OF assms(2)] by blast
next
  case (KRealloc i sz)
  then show ?thesis using step_realloc [OF assms(1,2)] assms(3) by simp
qed

lemma run_refines:
  assumes "ok s U" and "ksim h U ids" and "list_all call_ok cs"
  shows "\<exists>s' oom addr h' ids' U'. krun malloc free realloc cs (s, map (k_addr h) ids) = Ret (s', map addr ids') \<and>
    arun cs (answers oom addr h, ids) = Some (h', ids') \<and> (\<forall>i < k_cnt h. addr i = k_addr h i \<and> oom i = k_oom h i) \<and>
    ok s' U' \<and> k_addr h' = addr \<and> ksim h' U' ids'"
  using assms
proof (induction cs arbitrary: s U h ids)
  case Nil
  then show ?case
    by (intro exI [of _ s] exI [of _ "k_oom h"] exI [of _ "k_addr h"] exI [of _ h] exI [of _ ids] exI [of _ U]) (simp add: answers_def)
next
  case (Cons c cs)
  obtain p s1 U1 h1 ids1 where st: "kstep malloc free realloc c (s, map (k_addr h) ids) = Ret (s1, map (k_addr h1) ids1)"
    "astep c (tell p h, ids) = Some (h1, ids1)" "ok s1 U1" "ksim h1 U1 ids1"
    using step_refines [OF Cons.prems(1,2), of c] Cons.prems(3) by auto
  have "list_all call_ok cs" using Cons.prems(3) by simp
  from Cons.IH [OF st(3,4) this] obtain s' oom addr h' ids' U' where
    r: "krun malloc free realloc cs (s1, map (k_addr h1) ids1) = Ret (s', map addr ids')"
      "arun cs (answers oom addr h1, ids1) = Some (h', ids')"
      and ag: "\<forall>i < k_cnt h1. addr i = k_addr h1 i \<and> oom i = k_oom h1 i" and fin: "ok s' U'" "k_addr h' = addr" "ksim h' U' ids'"
    by blast
  note k = astep_kept [OF st(2)]
  have "astep c (answers oom addr (tell p h), ids) = Some (answers oom addr h1, ids1)"
    using ag k(2) by (intro astep_answers [OF st(2)]) simp
  then have "arun (c # cs) (answers oom addr h, ids) = Some (h', ids')" using r(2) by simp
  moreover have "\<forall>i < k_cnt h. addr i = k_addr h i \<and> oom i = k_oom h i"
    using ag k by (simp add: tell_def)
  moreover have "krun malloc free realloc (c # cs) (s, map (k_addr h) ids) = Ret (s', map addr ids')" using st(1) r(1) by simp
  ultimately show ?case using fin by blast
qed

end
lemma tlsf_malloc_zero: "tlsf_malloc 0 t = Ret (0, t)"
  using adjust_req [of 0] by (simp add: tlsf_malloc_def req_def adr_def block_locate_free_def block_prepare_used_def)

interpretation kheap: kernel_heap "kernel_heap_ok z k0 N" os_kalloc os_kfree os_krealloc for z k0 N
proof
  fix s U sz assume "kernel_heap_ok z k0 N s U"
  then obtain t where t: "is_init s" "tlsf_ctx s = Some t" "tlsf_heap z k0 N t U" by (auto simp: kernel_heap_ok_def)
  obtain p t' where p: "tlsf_malloc sz t = Ret (p, t')"
    "if p = 0 then tlsf_heap z k0 N t' U else (\<exists>n. tlsf_heap z k0 N t' (insert (unat p, n) U) \<and> unat p \<notin> fst ` U)"
    using tlsf_alloc.malloc_law [OF t(3), of sz] by blast
  have "os_kalloc sz s = Ret (p, s\<lparr>tlsf_ctx := Some t'\<rparr>)" using t(1,2) p(1) by (simp add: os_kalloc_def)
  then show "\<exists>p s'. os_kalloc sz s = Ret (p, s') \<and>
      (if p = 0 then kernel_heap_ok z k0 N s' U
       else (\<exists>n. kernel_heap_ok z k0 N s' (insert (unat p, n) U) \<and> unat p \<notin> fst ` U))"
    using p(2) t(1) by (cases "p = 0") (auto simp: kernel_heap_ok_def)
  show "\<exists>s'. os_kalloc 0 s = Ret (0, s')" using t by (simp add: os_kalloc_def tlsf_malloc_zero)
next
  fix s U n and p :: u64 assume "kernel_heap_ok z k0 N s U" and p: "(unat p, n) \<in> U"
  then obtain t where t: "is_init s" "tlsf_ctx s = Some t" "tlsf_heap z k0 N t U" by (auto simp: kernel_heap_ok_def)
  obtain t' where t': "tlsf_free p t = Ret t'" "tlsf_heap z k0 N t' (U - {(unat p, n)})"
    using tlsf_alloc.free_law [OF t(3) p] by blast
  show "\<exists>s'. os_kfree p s = Ret s' \<and> kernel_heap_ok z k0 N s' (U - {(unat p, n)})"
    using t(1,2) t' by (simp add: os_kfree_def kernel_heap_ok_def)
  fix sz :: u64 assume sz: "unat sz \<le> KREALLOC_MAX"
  show "\<exists>q s'. os_krealloc p sz s = Ret (q, s') \<and>
      (if sz = 0 then kernel_heap_ok z k0 N s' (U - {(unat p, n)})
       else if q = 0 then kernel_heap_ok z k0 N s' U
       else (\<exists>m. kernel_heap_ok z k0 N s' (insert (unat q, m) (U - {(unat p, n)})) \<and> unat q \<notin> fst ` (U - {(unat p, n)})))"
  proof (cases "sz = 0")
    case True
    have "p \<noteq> 0" using heap_area(3) [OF t(3) p] by auto
    then show ?thesis using True t(1,2) t' by (simp add: os_krealloc_def tlsf_realloc_def kernel_heap_ok_def)
  next
    case False
    have r: "req (unat sz) \<noteq> 0"
      using False sz by (auto simp: req_def Let_def unat_eq_zero)
    show ?thesis
    proof (cases rule: realloc_heap [OF t(3) p False r])
      case 1
      then show ?thesis using t False by (simp add: os_krealloc_def kernel_heap_ok_def)
    next
      case (2 q m t')
      then have "unat q \<notin> fst ` (U - {(unat p, n)})" by force
      then show ?thesis using 2(1,2,3) t(1,2) False by (auto simp: os_krealloc_def kernel_heap_ok_def)
    qed
  qed
next
  fix s U a n m assume "kernel_heap_ok z k0 N s U" "(a, n) \<in> U" "(a, m) \<in> U"
  then show "n = m" using heap_fst_inj by (auto simp: kernel_heap_ok_def)
qed

section \<open>Correctness of the kernel heap\<close>

text \<open>
  C26 (\<^verbatim>\<open>__kalloc_init\<close>).  With 1024 free frames in a row the first initialisation takes exactly such a run and makes one
  free block of everything behind the control structure; without one it panics, and a second call does nothing.
\<close>

theorem kalloc_init_spec:
  assumes "seg_inv s" and "unat hhdm mod 8 = 0" and "unat hhdm + 4096 * highest_frame_idx s + 4096 \<le> 2 ^ 64"
    and "\<not> is_init ks"
  shows "if \<exists>k. free_run s k 1024
    then \<exists>k ks' s'. free_run s k 1024 \<and> kalloc_init hhdm (ks, s) = Ret (ks', s') \<and> seg_inv s' \<and>
      (\<forall>i. frame_free s' i \<longleftrightarrow> frame_free s i \<and> \<not> (k \<le> i \<and> i < k + 1024)) \<and>
      kalloc_init hhdm (ks', s') = Ret (ks', s') \<and>
      (let z = (unat hhdm + 4096 * k) div 8
       in kernel_heap_ok z (z + 816) 523470 ks' {} \<and> (\<exists>t. tlsf_ctx ks' = Some t \<and> heap_inv z (z + 816) t [(523469, True)]))
    else kalloc_init hhdm (ks, s) = Panic"
proof (cases "\<exists>k. free_run s k 1024")
  case True
  then obtain k0 where "free_run s k0 1024" ..
  from kalloc_init_ok [OF assms(1) this assms(2-4)] obtain k ks' s' where
    r: "free_run s k 1024" "kalloc_init hhdm (ks, s) = Ret (ks', s')" "seg_inv s'"
      "\<forall>i. frame_free s' i \<longleftrightarrow> frame_free s i \<and> \<not> (k \<le> i \<and> i < k + 1024)"
      "let z = (unat hhdm + 4096 * k) div 8
       in kernel_heap_ok z (z + 816) 523470 ks' {} \<and> (\<exists>t. tlsf_ctx ks' = Some t \<and> heap_inv z (z + 816) t [(523469, True)])" by blast
  have "is_init ks'" using r(5) by (simp add: kernel_heap_ok_def Let_def)
  then have "kalloc_init hhdm (ks', s') = Ret (ks', s')" by (simp add: kalloc_init_def)
  with r have "\<exists>k ks' s'. free_run s k 1024 \<and> kalloc_init hhdm (ks, s) = Ret (ks', s') \<and> seg_inv s' \<and>
      (\<forall>i. frame_free s' i \<longleftrightarrow> frame_free s i \<and> \<not> (k \<le> i \<and> i < k + 1024)) \<and>
      kalloc_init hhdm (ks', s') = Ret (ks', s') \<and>
      (let z = (unat hhdm + 4096 * k) div 8
       in kernel_heap_ok z (z + 816) 523470 ks' {} \<and> (\<exists>t. tlsf_ctx ks' = Some t \<and> heap_inv z (z + 816) t [(523469, True)]))"
    by (intro exI [of _ k] exI [of _ ks'] exI [of _ s'] conjI)
  then show ?thesis using True by simp
next
  case False
  obtain bm where bm: "bitmap s = Some bm" using assms(1) by (auto simp: seg_inv_def split: option.splits)
  show ?thesis
    by (cases rule: vm_alloc_frame_cases [OF assms(1) bm, of 1024])
      (use False assms(4) in \<open>auto simp: kalloc_init_def\<close>)
qed

text \<open>
  C3 (\<^verbatim>\<open>kalloc\<close>, \<^verbatim>\<open>kfree\<close>, \<^verbatim>\<open>krealloc\<close>).  Every run of calls on the kernel heap is a run of the heap with numbered
  allocations that the rest of the kernel is verified against, for some answers of its oracle: no call fails an
  assertion, the client holds the same allocations, and their areas are exactly those in use.  The calls may have
  any size, but for \<^verbatim>\<open>krealloc\<close> only sizes up to \<open>2\<^sup>3\<^sup>2 - 8\<close>: beyond them it returns a block that has not grown.
\<close>

theorem kheap_refines:
  assumes "kernel_heap_ok z k0 N ks {}" and "list_all call_ok cs"
  shows "\<exists>ks' oom addr h' ids U. krun os_kalloc os_kfree os_krealloc cs (ks, []) = Ret (ks', map addr ids) \<and>
    arun cs (\<lparr>k_init = True, k_oom = oom, k_addr = addr, k_cnt = 0, k_live = []\<rparr>, []) = Some (h', ids) \<and>
    heap_wf h' \<and> set (k_live h') = set ids \<and> distinct ids \<and> inj_on addr (set ids) \<and>
    kernel_heap_ok z k0 N ks' U \<and> fst ` U = unat ` addr ` set (k_live h')"
proof -
  define h where "h = \<lparr>k_init = True, k_oom = (\<lambda>_. False), k_addr = (\<lambda>_. 0), k_cnt = 0, k_live = []\<rparr>"
  have "ksim h {} []" by (simp add: ksim_def h_def heap_wf_def)
  from kheap.run_refines [OF assms(1) this assms(2)] obtain ks' oom addr h' ids U where
    r: "krun os_kalloc os_kfree os_krealloc cs (ks, map (k_addr h) []) = Ret (ks', map addr ids)"
      "arun cs (answers oom addr h, []) = Some (h', ids)" "kernel_heap_ok z k0 N ks' U" "k_addr h' = addr" "ksim h' U ids"
    by blast
  have "answers oom addr h = \<lparr>k_init = True, k_oom = oom, k_addr = addr, k_cnt = 0, k_live = []\<rparr>"
    by (simp add: answers_def h_def)
  then show ?thesis using r
    by (intro exI [of _ ks'] exI [of _ oom] exI [of _ addr] exI [of _ h'] exI [of _ ids] exI [of _ U]) (auto simp: ksim_def)
qed

theorem kheap_refines_witness:
  "\<exists>ks. kernel_heap_ok 512 1328 206 ks {} \<and>
    (\<exists>ks' oom addr h' ids. krun os_kalloc os_kfree os_krealloc [KAlloc 100, KAlloc 40, KRealloc 1 300, KFree 0] (ks, []) =
       Ret (ks', map addr ids) \<and>
     arun [KAlloc 100, KAlloc 40, KRealloc 1 300, KFree 0]
       (\<lparr>k_init = True, k_oom = oom, k_addr = addr, k_cnt = 0, k_live = []\<rparr>, []) = Some (h', ids))"
proof -
  obtain t where "tlsf_heap 512 1328 206 t {}" using ex_heap .
  then have k: "kernel_heap_ok 512 1328 206 \<lparr>is_init = True, pool_pa = 4096, pool_va = 4096, tlsf_ctx = Some t\<rparr> {}"
    by (simp add: kernel_heap_ok_def)
  have "list_all call_ok [KAlloc 100, KAlloc 40, KRealloc 1 300, KFree 0]" by simp
  from kheap_refines [OF k this] show ?thesis by (elim exE conjE) (intro exI conjI, rule k)
qed

definition seg_pool :: seg where
  "seg_pool = seg_demo\<lparr>mem := (\<lambda>a. if a = 4096 then 3 else 0), bitmap := Some 4096, bitmap_size := 256,
     highest_frame_idx := 2048, pages_free := 2046\<rparr>"

lemma seg_pool_free: "frame_free seg_pool i \<longleftrightarrow> 2 \<le> i \<and> i < 2048"
proof (cases "i < 8")
  case True
  then have "i \<in> {0, 1, 2, 3, 4, 5, 6, 7}" by auto
  then show ?thesis by (auto simp: frame_free_def seg_pool_def testbit_bit)
next
  case False
  then have "4096 + i div 8 \<noteq> 4096" by auto
  then show ?thesis using False by (auto simp: frame_free_def seg_pool_def testbit_bit)
qed

theorem kalloc_init_spec_witness:
  "\<exists>ks' s'. kalloc_init 0xFFFF800000000000 (\<lparr>is_init = False, pool_pa = 0, pool_va = 0, tlsf_ctx = None\<rparr>, seg_pool) = Ret (ks', s') \<and>
    is_init ks'"
proof -
  have "Collect (frame_free seg_pool) = {2..<2048}" by (auto simp: seg_pool_free)
  moreover have f: "bitmap seg_pool = Some 4096" "bitmap_size seg_pool = 256" "highest_frame_idx seg_pool = 2048"
    "pages_free seg_pool = 2046" by (simp_all add: seg_pool_def)
  ultimately have "seg_inv seg_pool" by (auto simp: seg_inv_def seg_pool_free)
  moreover have "\<exists>k. free_run seg_pool k 1024" by (intro exI [of _ 2]) (auto simp: free_run_def seg_pool_free)
  ultimately show ?thesis
    using kalloc_init_spec [of seg_pool "0xFFFF800000000000" "\<lparr>is_init = False, pool_pa = 0, pool_va = 0, tlsf_ctx = None\<rparr>"]
    by (auto simp: f(3) kernel_heap_ok_def Let_def)
qed

end
