(* ===== verification/Vm_Tlsf_Check.thy ===== *)
theory Vm_Tlsf_Check
  imports Vm_Tlsf_Heap
begin

text \<open>
  The integrity checks of \<^verbatim>\<open>vm/vm_tlsf.c\<close>, which walk the free lists and the blocks of a pool, and the theorem that
  they find nothing wrong on a heap with the invariant.  \<open>None\<close> is a walk that does not end.  A failed
  \<^verbatim>\<open>tlsf_insist\<close> panics in its assertion, so the status never drops below 0.
\<close>

section \<open>The checks\<close>

definition tlsf_insist :: "bool \<Rightarrow> 'a exec option \<Rightarrow> 'a exec option" where
  "tlsf_insist x k = (if x then k else Some Panic)"

lemma mono_tlsf_insist [partial_function_mono]:
  "mono_option f \<Longrightarrow> mono_option (\<lambda>g. tlsf_insist x (f g))"
  by (cases x) (simp_all add: tlsf_insist_def option.const_mono)

partial_function (option) check_blocks :: "nat \<Rightarrow> nat \<Rightarrow> tlsf \<Rightarrow> u64 \<Rightarrow> unit exec option" where
  "check_blocks i j t b =
     (if b = control t then Some (Ret ())
      else
        tlsf_insist (block_is_free t b) (
        tlsf_insist (\<not> block_is_prev_free t b) (
        (case block_next t b of
           Panic \<Rightarrow> Some Panic
         | Fault \<Rightarrow> Some Fault
         | Ret next \<Rightarrow>
             tlsf_insist (\<not> block_is_free t next) (
             tlsf_insist (block_is_prev_free t next) (
             tlsf_insist (block_size t b \<ge> block_size_min) (
             tlsf_insist (mapping_insert (block_size t b) = (i, j)) (check_blocks i j t (next_free t b)))))))))"

definition check_slot :: "tlsf \<Rightarrow> nat \<times> nat \<Rightarrow> unit exec option" where
  "check_slot t = (\<lambda>(i, j).
     (let fl_map = bit (fl_bitmap t) i; sl_list = sl_bitmap t ! i; sl_map = bit sl_list j; block = blocks t ! i ! j
      in tlsf_insist (fl_map \<or> \<not> sl_map)
           (if \<not> sl_map then tlsf_insist (block = control t) (Some (Ret ()))
            else
              tlsf_insist (sl_list \<noteq> 0) (
              tlsf_insist (block \<noteq> control t) (check_blocks i j t block)))))"

fun check_slots :: "tlsf \<Rightarrow> (nat \<times> nat) list \<Rightarrow> int exec option" where
  "check_slots t [] = Some (Ret 0)"
| "check_slots t (s # ss) =
     (case check_slot t s of Some (Ret _) \<Rightarrow> check_slots t ss | Some Panic \<Rightarrow> Some Panic | Some Fault \<Rightarrow> Some Fault | None \<Rightarrow> None)"

definition tlsf_check :: "tlsf \<Rightarrow> int exec option" where
  "tlsf_check t = check_slots t (List.product [0..<FL_INDEX_COUNT] [0..<SL_INDEX_COUNT])"

text \<open>A walker gets the address, the size and the state of a block, and a value of its own.\<close>

partial_function (option) walk_blocks :: "(u64 \<Rightarrow> u64 \<Rightarrow> bool \<Rightarrow> 'u \<Rightarrow> 'u exec) \<Rightarrow> tlsf \<Rightarrow> u64 \<Rightarrow> 'u \<Rightarrow> 'u exec option" where
  "walk_blocks walker t b u =
     (if b \<noteq> 0 \<and> \<not> block_is_last t b then
        (case walker (block_to_ptr b) (block_size t b) (\<not> block_is_free t b) u of
           Ret u \<Rightarrow>
             (case block_next t b of Ret b \<Rightarrow> walk_blocks walker t b u | Panic \<Rightarrow> Some Panic | Fault \<Rightarrow> Some Fault)
         | Panic \<Rightarrow> Some Panic
         | Fault \<Rightarrow> Some Fault)
      else Some (Ret u))"

definition tlsf_walk_pool :: "u64 \<Rightarrow> (u64 \<Rightarrow> u64 \<Rightarrow> bool \<Rightarrow> 'u \<Rightarrow> 'u exec) \<Rightarrow> 'u \<Rightarrow> tlsf \<Rightarrow> 'u exec option" where
  "tlsf_walk_pool p walker u t = walk_blocks walker t (offset_to_block p (- block_header_overhead)) u"

record integrity =
  prev_status :: bool
  istatus :: int

definition integrity_walker :: "tlsf \<Rightarrow> u64 \<Rightarrow> u64 \<Rightarrow> bool \<Rightarrow> integrity \<Rightarrow> integrity exec" where
  "integrity_walker t ptr sz used integ =
     (let b = block_from_ptr ptr
      in if prev_status integ \<noteq> block_is_prev_free t b then Panic
         else if sz \<noteq> block_size t b then Panic
         else Ret (integ\<lparr>prev_status := block_is_free t b, istatus := istatus integ + 0\<rparr>))"

definition tlsf_check_pool :: "u64 \<Rightarrow> tlsf \<Rightarrow> int exec option" where
  "tlsf_check_pool p t =
     map_option (\<lambda>r. exec_bind r (\<lambda>integ. Ret (istatus integ)))
       (tlsf_walk_pool p (integrity_walker t) \<lparr>prev_status = False, istatus = 0\<rparr> t)"

definition tlsf_block_size :: "u64 \<Rightarrow> tlsf \<Rightarrow> u64" where
  "tlsf_block_size ptr t = (if ptr \<noteq> 0 then block_size t (block_from_ptr ptr) else 0)"

section \<open>The checks succeed\<close>

lemma check_blocks_ok:
  assumes H: "heap_inv z k0 t bs" and S: "slot_ok z t (frees k0 bs) i j l"
  shows "l = us @ vs \<Longrightarrow> check_blocks i j t (adr (hd (vs @ [z]))) = Some (Ret ())"
proof (induction vs arbitrary: us)
  case Nil
  have "control t = adr z" using H by (simp add: heap_inv_def pool_def free_lists_def)
  then show ?case by (simp add: check_blocks.simps)
next
  case (Cons k vs)
  have P: "pool z k0 t bs (frees k0 bs)" and co: "coalesced False bs" using H by (simp_all add: heap_inv_def)
  obtain n where n: "(k, n) \<in> frees k0 bs" "class_of n = (i, j)" using S Cons.prems by (auto simp: slot_ok_def)
  obtain xs ys where b: "bs = xs @ (n, True) # ys" "k = k0 + span xs" using frees_split [OF n(1)] .
  note P' = P [unfolded b(1)]
  obtain m g zs where y: "ys @ [(0, False)] = (m, g) # zs" by (cases "ys @ [(0, False)]") auto
  have bx: "k + 1 + n + 3 < 2 ^ 61" using pool_hdr(6) [OF P'] b(2) by simp
  note nx = block_hdr [OF pool_hdr(7) [OF P' y, folded b(2)] bx]
  have c: "\<not> endf False xs" "coalesced True ys" using co by (simp_all add: b(1) coalesced_append)
  then have g: "\<not> g" using y by (cases ys) auto
  have ne: "adr k \<noteq> control t"
  proof -
    have "control t = adr z" "geo z k0 bs" using P by (simp_all add: pool_def free_lists_def)
    from this(2) have "z < k" "k < 2 ^ 61" using b bx by (auto simp: geo_def)
    then have "adr z < adr k" by (simp add: adr_less)
    then show ?thesis using \<open>control t = adr z\<close> by simp
  qed
  have nf: "next_free t (adr k) = adr (hd (vs @ [z]))"
  proof -
    have "dls (cells t) z (us @ k # vs) z" using S Cons.prems by (simp add: slot_ok_def)
    then have "cells t (k + 2) = adr (hd (vs @ [z]))" by (simp add: dls_append)
    then show ?thesis using bx by (simp add: adr_off rd_cell)
  qed
  have mi: "mapping_insert (adr n) = (i, j)" using n(2) by (simp add: class_of_def)
  have sz: "24 \<le> adr n" using pool_hdr(3,4) [OF P'] by (simp add: word_le_nat_alt unat_adr)
  show ?case
    using Cons.IH [of "us @ [k]"] Cons.prems
    by (subst check_blocks.simps) (simp add: tlsf_insist_def ne g c nx(3,4) [simplified] nf mi sz pool_size [OF P', folded b(2)])
qed

lemma check_slot_ok:
  assumes H: "heap_inv z k0 t bs" and r: "in_range i j"
  shows "check_slot t (i, j) = Some (Ret ())"
proof -
  have L: "free_lists z t (frees k0 bs)" using H by (simp add: heap_inv_def pool_def)
  then obtain l where S: "slot_ok z t (frees k0 bs) i j l" using r unfolding free_lists_def by blast
  have sl: "bit (sl_bitmap t ! i) j \<longleftrightarrow> l \<noteq> []" and hd: "blocks t ! i ! j = adr (hd (l @ [z]))" using S by (simp_all add: slot_ok_def)
  have ct: "control t = adr z" and bo: "blocks_ok z (frees k0 bs)" using L by (simp_all add: free_lists_def)
  show ?thesis
  proof (cases "l = []")
    case True
    then show ?thesis using sl hd ct by (simp add: check_slot_def tlsf_insist_def)
  next
    case False
    then have b: "bit (sl_bitmap t ! i) j" using sl by simp
    then have nz: "sl_bitmap t ! i \<noteq> 0" by auto
    then have fl: "bit (fl_bitmap t) i" using L r by (simp add: free_lists_def shape_ok_def in_range_def)
    have m: "hd (l @ [z]) \<in> fst ` frees k0 bs" using slot_sub [OF S] False by (cases l) auto
    have "z \<notin> fst ` frees k0 bs" using bo by (simp add: blocks_ok_def)
    then have "hd (l @ [z]) \<noteq> z" using m by metis
    moreover have "hd (l @ [z]) + 3 < 2 ^ 61" "z + 3 < 2 ^ 61"
      using blocks_okD(2) [OF bo, of "hd (l @ [z])"] blocks_okD(2) [OF bo, of z] m by blast+
    ultimately have "adr (hd (l @ [z])) \<noteq> adr z" by (simp add: adr_inj)
    then show ?thesis
      using check_blocks_ok [OF H S, of "[]" l] b nz fl hd ct by (simp add: check_slot_def tlsf_insist_def)
  qed
qed

lemma check_slots_ok:
  "(\<And>s. s \<in> set ss \<Longrightarrow> check_slot t s = Some (Ret ())) \<Longrightarrow> check_slots t ss = Some (Ret 0)"
  by (induction ss) simp_all

lemma walk_blocks_ok:
  assumes P: "pool z k0 t (xs @ ys) F"
  shows "walk_blocks (integrity_walker t) t (adr (k0 + span xs)) \<lparr>prev_status = endf False xs, istatus = 0\<rparr> =
    Some (Ret \<lparr>prev_status = endf False (xs @ ys), istatus = 0\<rparr>)"
  using assms
proof (induction ys arbitrary: xs)
  case Nil
  let ?k = "k0 + span xs"
  have s: "cells t (?k + 1) = hdr 0 False (endf False xs)" and g: "?k + 6 < 2 ^ 61"
    using Nil by (simp_all add: pool_def seg_append geo_def)
  have "block_is_last t (adr ?k)" using block_hdr(2) [OF s] g by (simp add: block_is_last_def adr_def)
  then show ?case by (subst walk_blocks.simps) simp
next
  case (Cons b ys)
  obtain n f where b: "b = (n, f)" by (cases b)
  note P = Cons.prems [unfolded b]
  have "pool z k0 t ((xs @ [(n, f)]) @ ys) F" using P by simp
  from Cons.IH [OF this] have ih: "walk_blocks (integrity_walker t) t (adr (k0 + span xs + 1 + n)) \<lparr>prev_status = f, istatus = 0\<rparr> =
      Some (Ret \<lparr>prev_status = endf False (xs @ b # ys), istatus = 0\<rparr>)" by (simp add: b add.assoc)
  show ?case
    by (subst walk_blocks.simps)
      (simp add: pool_size [OF P] integrity_walker_def block_from_ptr_def block_to_ptr_def ih [simplified])
qed

text \<open>
  C14 (\<^verbatim>\<open>tlsf_check\<close>, \<^verbatim>\<open>tlsf_check_pool\<close>).  On a heap with the invariant both integrity checks end, trip no assertion and
  return 0: the bitmaps, the free lists, the classes of the blocks on them and the flags of neighbours agree.
\<close>

theorem tlsf_check_passes:
  assumes "heap_inv z k0 t bs"
  shows "tlsf_check t = Some (Ret 0) \<and> tlsf_check_pool (adr (k0 + 1)) t = Some (Ret 0)"
proof
  show "tlsf_check t = Some (Ret 0)"
    unfolding tlsf_check_def by (rule check_slots_ok) (auto intro!: check_slot_ok [OF assms] simp: in_range_def)
  have "pool z k0 t ([] @ bs) (frees k0 bs)" using assms by (simp add: heap_inv_def)
  note w = walk_blocks_ok [OF this]
  have "offset_to_block (adr (k0 + 1)) (- 8) = adr k0" by (simp add: offset_to_block_def adr_def)
  then show "tlsf_check_pool (adr (k0 + 1)) t = Some (Ret 0)" using w by (simp add: tlsf_check_pool_def tlsf_walk_pool_def)
qed

theorem tlsf_check_passes_witness:
  "\<exists>t. tlsf_create_with_pool 4096 8192 (\<lambda>_. 0) = Ret (Some t) \<and> tlsf_check t = Some (Ret 0)"
proof -
  have "adr 512 = 4096" by (simp add: adr_def)
  then obtain t where t: "tlsf_create_with_pool 4096 8192 (\<lambda>_. 0) = Ret (Some t)" "heap_inv 512 1328 t [(205, True)]"
    using tlsf_create_with_pool_ok [of 205 8192 512 "\<lambda>_. 0"] by auto
  show ?thesis using t(1) tlsf_check_passes [OF t(2)] by blast
qed

end
