(* ===== verification/Spec2Isabelle.thy ===== *)
theory Spec2Isabelle
  imports Np_Compile Os_File Os_Kalloc Vm_Tlsf_Check
begin

text \<open>
  A verification development for the L5/Lunos kernel: its memory management, its in-kernel Pirho compiler, its file systems,
  its processes and scheduler, and the host tool that builds its initial image.  Paths below are relative to \<^verbatim>\<open>src/src\<close>.

  \<^bold>\<open>The program and how its parts interact.\<close>  The boot loader hands over a memory map and an initial image.
  \<^verbatim>\<open>sys/vm/vm_seg.c\<close> keeps a bitmap of page frames; \<^verbatim>\<open>sys/arch/amd64/cpu/mmu.c\<close> builds page tables in such frames, and
  \<^verbatim>\<open>sys/os/os_kalloc.c\<close> makes a heap of 1024 of them, managed by the two-level segregated fit allocator of
  \<^verbatim>\<open>sys/vm/vm_tlsf.c\<close>.  The image is an OMAR archive written by \<^verbatim>\<open>tools/omar/omar.c\<close>; \<^verbatim>\<open>sys/os/os_omar.c\<close> finds files in it and
  makes it the root file system, \<^verbatim>\<open>sys/fs/tmpfs.c\<close> and \<^verbatim>\<open>sys/fs/devfs.c\<close> are the other file systems, all of them behind the
  vnodes, mounts and path lookup of \<^verbatim>\<open>sys/os/vfs_*.c\<close>.  Processes (\<^verbatim>\<open>sys/os/os_proc.c\<close>, \<^verbatim>\<open>sys/arch/amd64/os/os_proc.c\<close>) own an
  address space (\<^verbatim>\<open>sys/vm/vm_map.c\<close>), are loaded by \<^verbatim>\<open>sys/os/os_elf64.c\<close>, scheduled by \<^verbatim>\<open>sys/os/os_sched.c\<close>, and use files through
  descriptors (\<^verbatim>\<open>sys/os/os_filedes.c\<close>).  The Pirho compiler (\<^verbatim>\<open>sys/np\<close>, \<^verbatim>\<open>sys/arch/amd64/np\<close>) turns source text into bytecode and
  the bytecode into machine code.  String, number and formatting routines (\<^verbatim>\<open>sys/lib\<close>) serve all of them.

  \<^bold>\<open>How code is translated.\<close>  A struct is a record, an enum a datatype, an integer a word of its width wherever
  it can wrap around; NULL is \<^verbatim>\<open>None\<close> in an option.  A function that changes an object takes it and returns the new one.
  An error return is \<^verbatim>\<open>Inl\<close> of an error number, or the negative number itself where the caller computes with it.  An
  access outside an object, a use of freed or missing memory, or a loop that does not end is \<^verbatim>\<open>None\<close>; in code that can also
  panic the outcome is \<^verbatim>\<open>Ret\<close>, \<^verbatim>\<open>Panic\<close> or \<^verbatim>\<open>Fault\<close>.  Objects on the heap are named by the number of their
  allocation.  The answers of the allocator (which request fails, which address it gets) are fields of the heap, so the
  theorems on its clients hold for all of them, and the refinement in \<^verbatim>\<open>Os_Kalloc\<close> shows that the real heap is one of these.

  \<^bold>\<open>Theories.\<close>

  \<^item> \<^verbatim>\<open>L5_Prelude\<close>: error numbers, C types, alignment, checked buffers, generic lemmas (\<^verbatim>\<open>buf_simps\<close>, \<^verbatim>\<open>align_simps\<close>).
    \<^verbatim>\<open>L5_Mem\<close>: byte memory with 64-bit loads and stores, and the outcome type \<^verbatim>\<open>exec\<close>.
  \<^item> \<^verbatim>\<open>L5_String\<close>, \<^verbatim>\<open>L5_Number\<close>, \<^verbatim>\<open>L5_Printf\<close>: \<^verbatim>\<open>sys/lib/string\<close>.  Each routine equals a reference function on lists and
    stays inside its arrays; \<^verbatim>\<open>atoi\<close> inverts \<^verbatim>\<open>itoa\<close>; \<^verbatim>\<open>snprintf\<close> writes a reference rendering, cut to the size.
  \<^item> \<^verbatim>\<open>L5_Kalloc\<close>: \<^verbatim>\<open>kalloc\<close>, \<^verbatim>\<open>krealloc\<close>, \<^verbatim>\<open>kfree\<close> as clients see them, and \<^verbatim>\<open>sys/lib/ptrbox.c\<close> with what terminating a box frees.
  \<^item> \<^verbatim>\<open>Vm_Tlsf\<close>: \<^verbatim>\<open>sys/vm/vm_tlsf.c\<close>, function by function, on a byte memory.  \<^verbatim>\<open>Vm_Tlsf_Cells\<close> has the memory as
    an array of 8-byte cells and the size classes, \<^verbatim>\<open>Vm_Tlsf_Lists\<close> the invariant of the free lists and bitmaps, \<^verbatim>\<open>Vm_Tlsf_Pool\<close> that of
    the blocks of a pool with splitting and merging, \<^verbatim>\<open>Vm_Tlsf_Heap\<close> their combination \<^verbatim>\<open>heap_inv\<close> and that the interface keeps
    it, \<^verbatim>\<open>Vm_Tlsf_Spec\<close> the contract of \<^verbatim>\<open>tlsf_malloc\<close>, \<^verbatim>\<open>tlsf_free\<close> and \<^verbatim>\<open>tlsf_realloc\<close> on the areas in use (locale \<^verbatim>\<open>allocator\<close>,
    interpreted on these functions, with its results on whole sessions), and \<^verbatim>\<open>Vm_Tlsf_Check\<close> the integrity checks, which pass.
  \<^item> \<^verbatim>\<open>Vm_Seg\<close>: \<^verbatim>\<open>sys/vm/vm_seg.c\<close>, with the bitmap in the memory it manages.  Initialisation, allocation and release are
    specified by the set of free frames; an inductive relation follows every history of calls.  The locale
    \<^verbatim>\<open>frame_source\<close> is what the paging code relies on.
  \<^item> \<^verbatim>\<open>Os_Kalloc\<close>: \<^verbatim>\<open>sys/os/os_kalloc.c\<close> on \<^verbatim>\<open>Vm_Tlsf\<close> and \<^verbatim>\<open>Vm_Seg\<close>: the initialisation, and the refinement of \<^verbatim>\<open>L5_Kalloc\<close>
    (locale \<^verbatim>\<open>kernel_heap\<close>, which extends \<^verbatim>\<open>allocator\<close>).
  \<^item> \<^verbatim>\<open>Mmu\<close>: \<^verbatim>\<open>sys/arch/amd64/cpu/mmu.c\<close>.  The invariant \<^verbatim>\<open>pt_inv\<close> of an address space, and mapping and new address spaces
    in terms of the last-level entry \<^verbatim>\<open>pte\<close> of every address.
  \<^item> \<^verbatim>\<open>Np_Piir\<close>, \<^verbatim>\<open>Np_Symbol\<close>, \<^verbatim>\<open>Np_Lex\<close>, \<^verbatim>\<open>Np_Conv\<close>, \<^verbatim>\<open>Np_Parse\<close>, \<^verbatim>\<open>Np_Compile\<close>: \<^verbatim>\<open>sys/np\<close> and \<^verbatim>\<open>sys/arch/amd64/np/piir_conv.c\<close>.  The bytecode
    queue is a bounded queue (locale \<^verbatim>\<open>bounded_queue\<close>), the cached symbol table equals the uncached one, the lexer refines a
    scanner on the remaining characters, the generator emits a reference translation, the parser ends and
    stays inside its buffers, and one family of programs is followed from its text to its machine code.
  \<^item> \<^verbatim>\<open>Omar\<close>: \<^verbatim>\<open>tools/omar/omar.c\<close> and the lookup and read of \<^verbatim>\<open>sys/os/os_omar.c\<close>.  An archived tree is found again by the
    kernel and by the tool's own extraction; an empty file breaks the image.
  \<^item> \<^verbatim>\<open>Os_Vnode\<close>, \<^verbatim>\<open>Os_Tmpfs\<close>, \<^verbatim>\<open>Os_Devfs\<close>, \<^verbatim>\<open>Os_Vfs\<close>: vnodes and the state \<^verbatim>\<open>fstate\<close> of the file systems, \<^verbatim>\<open>sys/fs/tmpfs.c\<close>,
    \<^verbatim>\<open>sys/fs/devfs.c\<close> with \<^verbatim>\<open>sys/os/os_null.c\<close>, and \<^verbatim>\<open>sys/os/os_bootvars.c\<close>, \<^verbatim>\<open>sys/os/vfs_init.c\<close>, \<^verbatim>\<open>sys/os/vfs_mount.c\<close>, \<^verbatim>\<open>sys/os/vfs_namei.c\<close>:
    what is written is read back, what is created is found, and a file of the image is found after boot.
  \<^item> \<^verbatim>\<open>Os_Sched\<close>, \<^verbatim>\<open>Os_Fd\<close>, \<^verbatim>\<open>Os_Proc\<close>, \<^verbatim>\<open>Os_File\<close>: the kernel state (a record that extends those of the frame allocator and
    of the paging code), \<^verbatim>\<open>sys/os/os_sched.c\<close> with the context switch, the two parts of \<^verbatim>\<open>sys/os/os_filedes.c\<close>,
    \<^verbatim>\<open>sys/vm/vm_map.c\<close>, \<^verbatim>\<open>sys/os/os_systm.c\<close>, \<^verbatim>\<open>sys/os/os_elf64.c\<close>, \<^verbatim>\<open>sys/os/os_ucred.c\<close>, \<^verbatim>\<open>sys/os/os_proc.c\<close> and the system calls of
    \<^verbatim>\<open>sys/compat/unix/os\<close>: fairness of the queue, mapping of ranges, user strings, credentials, descriptors.  The locale \<^verbatim>\<open>vnode_io\<close>
    is what reading and writing through a descriptor relies on; \<^verbatim>\<open>tmpfs\<close> is its interpretation.

  The property of this theory spans descriptors, vnodes and the temporary file system.

  \<^bold>\<open>Loops and bounds.\<close>  Loops over data are structural or have a termination proof.  The loops that
  drain the bytecode, map and release ranges, and walk the blocks of a heap are partial functions, where not ending is \<^verbatim>\<open>None\<close>; the
  theorems on them conclude that they return.  The only fuel is the depth to which the archive tool descends into
  directories, as a host may show an endless tree (links); every fuel above the height of a finite tree is enough.  Sizes are
  those of the source: 4096 bytes of bytecode and of code, 256 descriptors, names of 255 characters in archives, a heap of
  4 MiB.  Page tables have four levels and physical addresses 52 bits; page tables with large pages do not satisfy \<^verbatim>\<open>pt_inv\<close>.

  \<^bold>\<open>Parameters.\<close>  What is not in the repository, or not determined by C, is an argument: the answers of the
  host to the archive tool, the memory map and the modules of the boot loader, the read routine of a character
  device, the contents of uninitialised variables and buffers, the bytes behind the 8-byte instruction array that the
  64-bit load of the code generator reads, and the numbers the allocator answers with.

  \<^bold>\<open>Behaviour that is not as intended\<close> is modelled as it is.  Theorems show among others that an empty file
  makes an image unreadable, that the largest requests wrap around to the smallest, that numbers above 127
  are dropped from the code, that a process is released twice, that a switch with nobody to run leads to a double
  insertion, and that a range of user memory is accepted by its first address.

  \<^bold>\<open>Not modelled.\<close>  Interleaving with interrupts and other cores (spin locks have no counterpart; operations
  run one at a time); printing, the console and the frame buffer; drivers (AHCI, PCI, USB, DMA, interrupt controllers, timers);
  ACPI, processor set-up and assembly; sockets, namespaces, I/O taps, signals and the disk layer, on which
  no modelled part depends; the C library, the widget library and the user commands; the command line of the archive
  tool.  \<^verbatim>\<open>tlsf_memalign\<close> and \<^verbatim>\<open>tlsf_remove_pool\<close> are defined, but nothing is proved about them.
\<close>

text \<open>
  C11 (\<^verbatim>\<open>write\<close>, \<^verbatim>\<open>lseek\<close>, \<^verbatim>\<open>read\<close>).  On a descriptor that is open for reading and writing on a file of a temporary file
  system, writing at most 1024 bytes at an offset inside the file, seeking back and reading as many bytes returns
  exactly the bytes written.
\<close>

theorem file_roundtrip:
  assumes "open_fd p i fd s" and "fd_vp fd = Some vp" and "fd_mode fd = O_RDWR" and "i \<noteq> 1"
    and "tmpfs_file vp (kfs s)" and "tmpfs_room vp (fd_off fd) count (kfs s)" and "0 < count" and "unat count \<le> KBUF_SIZE"
    and "on_stack a" and "on_stack b" and "length data = unat count" and "length dest = unat count"
  shows "\<exists>s1 s2 s3. fd_write ue (int i) a data count s = Some (Ret (sint count, s1)) \<and>
    lseek (int i) (fd_off fd) SEEK_SET s1 = Some (Ret (fd_off fd, s2)) \<and>
    fd_read cdev ue (int i) b dest count s2 = Some (Ret (sint count, data, s3))"
  by (rule tmpfs_io.write_seek_read [OF assms])

theorem file_roundtrip_witness:
  "let fd = \<lparr>fd_id = 9, fdno = 0, fd_off = 4, fd_vp = Some 2, fd_mode = O_RDWR\<rparr>; s = upd_fd 3 0 (Some fd) (ex_kern 0)
   in \<exists>s1 s2 s3. fd_write 0 0 STACK_TOP ''hello'' 5 s = Some (Ret (5, s1)) \<and>
     lseek 0 4 SEEK_SET s1 = Some (Ret (4, s2)) \<and>
     fd_read (\<lambda>_ b _ _. (0, b)) 0 0 STACK_TOP ''.....'' 5 s2 = Some (Ret (5, ''hello'', s3))"
proof -
  define fd where "fd = \<lparr>fd_id = 9, fdno = 0, fd_off = 4, fd_vp = Some 2, fd_mode = O_RDWR\<rparr>"
  define s where "s = upd_fd 3 0 (Some fd) (ex_kern 0)"
  have "open_fd 3 0 fd s"
  proof -
    have "procs s 3 = Some ((ex_proc 3 0)\<lparr>fdtab := (replicate 256 None)[0 := Some fd]\<rparr>)"
      by (simp add: s_def upd_fd_def ex_kern_def ex_proc_def)
    moreover have "fdtab_ok ((replicate 256 None)[0 := Some fd])"
      by (rule fdtab_ok_upd) (simp_all add: fdtab_ok_def fd_def)
    moreover have "proc_self s = Some 3" by (simp add: s_def upd_fd_def proc_self_def ex_kern_def)
    ultimately show ?thesis by (simp add: open_fd_def)
  qed
  moreover have k: "kfs s = ex_fs" by (simp add: s_def ex_kern_def)
  moreover have "tmpfs_file 2 ex_fs" using ex_fs_ok by (auto simp: tmpfs_file_def ex_vnode_def)
  moreover have "tmpfs_room 2 4 5 ex_fs" using ex_fs_ok by (auto simp: tmpfs_room_def)
  moreover have "on_stack STACK_TOP" by (simp add: on_stack_def)
  ultimately have "\<exists>s1 s2 s3. fd_write 0 (int 0) STACK_TOP ''hello'' 5 s = Some (Ret (sint (5::u64), s1)) \<and>
    lseek (int 0) (fd_off fd) SEEK_SET s1 = Some (Ret (fd_off fd, s2)) \<and>
    fd_read (\<lambda>_ b _ _. (0, b)) 0 (int 0) STACK_TOP ''.....'' 5 s2 = Some (Ret (sint (5::u64), ''hello'', s3))"
    by (intro file_roundtrip [where vp = 2]) (simp_all add: fd_def)
  then show ?thesis unfolding Let_def fd_def [symmetric] s_def [symmetric] by (simp add: fd_def)
qed

end
